(* ===== verification/Prelude.thy ===== *)
theory Prelude
  imports Main "HOL-Library.Word" "HOL-Library.Sublist" "HOL-Library.Monad_Syntax"
    "HOL-Library.Code_Target_Nat"
begin

text \<open>
  What every component shares: the machine integer types at their width, the clock
  (\<open>std::time::Instant\<close> and \<open>Duration\<close>), the option monad that stands for a
  task which may panic, and generic facts on lists and maps.

  An \<open>Instant\<close> is the number of nanoseconds since the boot of the monotonic clock and a
  \<open>Duration\<close> a number of nanoseconds; both are natural numbers. Where the code reads the
  clock (\<open>Instant::now()\<close>), the model takes the value read as an argument.
\<close>

section \<open>Machine integers\<close>

type_synonym byte = "8 word"
type_synonym u16 = "16 word"
type_synonym u32 = "32 word"
type_synonym u64 = "64 word"
type_synonym usize = "64 word"

named_theorems unat_facts \<open>facts that move a word computation to the natural numbers\<close>

lemma unat_Suc_less [unat_facts]:
  fixes x y :: "'a::len word"
  assumes "x < y"
  shows "unat (x + 1) = Suc (unat x)"
proof -
  have "unat x < unat y" using assms by (simp add: word_less_nat_alt)
  moreover have "unat y < 2 ^ LENGTH('a)" by (rule unsigned_less)
  ultimately have "unat x + 1 < 2 ^ LENGTH('a)" by linarith
  then show ?thesis by (simp add: unat_word_ariths unat_1)
qed

section \<open>The clock\<close>

type_synonym instant = nat
type_synonym duration = nat

definition nanos_per_sec :: nat where
  "nanos_per_sec = 1000000000"

definition from_secs :: "nat \<Rightarrow> duration" where
  "from_secs s = s * nanos_per_sec"

definition duration_since :: "instant \<Rightarrow> instant \<Rightarrow> duration" where
  "duration_since now earlier = now - earlier"

text \<open>
  \<open>Instant + Duration\<close> panics when the seconds leave the signed 64-bit range of the
  clock; the release profile of the program turns a panic into an abort, so \<^term>\<open>None\<close> is
  the end of the process.
\<close>

definition instant_add :: "instant \<Rightarrow> duration \<Rightarrow> instant option" where
  "instant_add t d = (if (t + d) div nanos_per_sec < 2 ^ 63 then Some (t + d) else None)"

lemma nanos_per_sec_pos [simp]: "0 < nanos_per_sec"
  by (simp add: nanos_per_sec_def)

lemma from_secs_0_iff [simp]: "from_secs s = 0 \<longleftrightarrow> s = 0"
  by (simp add: from_secs_def nanos_per_sec_def)

lemma from_secs_pos_iff [simp]: "0 < from_secs s \<longleftrightarrow> 0 < s"
  by (simp add: from_secs_def nanos_per_sec_def)

lemma from_secs_mono [simp]: "from_secs a \<le> from_secs b \<longleftrightarrow> a \<le> b"
  by (simp add: from_secs_def)

lemma instant_add_Some: "instant_add t d = Some e \<Longrightarrow> e = t + d"
  by (simp add: instant_add_def split: if_splits)

section \<open>Maps and lists\<close>

text \<open>\<open>retain\<close> of the hash maps: keep the entries that satisfy a predicate.\<close>

definition map_retain :: "('k \<Rightarrow> 'v \<Rightarrow> bool) \<Rightarrow> ('k \<rightharpoonup> 'v) \<Rightarrow> ('k \<rightharpoonup> 'v)" where
  "map_retain p m = (\<lambda>k. case m k of None \<Rightarrow> None | Some v \<Rightarrow> if p k v then Some v else None)"

lemma map_retain_apply [simp]:
  "map_retain p m k = (case m k of None \<Rightarrow> None | Some v \<Rightarrow> if p k v then Some v else None)"
  by (simp add: map_retain_def)

lemma map_retain_eq_Some:
  "map_retain p m k = Some v \<longleftrightarrow> m k = Some v \<and> p k v"
  by (auto split: option.splits)

lemma dom_map_retain: "dom (map_retain p m) \<subseteq> dom m"
  by (auto split: option.splits if_splits)

lemma map_retain_idem: "map_retain p (map_retain p m) = map_retain p m"
  by (rule ext) (auto split: option.splits)

section \<open>Labelled transition systems\<close>

text \<open>
  The interface of a step relation and its runs: an invariant of the steps whose labels satisfy a
  predicate is an invariant of the runs, a measure that they decrease bounds their number, and if one
  is enabled until a goal is reached then some run reaches it.
\<close>

locale labelled_system =
  fixes step :: "'s \<Rightarrow> 'l \<Rightarrow> 's \<Rightarrow> bool" and run :: "'s \<Rightarrow> 'l list \<Rightarrow> 's \<Rightarrow> bool"
  assumes run_nil_iff: "run s [] s' \<longleftrightarrow> s' = s"
    and run_cons_iff: "run s (l # ls) s'' \<longleftrightarrow> (\<exists>s'. step s l s' \<and> run s' ls s'')"
begin

lemma run_append: "run s (ls @ ls') s'' \<longleftrightarrow> (\<exists>s'. run s ls s' \<and> run s' ls' s'')"
  by (induction ls arbitrary: s) (auto simp: run_nil_iff run_cons_iff)

lemma run_keeps:
  assumes "\<And>s l s'. step s l s' \<Longrightarrow> I s \<Longrightarrow> P l \<Longrightarrow> I s'"
  shows "run s ls s' \<Longrightarrow> I s \<Longrightarrow> list_all P ls \<Longrightarrow> I s'"
  by (induction ls arbitrary: s) (auto simp: run_nil_iff run_cons_iff dest: assms)

lemma run_bounded:
  fixes m :: "'s \<Rightarrow> nat"
  assumes "\<And>s l s'. step s l s' \<Longrightarrow> I s \<Longrightarrow> P l \<Longrightarrow> I s' \<and> m s' < m s"
  shows "run s ls s' \<Longrightarrow> I s \<Longrightarrow> list_all P ls \<Longrightarrow> length ls + m s' \<le> m s"
  by (induction ls arbitrary: s) (fastforce simp: run_nil_iff run_cons_iff dest: assms)+

lemma run_reaches:
  fixes m :: "'s \<Rightarrow> nat"
  assumes dec: "\<And>s l s'. step s l s' \<Longrightarrow> I s \<Longrightarrow> P l \<Longrightarrow> I s' \<and> m s' < m s"
    and prog: "\<And>s. I s \<Longrightarrow> \<not> G s \<Longrightarrow> \<exists>l s'. P l \<and> step s l s'"
  shows "I s \<Longrightarrow> \<exists>ls s'. run s ls s' \<and> list_all P ls \<and> G s'"
proof (induction "m s" arbitrary: s rule: less_induct)
  case less
  show ?case
  proof (cases "G s")
    case True
    then show ?thesis by (intro exI [of _ "[]"] exI [of _ s]) (simp add: run_nil_iff)
  next
    case False
    with prog less.prems obtain l s' where l: "P l" "step s l s'" by blast
    with dec less.prems have "I s'" "m s' < m s" by blast+
    with less.hyps obtain ls s'' where "run s' ls s''" "list_all P ls" "G s''" by blast
    with l show ?thesis by (intro exI [of _ "l # ls"] exI [of _ s'']) (auto simp: run_cons_iff)
  qed
qed

end

end
