(* ===== verification/Rust_Text.thy ===== *)
theory Rust_Text
  imports Prelude
begin

text \<open>
  The Rust text types the program uses: a \<open>char\<close> is a Unicode scalar value, a
  \<open>str\<close> a list of them, its bytes are the UTF-8 encoding. The standard library
  operations the program calls on them are defined here: \<open>str::len\<close>,
  \<open>as_bytes\<close>, \<open>String::from_utf8_lossy\<close>, \<open>contains\<close>,
  \<open>starts_with\<close>, \<open>split\<close>, \<open>find\<close>, the character classes, and
  \<open>u8::from_str_radix\<close>. The Unicode tables themselves (alphanumeric, digit, word
  and case tables) are a parameter, the record \<open>unicode\<close>; what is assumed of them is the
  locale \<open>unicode_tables\<close>: on ASCII they are the ASCII tables, and digits are word characters.
\<close>

section \<open>Characters and strings\<close>

type_synonym uchar = nat
type_synonym ustr = "uchar list"

definition lit :: "string \<Rightarrow> ustr" where
  "lit s = map of_char s"

definition blit :: "string \<Rightarrow> byte list" where
  "blit s = map of_char s"

lemma lit_simps [simp]:
  "lit [] = []"
  "lit (c # s) = of_char c # lit s"
  by (simp_all add: lit_def)

lemma blit_simps [simp]:
  "blit [] = []"
  "blit (c # s) = of_char c # blit s"
  by (simp_all add: blit_def)

definition is_scalar :: "uchar \<Rightarrow> bool" where
  "is_scalar c \<longleftrightarrow> c < 0xD800 \<or> (0xE000 \<le> c \<and> c < 0x110000)"

definition is_ascii :: "uchar \<Rightarrow> bool" where
  "is_ascii c \<longleftrightarrow> c < 128"

lemma ascii_scalar [simp]: "is_ascii c \<Longrightarrow> is_scalar c"
  by (simp add: is_ascii_def is_scalar_def)

text \<open>\<open>char::is_control\<close> (category Cc) and \<open>char::is_whitespace\<close> (White_Space).\<close>

definition is_control :: "uchar \<Rightarrow> bool" where
  "is_control c \<longleftrightarrow> c < 0x20 \<or> (0x7F \<le> c \<and> c < 0xA0)"

definition is_whitespace :: "uchar \<Rightarrow> bool" where
  "is_whitespace c \<longleftrightarrow>
     (9 \<le> c \<and> c \<le> 13) \<or> c = 0x20 \<or> c = 0x85 \<or> c = 0xA0 \<or> c = 0x1680 \<or>
     (0x2000 \<le> c \<and> c \<le> 0x200A) \<or> c = 0x2028 \<or> c = 0x2029 \<or> c = 0x202F \<or>
     c = 0x205F \<or> c = 0x3000"

definition is_ascii_upper :: "uchar \<Rightarrow> bool" where
  "is_ascii_upper c \<longleftrightarrow> 65 \<le> c \<and> c \<le> 90"

definition is_ascii_lower :: "uchar \<Rightarrow> bool" where
  "is_ascii_lower c \<longleftrightarrow> 97 \<le> c \<and> c \<le> 122"

definition is_ascii_digit :: "uchar \<Rightarrow> bool" where
  "is_ascii_digit c \<longleftrightarrow> 48 \<le> c \<and> c \<le> 57"

definition is_ascii_alphanumeric :: "uchar \<Rightarrow> bool" where
  "is_ascii_alphanumeric c \<longleftrightarrow> is_ascii_upper c \<or> is_ascii_lower c \<or> is_ascii_digit c"

definition ascii_lower :: "uchar \<Rightarrow> uchar" where
  "ascii_lower c = (if is_ascii_upper c then c + 32 else c)"

lemmas ascii_defs = is_ascii_upper_def is_ascii_lower_def is_ascii_digit_def
  is_ascii_alphanumeric_def ascii_lower_def is_ascii_def

lemma ascii_lower_idem [simp]: "ascii_lower (ascii_lower c) = ascii_lower c"
  by (simp add: ascii_defs)

section \<open>UTF-8\<close>

definition byte_of :: "nat \<Rightarrow> byte" where
  "byte_of n = of_nat n"

definition utf8_char :: "uchar \<Rightarrow> byte list" where
  "utf8_char c =
     (if c < 0x80 then [byte_of c]
      else if c < 0x800 then [byte_of (0xC0 + c div 64), byte_of (0x80 + c mod 64)]
      else if c < 0x10000 then
        [byte_of (0xE0 + c div 4096), byte_of (0x80 + c div 64 mod 64), byte_of (0x80 + c mod 64)]
      else
        [byte_of (0xF0 + c div 262144), byte_of (0x80 + c div 4096 mod 64),
         byte_of (0x80 + c div 64 mod 64), byte_of (0x80 + c mod 64)])"

definition as_bytes :: "ustr \<Rightarrow> byte list" where
  "as_bytes s = concat (map utf8_char s)"

definition str_len :: "ustr \<Rightarrow> nat" where
  "str_len s = length (as_bytes s)"

definition is_cont :: "byte \<Rightarrow> bool" where
  "is_cont b \<longleftrightarrow> 0x80 \<le> b \<and> b \<le> 0xBF"

text \<open>The range of the second byte depends on the lead byte (no overlong forms, no surrogates).\<close>

definition second_ok :: "byte \<Rightarrow> byte \<Rightarrow> bool" where
  "second_ok b b1 \<longleftrightarrow>
     (if b = 0xE0 then 0xA0 \<le> b1 \<and> b1 \<le> 0xBF
      else if b = 0xED then 0x80 \<le> b1 \<and> b1 \<le> 0x9F
      else if b = 0xF0 then 0x90 \<le> b1 \<and> b1 \<le> 0xBF
      else if b = 0xF4 then 0x80 \<le> b1 \<and> b1 \<le> 0x8F
      else is_cont b1)"

definition cbits :: "byte \<Rightarrow> nat" where
  "cbits b = unat b - 0x80"

text \<open>
  One step of the decoder on a lead byte and what follows it: the character (\<^term>\<open>None\<close> for an
  invalid sequence) and the number of following bytes that belong to it, for an invalid one the
  length of the maximal prefix of a valid sequence, as the lossy decoder replaces it.
\<close>

definition utf8_step :: "byte \<Rightarrow> byte list \<Rightarrow> uchar option \<times> nat" where
  "utf8_step b bs =
     (if b < 0x80 then (Some (unat b), 0)
      else if 0xC2 \<le> b \<and> b \<le> 0xDF then
        (case bs of [] \<Rightarrow> (None, 0)
         | b1 # _ \<Rightarrow> if is_cont b1 then (Some ((unat b - 0xC0) * 64 + cbits b1), 1) else (None, 0))
      else if 0xE0 \<le> b \<and> b \<le> 0xEF then
        (case bs of [] \<Rightarrow> (None, 0)
         | b1 # bs1 \<Rightarrow> if \<not> second_ok b b1 then (None, 0) else
             (case bs1 of [] \<Rightarrow> (None, 1)
              | b2 # _ \<Rightarrow> if is_cont b2
                  then (Some ((unat b - 0xE0) * 4096 + cbits b1 * 64 + cbits b2), 2)
                  else (None, 1)))
      else if 0xF0 \<le> b \<and> b \<le> 0xF4 then
        (case bs of [] \<Rightarrow> (None, 0)
         | b1 # bs1 \<Rightarrow> if \<not> second_ok b b1 then (None, 0) else
             (case bs1 of [] \<Rightarrow> (None, 1)
              | b2 # bs2 \<Rightarrow> if \<not> is_cont b2 then (None, 1) else
                  (case bs2 of [] \<Rightarrow> (None, 2)
                   | b3 # _ \<Rightarrow> if is_cont b3
                       then (Some ((unat b - 0xF0) * 262144 + cbits b1 * 4096
                                    + cbits b2 * 64 + cbits b3), 3)
                       else (None, 2))))
      else (None, 0))"

definition replacement_char :: uchar where
  "replacement_char = 0xFFFD"

fun from_utf8_lossy :: "byte list \<Rightarrow> ustr" where
  "from_utf8_lossy [] = []"
| "from_utf8_lossy (b # bs) =
     (case fst (utf8_step b bs) of Some c \<Rightarrow> c | None \<Rightarrow> replacement_char)
     # from_utf8_lossy (drop (snd (utf8_step b bs)) bs)"

lemma unat_byte_of [simp]: "n < 256 \<Longrightarrow> unat (byte_of n) = n"
  by (simp add: byte_of_def unat_of_nat)

lemmas byte_order = word_le_nat_alt word_less_nat_alt word_unat_eq_iff

lemmas utf8_defs = utf8_char_def utf8_step_def is_cont_def cbits_def second_ok_def byte_order

text \<open>The decoder undoes the encoder, one lemma per length of the encoding.\<close>

lemma utf8_step_1: "c < 0x80 \<Longrightarrow> utf8_step (byte_of c) rest = (Some c, 0)"
  by (simp add: utf8_defs)

lemma utf8_step_2:
  assumes "0x80 \<le> c" and "c < 0x800"
  shows "utf8_step (byte_of (0xC0 + c div 64)) (byte_of (0x80 + c mod 64) # rest) = (Some c, 1)"
proof -
  have "c div 64 < 32" "2 \<le> c div 64" "c mod 64 < 64" using assms by auto
  then show ?thesis by (simp add: utf8_defs)
qed

lemma cont_byte [simp]: "d < 64 \<Longrightarrow> is_cont (byte_of (0x80 + d))"
  by (simp add: is_cont_def word_le_nat_alt)

lemma cbits_byte [simp]: "d < 64 \<Longrightarrow> cbits (byte_of (0x80 + d)) = d"
  by (simp add: cbits_def)

lemma second_ok_byte:
  assumes "d < 64" and "a < 21"
    and "a = 0 \<Longrightarrow> 32 \<le> d" and "a = 13 \<Longrightarrow> d < 32"
    and "a = 16 \<Longrightarrow> 16 \<le> d" and "a = 20 \<Longrightarrow> d < 16"
  shows "second_ok (byte_of (0xE0 + a)) (byte_of (0x80 + d))"
proof -
  have u: "unat (byte_of (0xE0 + a)) = 0xE0 + a" "unat (byte_of (0x80 + d)) = 0x80 + d"
    using assms by simp_all
  show ?thesis
    unfolding second_ok_def byte_order u is_cont_def
    using assms by (cases "a = 0"; cases "a = 13"; cases "a = 16"; cases "a = 20"; simp)
qed

lemma utf8_step_3_parts:
  assumes "a < 16" and "d < 64" and "e < 64" and "a = 0 \<Longrightarrow> 32 \<le> d" and "a = 13 \<Longrightarrow> d < 32"
  shows "utf8_step (byte_of (0xE0 + a)) (byte_of (0x80 + d) # byte_of (0x80 + e) # rest)
           = (Some (a * 4096 + d * 64 + e), 2)"
proof -
  have u: "unat (byte_of (0xE0 + a)) = 0xE0 + a" using assms by simp
  have ok: "second_ok (byte_of (0xE0 + a)) (byte_of (0x80 + d))"
    by (rule second_ok_byte) (use assms in auto)
  show ?thesis
    using assms ok by (simp add: utf8_step_def byte_order u)
qed

lemma utf8_step_4_parts:
  assumes "a < 5" and "d < 64" and "e < 64" and "f < 64"
    and "a = 0 \<Longrightarrow> 16 \<le> d" and "a = 4 \<Longrightarrow> d < 16"
  shows "utf8_step (byte_of (0xF0 + a))
           (byte_of (0x80 + d) # byte_of (0x80 + e) # byte_of (0x80 + f) # rest)
           = (Some (a * 262144 + d * 4096 + e * 64 + f), 3)"
proof -
  have u: "unat (byte_of (0xF0 + a)) = 0xF0 + a" using assms by simp
  have "second_ok (byte_of (0xE0 + (a + 16))) (byte_of (0x80 + d))"
    by (rule second_ok_byte) (use assms in auto)
  then have ok: "second_ok (byte_of (0xF0 + a)) (byte_of (0x80 + d))"
    by (simp add: algebra_simps)
  show ?thesis
    using assms ok by (simp add: utf8_step_def byte_order u)
qed

text \<open>The digits of a code point in base 64.\<close>

lemma base64_digits:
  fixes c :: nat
  shows "c div 4096 * 4096 + c div 64 mod 64 * 64 + c mod 64 = c"
    and "c div 262144 * 262144 + c div 4096 mod 64 * 4096 + c div 64 mod 64 * 64 + c mod 64 = c"
proof -
  have "c div 4096 = c div 64 div 64" "c div 262144 = c div 4096 div 64"
    by (simp_all flip: div_mult2_eq)
  moreover have "c = c div 64 * 64 + c mod 64"
    and "c div 64 = c div 64 div 64 * 64 + c div 64 mod 64"
    and "c div 4096 = c div 4096 div 64 * 64 + c div 4096 mod 64"
    by simp_all
  ultimately show "c div 4096 * 4096 + c div 64 mod 64 * 64 + c mod 64 = c"
    and "c div 262144 * 262144 + c div 4096 mod 64 * 4096 + c div 64 mod 64 * 64 + c mod 64 = c"
    by linarith+
qed

lemma utf8_step_3:
  assumes "0x800 \<le> c" and "c < 0x10000" and "is_scalar c"
  shows "utf8_step (byte_of (0xE0 + c div 4096))
           (byte_of (0x80 + c div 64 mod 64) # byte_of (0x80 + c mod 64) # rest) = (Some c, 2)"
proof -
  note v = base64_digits(1) [of c]
  have e: "c mod 64 < 64" by simp
  have "c div 4096 = 0 \<Longrightarrow> 32 \<le> c div 64 mod 64" using assms(1) v e by linarith
  moreover have "c div 4096 = 13 \<Longrightarrow> c div 64 mod 64 < 32"
    using assms(3) v unfolding is_scalar_def by linarith
  ultimately show ?thesis
    using assms(2) utf8_step_3_parts [of "c div 4096" "c div 64 mod 64" "c mod 64" rest]
    unfolding v by simp
qed

lemma utf8_step_4:
  assumes "0x10000 \<le> c" and "c < 0x110000"
  shows "utf8_step (byte_of (0xF0 + c div 262144))
           (byte_of (0x80 + c div 4096 mod 64) # byte_of (0x80 + c div 64 mod 64)
            # byte_of (0x80 + c mod 64) # rest) = (Some c, 3)"
proof -
  note v = base64_digits(2) [of c]
  have e: "c mod 64 < 64" "c div 64 mod 64 < 64" by simp_all
  have "c div 262144 = 0 \<Longrightarrow> 16 \<le> c div 4096 mod 64" using assms(1) v e by linarith
  moreover have "c div 262144 = 4 \<Longrightarrow> c div 4096 mod 64 < 16" using assms(2) v by linarith
  ultimately show ?thesis
    using assms(2) utf8_step_4_parts [of "c div 262144" "c div 4096 mod 64" "c div 64 mod 64" "c mod 64" rest]
    unfolding v by simp
qed

lemma scalar_cases:
  assumes "is_scalar c"
  obtains "c < 0x80" | "0x80 \<le> c" "c < 0x800" | "0x800 \<le> c" "c < 0x10000"
    | "0x10000 \<le> c" "c < 0x110000"
  using assms unfolding is_scalar_def by linarith

lemma utf8_step_char:
  assumes "is_scalar c"
  shows "\<exists>b bs. utf8_char c = b # bs \<and> utf8_step b (bs @ rest) = (Some c, length bs)"
  using assms
  by (rule scalar_cases)
    (simp_all add: utf8_char_def utf8_step_1 utf8_step_2 [simplified] utf8_step_3 [simplified]
      utf8_step_4 [simplified] assms)

lemma as_bytes_simps [simp]:
  "as_bytes [] = []"
  "as_bytes (c # s) = utf8_char c @ as_bytes s"
  by (simp_all add: as_bytes_def)

lemma from_utf8_lossy_as_bytes:
  assumes "\<forall>c \<in> set s. is_scalar c"
  shows "from_utf8_lossy (as_bytes s) = s"
  using assms
proof (induction s)
  case Nil
  then show ?case by simp
next
  case (Cons c s)
  then have "is_scalar c" by simp
  from utf8_step_char [OF this, of "as_bytes s"] obtain b bs where
    "utf8_char c = b # bs" "utf8_step b (bs @ as_bytes s) = (Some c, length bs)" by blast
  then show ?case using Cons by simp
qed

text \<open>Lossy decoding gives scalar values only.\<close>

lemma utf8_step_scalar: "fst (utf8_step b bs) = Some c \<Longrightarrow> is_scalar c"
proof -
  assume s: "fst (utf8_step b bs) = Some c"
  consider (one) "unat b < 0x80" "c = unat b"
    | (two) b1 where "unat b \<le> 0xDF" "unat b1 \<le> 0xBF" "c = (unat b - 0xC0) * 64 + cbits b1"
    | (three) b1 b2 where "0xE0 \<le> unat b" "unat b \<le> 0xEF" "second_ok b b1" "unat b2 \<le> 0xBF"
        "c = (unat b - 0xE0) * 4096 + cbits b1 * 64 + cbits b2"
    | (four) b1 b2 b3 where "0xF0 \<le> unat b" "unat b \<le> 0xF4" "second_ok b b1" "unat b2 \<le> 0xBF" "unat b3 \<le> 0xBF"
        "c = (unat b - 0xF0) * 262144 + cbits b1 * 4096 + cbits b2 * 64 + cbits b3"
    using s by (auto simp: utf8_step_def is_cont_def byte_order split: if_splits list.splits)
  then show ?thesis
  proof cases
    case three
    then show ?thesis
      by (cases "unat b = 0xED"; cases "unat b = 0xE0"; cases "unat b < 0xED")
        (auto simp: second_ok_def is_cont_def byte_order is_scalar_def cbits_def)
  next
    case four
    then consider "unat b = 0xF0" | "unat b = 0xF4" | "unat b = 0xF1" | "unat b = 0xF2" | "unat b = 0xF3" by linarith
    then show ?thesis
      by cases (use four in \<open>auto simp: second_ok_def is_cont_def byte_order is_scalar_def cbits_def\<close>)
  qed (auto simp: is_scalar_def cbits_def)
qed

lemma from_utf8_lossy_scalar: "c \<in> set (from_utf8_lossy bs) \<Longrightarrow> is_scalar c"
proof (induction bs rule: from_utf8_lossy.induct)
  case (2 b bs)
  then show ?case
    by (auto simp: is_scalar_def replacement_char_def dest: utf8_step_scalar split: option.splits)
qed simp

text \<open>ASCII text is its own encoding.\<close>

lemma as_bytes_ascii: "\<forall>c \<in> set s. is_ascii c \<Longrightarrow> as_bytes s = map byte_of s"
  by (induction s) (auto simp: utf8_char_def is_ascii_def)

lemma str_len_simps [simp]:
  "str_len [] = 0"
  "str_len (c # s) = length (utf8_char c) + str_len s"
  by (simp_all add: str_len_def)

lemma utf8_char_nonempty [simp]: "utf8_char c \<noteq> []"
  by (simp add: utf8_char_def)

lemma length_utf8_char: "0 < length (utf8_char c) \<and> length (utf8_char c) \<le> 4"
  by (simp add: utf8_char_def)

lemma length_le_str_len: "length s \<le> str_len s"
proof (induction s)
  case (Cons c s)
  have "1 \<le> length (utf8_char c)" using length_utf8_char [of c] by linarith
  with Cons show ?case by simp
qed simp

text \<open>The bytes of an encoding, each read as a character of its own.\<close>

abbreviation byte_chars :: "byte list \<Rightarrow> ustr" where
  "byte_chars bs \<equiv> map unat bs"

lemma utf8_char_high:
  assumes "\<not> is_ascii c" and "is_scalar c" and "b \<in> set (utf8_char c)"
  shows "\<not> is_ascii (unat b)"
  using assms by (auto simp: utf8_char_def is_ascii_def is_scalar_def split: if_splits)

lemma utf8_char_long: "\<not> is_ascii c \<Longrightarrow> 2 \<le> length (utf8_char c)"
  by (simp add: utf8_char_def is_ascii_def)

lemma utf8_char_ascii: "is_ascii c \<Longrightarrow> byte_chars (utf8_char c) = [c]"
  by (simp add: utf8_char_def is_ascii_def)

lemma byte_chars_ascii: "\<forall>c \<in> set s. is_ascii c \<Longrightarrow> byte_chars (as_bytes s) = s"
  by (induction s) (simp_all add: utf8_char_ascii)

lemma byte_chars_same_iff: "byte_chars (as_bytes s) = s \<longleftrightarrow> (\<forall>c \<in> set s. is_ascii c)"
proof
  show "byte_chars (as_bytes s) = s \<Longrightarrow> \<forall>c \<in> set s. is_ascii c"
  proof (induction s)
    case (Cons c s)
    have "length (utf8_char c) + length (as_bytes s) = Suc (length s)"
      using arg_cong [OF Cons.prems, of length] by simp
    with length_le_str_len [of s, unfolded str_len_def] utf8_char_long [of c] have "is_ascii c" by fastforce
    with Cons show ?case by (simp add: utf8_char_ascii)
  qed simp
qed (rule byte_chars_ascii)

text \<open>An ASCII text stands in a text exactly where it stands in the bytes of its encoding.\<close>

lemma prefix_byte_chars:
  "\<forall>c \<in> set s. is_scalar c \<Longrightarrow> \<forall>c \<in> set w. is_ascii c \<Longrightarrow> prefix w (byte_chars (as_bytes s)) \<Longrightarrow> prefix w s"
proof (induction s arbitrary: w)
  case (Cons c s)
  show ?case
  proof (cases w)
    case w: (Cons x w')
    show ?thesis
    proof (cases "is_ascii c")
      case True
      with w Cons show ?thesis by (simp add: utf8_char_ascii)
    next
      case False
      obtain b bs where b: "utf8_char c = b # bs" using utf8_char_nonempty [of c] by (cases "utf8_char c") auto
      have "\<not> is_ascii (unat b)" using utf8_char_high [OF False] Cons.prems(1) b by simp
      with w b Cons.prems(2,3) show ?thesis by auto
    qed
  qed simp
qed simp

lemma sublist_high:
  "sublist w (bs @ t) \<Longrightarrow> \<forall>c \<in> set w. is_ascii c \<Longrightarrow> w \<noteq> [] \<Longrightarrow> \<forall>b \<in> set bs. \<not> is_ascii b \<Longrightarrow> sublist w t"
  by (induction bs) (auto simp: sublist_Cons_right prefix_Cons)

lemma sublist_byte_chars:
  assumes "\<forall>c \<in> set s. is_scalar c" and "\<forall>c \<in> set w. is_ascii c"
  shows "sublist w (byte_chars (as_bytes s)) \<longleftrightarrow> sublist w s"
proof
  assume "sublist w s"
  then obtain a b where s: "s = a @ w @ b" by (auto simp: sublist_def)
  show "sublist w (byte_chars (as_bytes s))"
    unfolding s sublist_def using byte_chars_ascii [OF assms(2)]
    by (intro exI [of _ "byte_chars (as_bytes a)"] exI [of _ "byte_chars (as_bytes b)"]) (simp add: as_bytes_def)
next
  show "sublist w (byte_chars (as_bytes s)) \<Longrightarrow> sublist w s"
    using assms(1)
  proof (induction s)
    case (Cons c s)
    show ?case
    proof (cases "is_ascii c")
      case True
      then have "prefix w (c # byte_chars (as_bytes s)) \<or> sublist w (byte_chars (as_bytes s))"
        using Cons.prems(1) by (simp add: utf8_char_ascii sublist_Cons_right)
      with True Cons prefix_byte_chars [OF Cons.prems(2) assms(2)] show ?thesis
        by (auto simp: utf8_char_ascii sublist_Cons_right)
    next
      case False
      have "\<forall>b \<in> set (byte_chars (utf8_char c)). \<not> is_ascii b"
        using utf8_char_high [OF False] Cons.prems(2) by auto
      with sublist_high [of w "byte_chars (utf8_char c)"] Cons assms(2) show ?thesis
        by (cases "w = []") (auto simp: sublist_Cons_right)
    qed
  qed simp
qed

section \<open>Operations on strings\<close>

text \<open>\<open>contains\<close>: the needle occurs somewhere.\<close>

fun contains :: "'a list \<Rightarrow> 'a list \<Rightarrow> bool" where
  "contains [] p = (p = [])"
| "contains (c # s) p = (prefix p (c # s) \<or> contains s p)"

lemma contains_iff_sublist: "contains s p \<longleftrightarrow> sublist p s"
  by (induction s) (auto simp: sublist_Cons_right)

lemma containsI: "contains (u @ p @ v) p"
  by (simp add: contains_iff_sublist)

lemma contains_iff: "contains s p \<longleftrightarrow> (\<exists>u v. s = u @ p @ v)"
  by (simp add: contains_iff_sublist sublist_def)

text \<open>
  \<open>split(c)\<close>: the pieces between the separators. A string without the separator is one
  piece, so the result is never empty and \<open>split(c).next()\<close> always gives the first one.
\<close>

fun split_on :: "'a \<Rightarrow> 'a list \<Rightarrow> 'a list list" where
  "split_on x [] = [[]]"
| "split_on x (c # s) =
     (if c = x then [] # split_on x s
      else (c # hd (split_on x s)) # tl (split_on x s))"

lemma split_on_nonempty [simp]: "split_on x s \<noteq> []"
  by (cases s) auto

fun join_with :: "'a \<Rightarrow> 'a list list \<Rightarrow> 'a list" where
  "join_with x [] = []"
| "join_with x [p] = p"
| "join_with x (p # ps) = p @ x # join_with x ps"

lemma join_with_cons: "ps \<noteq> [] \<Longrightarrow> join_with x (p # ps) = p @ x # join_with x ps"
  by (cases ps) auto

lemma join_split: "join_with x (split_on x s) = s"
proof (induction s)
  case (Cons c s)
  show ?case
  proof (cases "split_on x s")
    case Nil
    then show ?thesis by simp
  next
    case (Cons p ps)
    then show ?thesis using Cons.IH by (cases ps) auto
  qed
qed simp

lemma split_on_pieces: "p \<in> set (split_on x s) \<Longrightarrow> x \<notin> set p"
proof (induction s arbitrary: p)
  case (Cons c s)
  then show ?case
    by (cases "split_on x s") (auto split: if_splits)
qed simp

lemma split_on_no_sep: "x \<notin> set p \<Longrightarrow> split_on x p = [p]"
  by (induction p) auto

lemma split_on_append: "x \<notin> set p \<Longrightarrow> split_on x (p @ x # s) = p # split_on x s"
  by (induction p) auto

lemma split_join:
  assumes "ps \<noteq> []" and "\<forall>p \<in> set ps. x \<notin> set p"
  shows "split_on x (join_with x ps) = ps"
  using assms
  by (induction x ps rule: join_with.induct) (auto simp: split_on_no_sep split_on_append)

lemma hd_split_on: "hd (split_on x s) = takeWhile (\<lambda>c. c \<noteq> x) s"
  by (induction s) auto

text \<open>\<open>to_ascii_lowercase\<close> and comparison up to ASCII case.\<close>

definition to_ascii_lowercase :: "ustr \<Rightarrow> ustr" where
  "to_ascii_lowercase s = map ascii_lower s"

text \<open>A pattern occurs up to the case of ASCII letters.\<close>

definition occurs_nocase :: "ustr \<Rightarrow> ustr \<Rightarrow> bool" where
  "occurs_nocase p s \<longleftrightarrow> contains (to_ascii_lowercase s) (to_ascii_lowercase p)"

lemma occurs_nocaseI: "map ascii_lower w = map ascii_lower p \<Longrightarrow> occurs_nocase p (a @ w @ b)"
  by (simp add: occurs_nocase_def to_ascii_lowercase_def containsI)

lemma occurs_nocase_iff:
  "occurs_nocase p s \<longleftrightarrow> (\<exists>a w b. s = a @ w @ b \<and> map ascii_lower w = map ascii_lower p)"
proof
  assume "occurs_nocase p s"
  then obtain a b where "map ascii_lower s = a @ map ascii_lower p @ b"
    by (auto simp: occurs_nocase_def to_ascii_lowercase_def contains_iff)
  then show "\<exists>a w b. s = a @ w @ b \<and> map ascii_lower w = map ascii_lower p"
    by (auto simp: map_eq_append_conv append_eq_map_conv) metis
qed (auto simp: occurs_nocaseI)

section \<open>Unicode tables\<close>

record unicode =
  u_alphanumeric :: "uchar \<Rightarrow> bool"  \<comment> \<open>\<open>char::is_alphanumeric\<close>\<close>
  u_digit :: "uchar \<Rightarrow> bool"         \<comment> \<open>category Nd, the class \<open>\d\<close> of the regex crate\<close>
  u_word :: "uchar \<Rightarrow> bool"          \<comment> \<open>the class \<open>\w\<close>, used by the boundary \<open>\b\<close>\<close>
  u_lowercase :: "ustr \<Rightarrow> ustr"      \<comment> \<open>\<open>str::to_lowercase\<close>\<close>

locale unicode_tables =
  fixes u :: unicode
  assumes alphanumeric_ascii: "is_ascii c \<Longrightarrow> u_alphanumeric u c \<longleftrightarrow> is_ascii_alphanumeric c"
    and digit_ascii: "is_ascii c \<Longrightarrow> u_digit u c \<longleftrightarrow> is_ascii_digit c"
    and word_ascii: "is_ascii c \<Longrightarrow> u_word u c \<longleftrightarrow> is_ascii_alphanumeric c \<or> c = 95"
    and digit_word: "u_digit u c \<Longrightarrow> u_word u c"
    and lowercase_ascii: "\<forall>c \<in> set s. is_ascii c \<Longrightarrow> u_lowercase u s = map ascii_lower s"

text \<open>
  The tables restricted to ASCII, for evaluation: every other character is of no class and is
  its own lower case.
\<close>

definition ascii_tables :: unicode where
  "ascii_tables =
     \<lparr>u_alphanumeric = is_ascii_alphanumeric, u_digit = is_ascii_digit,
      u_word = (\<lambda>c. is_ascii_alphanumeric c \<or> c = 95), u_lowercase = map ascii_lower\<rparr>"

lemma ascii_tables_simps [simp]:
  "u_alphanumeric ascii_tables = is_ascii_alphanumeric"
  "u_digit ascii_tables = is_ascii_digit"
  "u_word ascii_tables = (\<lambda>c. is_ascii_alphanumeric c \<or> c = 95)"
  "u_lowercase ascii_tables = map ascii_lower"
  by (simp_all add: ascii_tables_def)

interpretation ascii_uc: unicode_tables ascii_tables
  by unfold_locales (simp_all add: is_ascii_alphanumeric_def)

section \<open>Numbers in text\<close>

text \<open>\<open>char::to_digit(radix)\<close> for a radix up to 16.\<close>

definition to_digit :: "nat \<Rightarrow> uchar \<Rightarrow> nat option" where
  "to_digit radix c =
     (let d = (if is_ascii_digit c then Some (c - 48)
               else if 97 \<le> c \<and> c \<le> 122 then Some (c - 87)
               else if 65 \<le> c \<and> c \<le> 90 then Some (c - 55)
               else None)
      in case d of None \<Rightarrow> None | Some n \<Rightarrow> if n < radix then Some n else None)"

text \<open>
  \<open>u8::from_str_radix(s, 16)\<close>: an optional leading plus sign, then at least one digit,
  and a value that fits in a byte. A lone sign is an error. (A leading minus sign is not a digit
  and so an error for an unsigned type.)
\<close>

fun digits_value :: "nat \<Rightarrow> nat \<Rightarrow> ustr \<Rightarrow> nat option" where
  "digits_value radix acc [] = Some acc"
| "digits_value radix acc (c # s) =
     (case to_digit radix c of None \<Rightarrow> None
      | Some d \<Rightarrow> if acc * radix + d < 256 then digits_value radix (acc * radix + d) s else None)"

definition u8_from_str_radix :: "nat \<Rightarrow> ustr \<Rightarrow> nat option" where
  "u8_from_str_radix radix s =
     (case s of [] \<Rightarrow> None
      | c # s' \<Rightarrow>
          if c = 43 then (if s' = [] then None else digits_value radix 0 s')
          else digits_value radix 0 s)"

lemma digits_value_bound: "digits_value radix acc s = Some n \<Longrightarrow> acc < 256 \<Longrightarrow> n < 256"
  by (induction radix acc s rule: digits_value.induct) (auto split: option.splits if_splits)

lemma u8_from_str_radix_bound: "u8_from_str_radix radix s = Some n \<Longrightarrow> n < 256"
  by (auto simp: u8_from_str_radix_def simp del: digits_value.simps
      split: list.splits if_splits dest: digits_value_bound)

end
