(* ===== verification/Regex.thy ===== *)
theory Regex
  imports Rust_Text
begin

text \<open>
  Regular expressions as the firewall writes them. The expressions of the source are terms of the
  type \<open>rx\<close>; what it means for one to match is the relation \<open>rx_match\<close>. The regex crate
  itself is not part of the repository: the two operations the program calls
  (\<open>RegexSet::is_match\<close> and the iteration over the matches behind
  \<open>Regex::replace_all\<close>) are a parameter, the record \<open>rx_engine\<close>, with their documented
  behaviour as the locale \<open>regex_engine\<close>. An executable matcher that follows the priority
  order of a backtracking engine is defined and proved to implement the relation; it is the
  instance of the contract on which witnesses are evaluated.

  An expression is matched against characters or, for the byte-level set, against the bytes of
  their encoding. The difference is a decoder that takes the next character off the input.
\<close>

section \<open>Syntax\<close>

datatype cls = Ranges "(uchar \<times> uchar) list" | Digit_cls

datatype rx =
    Eps
  | Cls cls
  | Seq rx rx
  | Alt rx rx
  | Star bool rx   \<comment> \<open>greedy or lazy\<close>
  | WordB

fun cls_has :: "unicode \<Rightarrow> cls \<Rightarrow> uchar \<Rightarrow> bool" where
  "cls_has u (Ranges rs) c = list_ex (\<lambda>(lo, hi). lo \<le> c \<and> c \<le> hi) rs"
| "cls_has u Digit_cls c = u_digit u c"

definition chr :: "uchar \<Rightarrow> rx" where
  "chr c = Cls (Ranges [(c, c)])"

text \<open>
  A letter under the flag \<open>(?i)\<close>: both cases, and the two other characters that fold to
  ASCII letters, the long s and the Kelvin sign.
\<close>

definition chr_i :: "uchar \<Rightarrow> rx" where
  "chr_i c =
     (if is_ascii_lower c
      then Cls (Ranges ([(c, c), (c - 32, c - 32)] @ (if c = 115 then [(0x17F, 0x17F)] else [])
                        @ (if c = 107 then [(0x212A, 0x212A)] else [])))
      else if is_ascii_upper c
      then Cls (Ranges ([(c, c), (c + 32, c + 32)] @ (if c = 83 then [(0x17F, 0x17F)] else [])
                        @ (if c = 75 then [(0x212A, 0x212A)] else [])))
      else chr c)"

fun seq_of :: "rx list \<Rightarrow> rx" where
  "seq_of [] = Eps"
| "seq_of [r] = r"
| "seq_of (r # rs) = Seq r (seq_of rs)"

fun alt_of :: "rx list \<Rightarrow> rx" where
  "alt_of [] = Cls (Ranges [])"
| "alt_of [r] = r"
| "alt_of (r # rs) = Alt r (alt_of rs)"

text \<open>A literal word, under \<open>(?i)\<close> or exact.\<close>

definition word_i :: "string \<Rightarrow> rx" where
  "word_i s = seq_of (map chr_i (lit s))"

definition many :: "rx \<Rightarrow> rx" where
  "many r = Star True r"

definition many_lazy :: "rx \<Rightarrow> rx" where
  "many_lazy r = Star False r"

definition some1 :: "rx \<Rightarrow> rx" where
  "some1 r = Seq r (Star True r)"

text \<open>\<open>\s\<close> (Unicode white space) and the dot (any character but the line feed).\<close>

definition space_rx :: rx where
  "space_rx = Cls (Ranges [(9, 13), (0x20, 0x20), (0x85, 0x85), (0xA0, 0xA0), (0x1680, 0x1680),
     (0x2000, 0x200A), (0x2028, 0x2029), (0x202F, 0x202F), (0x205F, 0x205F), (0x3000, 0x3000)])"

definition dot_rx :: rx where
  "dot_rx = Cls (Ranges [(0, 9), (11, 0x10FFFF)])"

text \<open>\<open>r{n}\<close>, and \<open>r{0,n}\<close> which prefers more.\<close>

fun copies :: "nat \<Rightarrow> rx \<Rightarrow> rx" where
  "copies 0 r = Eps"
| "copies (Suc n) r = Seq r (copies n r)"

fun upto_copies :: "nat \<Rightarrow> rx \<Rightarrow> rx" where
  "upto_copies 0 r = Eps"
| "upto_copies (Suc n) r = Alt (Seq r (upto_copies n r)) Eps"

definition between :: "nat \<Rightarrow> nat \<Rightarrow> rx \<Rightarrow> rx" where
  "between lo hi r = Seq (copies lo r) (upto_copies (hi - lo) r)"

definition at_least :: "nat \<Rightarrow> rx \<Rightarrow> rx" where
  "at_least n r = Seq (copies n r) (Star True r)"

section \<open>Matching\<close>

text \<open>A position: the character before it, if any, and the input from it on.\<close>

type_synonym 'a pos = "uchar option \<times> 'a list"

type_synonym 'a decoder = "'a list \<Rightarrow> (uchar \<times> 'a list) option"

definition word_opt :: "unicode \<Rightarrow> uchar option \<Rightarrow> bool" where
  "word_opt u c = (case c of None \<Rightarrow> False | Some c \<Rightarrow> u_word u c)"

definition at_boundary :: "unicode \<Rightarrow> 'a decoder \<Rightarrow> 'a pos \<Rightarrow> bool" where
  "at_boundary u dec x \<longleftrightarrow> word_opt u (fst x) \<noteq> word_opt u (map_option fst (dec (snd x)))"

inductive rx_match :: "unicode \<Rightarrow> 'a decoder \<Rightarrow> rx \<Rightarrow> 'a pos \<Rightarrow> 'a pos \<Rightarrow> bool" for u dec where
  m_eps: "rx_match u dec Eps x x"
| m_cls: "dec s = Some (c, s') \<Longrightarrow> cls_has u k c \<Longrightarrow> rx_match u dec (Cls k) (p, s) (Some c, s')"
| m_seq: "rx_match u dec r1 x y \<Longrightarrow> rx_match u dec r2 y z \<Longrightarrow> rx_match u dec (Seq r1 r2) x z"
| m_alt1: "rx_match u dec r1 x y \<Longrightarrow> rx_match u dec (Alt r1 r2) x y"
| m_alt2: "rx_match u dec r2 x y \<Longrightarrow> rx_match u dec (Alt r1 r2) x y"
| m_star0: "rx_match u dec (Star g r) x x"
| m_star: "rx_match u dec r x y \<Longrightarrow> rx_match u dec (Star g r) y z \<Longrightarrow> rx_match u dec (Star g r) x z"
| m_wordb: "at_boundary u dec x \<Longrightarrow> rx_match u dec WordB x x"

inductive_simps rx_match_simps [simp]:
  "rx_match u dec Eps x y"
  "rx_match u dec (Cls k) x y"
  "rx_match u dec (Seq r1 r2) x y"
  "rx_match u dec (Alt r1 r2) x y"
  "rx_match u dec WordB x y"

declare rx_match.m_star0 [simp]

text \<open>The decoders: a character of a string, and a character of well-formed UTF-8.\<close>

fun dec_char :: "uchar decoder" where
  "dec_char [] = None"
| "dec_char (c # s) = Some (c, s)"

fun dec_utf8 :: "byte decoder" where
  "dec_utf8 [] = None"
| "dec_utf8 (b # bs) =
     (case utf8_step b bs of
        (Some c, n) \<Rightarrow> Some (c, drop n bs)
      | (None, n) \<Rightarrow> None)"

section \<open>An executable matcher\<close>

text \<open>
  All ends of matches from a position, in the order in which a backtracking engine tries them. An
  iteration of a star that consumes nothing is not repeated.
\<close>

function star_ends :: "('a pos \<Rightarrow> 'a pos list) \<Rightarrow> bool \<Rightarrow> 'a pos \<Rightarrow> 'a pos list" where
  "star_ends step g x =
     (let more = concat (map (star_ends step g)
                          (filter (\<lambda>y. length (snd y) < length (snd x)) (step x)))
      in if g then more @ [x] else x # more)"
  by pat_completeness auto
termination
  by (relation "measure (\<lambda>(step, g, x). length (snd x))") auto

declare star_ends.simps [simp del]

fun rx_ends :: "unicode \<Rightarrow> 'a decoder \<Rightarrow> rx \<Rightarrow> 'a pos \<Rightarrow> 'a pos list" where
  "rx_ends u dec Eps x = [x]"
| "rx_ends u dec (Cls k) x =
     (case dec (snd x) of
        None \<Rightarrow> []
      | Some (c, s') \<Rightarrow> if cls_has u k c then [(Some c, s')] else [])"
| "rx_ends u dec (Seq r1 r2) x = concat (map (rx_ends u dec r2) (rx_ends u dec r1 x))"
| "rx_ends u dec (Alt r1 r2) x = rx_ends u dec r1 x @ rx_ends u dec r2 x"
| "rx_ends u dec (Star g r) x = star_ends (rx_ends u dec r) g x"
| "rx_ends u dec WordB x = (if at_boundary u dec x then [x] else [])"

lemma star_ends_mem:
  "y \<in> set (star_ends step g x) \<longleftrightarrow>
     y = x \<or> (\<exists>z \<in> set (step x). length (snd z) < length (snd x) \<and> y \<in> set (star_ends step g z))"
  by (subst star_ends.simps) (auto simp: Let_def)

text \<open>What the matcher needs of a decoder: it consumes input.\<close>

locale symbol_decoder =
  fixes dec :: "'a decoder"
  assumes dec_progress: "dec s = Some (c, s') \<Longrightarrow> length s' < length s"
begin

lemma match_shorter:
  "rx_match u dec r x y \<Longrightarrow> y = x \<or> length (snd y) < length (snd x)"
  by (induction rule: rx_match.induct) (auto dest: dec_progress)

lemma star_ends_sound:
  assumes "\<And>x y. y \<in> set (step x) \<Longrightarrow> rx_match u dec r x y"
  shows "y \<in> set (star_ends step g x) \<Longrightarrow> rx_match u dec (Star g r) x y"
proof (induction "length (snd x)" arbitrary: x rule: less_induct)
  case less
  from less.prems consider "y = x" | z where "z \<in> set (step x)" "length (snd z) < length (snd x)"
    "y \<in> set (star_ends step g z)"
    unfolding star_ends_mem [of y step g x] by blast
  then show ?case
    by cases (auto intro: rx_match.m_star less.hyps assms)
qed

lemma star_ends_complete:
  assumes "\<And>x y. rx_match u dec r x y \<Longrightarrow> y \<in> set (step x)"
    and "rx_match u dec (Star g r) x y"
  shows "y \<in> set (star_ends step g x)"
  using assms(2)
proof (induction "Star g r" x y rule: rx_match.induct)
  case (m_star0 x)
  then show ?case using star_ends_mem [of x step g x] by blast
next
  case (m_star x y z)
  from match_shorter [OF m_star.hyps(1)] show ?case
  proof
    assume "y = x"
    with m_star show ?thesis by simp
  next
    assume "length (snd y) < length (snd x)"
    with assms(1) [OF m_star.hyps(1)] m_star.hyps(4) show ?thesis
      using star_ends_mem [of z step g x] by blast
  qed
qed

theorem rx_ends_iff: "y \<in> set (rx_ends u dec r x) \<longleftrightarrow> rx_match u dec r x y"
proof (induction r arbitrary: x y)
  case (Cls k)
  then show ?case by (cases x) (auto split: option.splits)
next
  case (Star g r)
  show ?case
    using star_ends_sound [of "rx_ends u dec r" u r y g x]
      star_ends_complete [of u r "rx_ends u dec r" g x y] Star
    unfolding rx_ends.simps by blast
next
  case (Seq r1 r2)
  have "y \<in> set (rx_ends u dec (Seq r1 r2) x)
      \<longleftrightarrow> (\<exists>z. z \<in> set (rx_ends u dec r1 x) \<and> y \<in> set (rx_ends u dec r2 z))"
    by (auto simp only: rx_ends.simps set_concat set_map)
  then show ?case by (simp only: Seq.IH rx_match_simps split_paired_Ex)
qed auto

end

interpretation chars: symbol_decoder dec_char
proof
  fix s s' :: ustr and c
  show "dec_char s = Some (c, s') \<Longrightarrow> length s' < length s" by (cases s) auto
qed

interpretation utf8: symbol_decoder dec_utf8
proof
  fix s s' :: "byte list" and c
  show "dec_utf8 s = Some (c, s') \<Longrightarrow> length s' < length s"
    by (cases s) (auto split: prod.splits option.splits)
qed

section \<open>Searching\<close>

text \<open>An expression without word boundaries matches somewhere in the input.\<close>

definition rx_occurs :: "unicode \<Rightarrow> 'a decoder \<Rightarrow> rx \<Rightarrow> 'a list \<Rightarrow> bool" where
  "rx_occurs u dec r s \<longleftrightarrow> (\<exists>a b y. s = a @ b \<and> rx_match u dec r (None, b) y)"

fun rx_search :: "unicode \<Rightarrow> 'a decoder \<Rightarrow> rx \<Rightarrow> 'a list \<Rightarrow> bool" where
  "rx_search u dec r [] = (rx_ends u dec r (None, []) \<noteq> [])"
| "rx_search u dec r (c # s) = (rx_ends u dec r (None, c # s) \<noteq> [] \<or> rx_search u dec r s)"

lemma rx_occurs_Cons:
  "rx_occurs u dec r (c # s) \<longleftrightarrow> (\<exists>y. rx_match u dec r (None, c # s) y) \<or> rx_occurs u dec r s"
  by (auto simp: rx_occurs_def Cons_eq_append_conv)

lemma list_nonempty_iff: "xs \<noteq> [] \<longleftrightarrow> (\<exists>x. x \<in> set xs)"
  by (cases xs) auto

context symbol_decoder
begin

lemma rx_search_iff: "rx_search u dec r s \<longleftrightarrow> rx_occurs u dec r s"
proof (induction s)
  case Nil
  show ?case by (simp add: rx_occurs_def list_nonempty_iff rx_ends_iff)
next
  case (Cons c s)
  then show ?case by (simp add: rx_occurs_Cons list_nonempty_iff rx_ends_iff)
qed

end

section \<open>The regex crate\<close>

text \<open>
  \<open>set_is_match\<close> is the byte-level set; \<open>find_iter\<close> splits a string into the successive
  non-overlapping matches, each with the text before it, and the text after the last.
\<close>

record rx_engine =
  set_is_match :: "rx list \<Rightarrow> byte list \<Rightarrow> bool"
  find_iter :: "rx \<Rightarrow> ustr \<Rightarrow> (ustr \<times> ustr) list \<times> ustr"

fun boundary_free :: "rx \<Rightarrow> bool" where
  "boundary_free WordB = False"
| "boundary_free (Seq r1 r2) = (boundary_free r1 \<and> boundary_free r2)"
| "boundary_free (Alt r1 r2) = (boundary_free r1 \<and> boundary_free r2)"
| "boundary_free (Star g r) = boundary_free r"
| "boundary_free _ = True"

definition joined :: "(ustr \<times> ustr) list \<times> ustr \<Rightarrow> ustr" where
  "joined ms = concat (map (\<lambda>(gap, m). gap @ m) (fst ms)) @ snd ms"

definition last_opt :: "'a option \<Rightarrow> 'a list \<Rightarrow> 'a option" where
  "last_opt p s = (if s = [] then p else Some (last s))"

text \<open>
  A correct split from a position: no match starts in a gap or in the final text, and every match
  is one.
\<close>

fun good_split :: "unicode \<Rightarrow> rx \<Rightarrow> uchar option \<Rightarrow> (ustr \<times> ustr) list \<Rightarrow> ustr \<Rightarrow> bool" where
  "good_split u r p [] tl_text \<longleftrightarrow>
     (\<forall>a b y. tl_text = a @ b \<longrightarrow> \<not> rx_match u dec_char r (last_opt p a, b) y)"
| "good_split u r p ((gap, m) # ms) tl_text \<longleftrightarrow>
     (\<forall>a b y. gap = a @ b \<and> b \<noteq> [] \<longrightarrow>
        \<not> rx_match u dec_char r (last_opt p a, b @ m @ joined (ms, tl_text)) y) \<and>
     m \<noteq> [] \<and>
     rx_match u dec_char r (last_opt p gap, m @ joined (ms, tl_text))
       (Some (last m), joined (ms, tl_text)) \<and>
     good_split u r (Some (last m)) ms tl_text"

text \<open>
  The documented behaviour: a set matches if one of its expressions occurs; the iteration yields
  the leftmost matches in turn. The last law is stated for expressions that do not match the
  empty text, which is all the program uses.
\<close>

definition never_empty :: "unicode \<Rightarrow> rx \<Rightarrow> bool" where
  "never_empty u r \<longleftrightarrow> (\<forall>p q s t. rx_match u dec_char r (p, s) (q, t) \<longrightarrow> t \<noteq> s)"

locale regex_engine = unicode_tables u for u +
  fixes E :: rx_engine
  assumes set_is_match_iff: "\<forall>r \<in> set rs. boundary_free r \<Longrightarrow>
          set_is_match E rs bs \<longleftrightarrow> (\<exists>r \<in> set rs. rx_occurs u dec_utf8 r bs)"
    and find_iter_joined: "joined (find_iter E r s) = s"
    and find_iter_good: "never_empty u r \<Longrightarrow>
          good_split u r None (fst (find_iter E r s)) (snd (find_iter E r s))"

section \<open>Matches of strings\<close>

text \<open>A match of a string takes a prefix off it, and the character before the end is its last one.\<close>

lemma char_match_prefix:
  "rx_match u dec_char r x y \<Longrightarrow> \<exists>w. snd x = w @ snd y \<and> fst y = last_opt (fst x) w"
proof (induction rule: rx_match.induct)
  case (m_cls s c s' k p)
  then have "s = [c] @ s'" by (cases s) auto
  then show ?case by (intro exI [of _ "[c]"]) (simp add: last_opt_def)
next
  case (m_seq r1 x y r2 z)
  then obtain v w where "snd x = v @ snd y" "fst y = last_opt (fst x) v" "snd y = w @ snd z"
    "fst z = last_opt (fst y) w" by blast
  then show ?case by (intro exI [of _ "v @ w"]) (simp add: last_opt_def)
next
  case (m_star r x y g z)
  then obtain v w where "snd x = v @ snd y" "fst y = last_opt (fst x) v" "snd y = w @ snd z"
    "fst z = last_opt (fst y) w" by blast
  then show ?case by (intro exI [of _ "v @ w"]) (simp add: last_opt_def)
qed (auto simp: last_opt_def intro: exI [of _ "[]"])

text \<open>
  The reference engine: at every position the first end in priority order, if it is further on.
\<close>

definition match_len :: "unicode \<Rightarrow> rx \<Rightarrow> uchar option \<Rightarrow> ustr \<Rightarrow> nat" where
  "match_len u r p s =
     (case rx_ends u dec_char r (p, s) of [] \<Rightarrow> 0 | y # _ \<Rightarrow> length s - length (snd y))"

function ref_iter ::
  "unicode \<Rightarrow> rx \<Rightarrow> uchar option \<Rightarrow> ustr \<Rightarrow> ustr \<Rightarrow> (ustr \<times> ustr) list \<times> ustr" where
  "ref_iter u r p gap [] = ([], gap)"
| "ref_iter u r p gap (c # s) =
     (let n = match_len u r p (c # s)
      in if n = 0 then ref_iter u r (Some c) (gap @ [c]) s
         else (case ref_iter u r (Some (last (take n (c # s)))) [] (drop n (c # s)) of
                 (ms, rest) \<Rightarrow> ((gap, take n (c # s)) # ms, rest)))"
  by pat_completeness auto
termination
  by (relation "measure (\<lambda>(u, r, p, gap, s). length s)") auto

definition ref_engine :: "unicode \<Rightarrow> rx_engine" where
  "ref_engine u =
     \<lparr>set_is_match = (\<lambda>rs s. list_ex (\<lambda>r. rx_search u dec_utf8 r s) rs),
      find_iter = (\<lambda>r s. ref_iter u r None [] s)\<rparr>"

lemma joined_simps [simp]:
  "joined ([], t) = t"
  "joined ((gap, m) # ms, t) = gap @ m @ joined (ms, t)"
  by (simp_all add: joined_def)

lemma joined_ref_iter: "joined (ref_iter u r p gap s) = gap @ s"
proof (induction u r p gap s rule: ref_iter.induct)
  case (2 u r p gap c s)
  let ?n = "match_len u r p (c # s)"
  show ?case
  proof (cases "?n = 0")
    case False
    obtain ms rest where it: "ref_iter u r (Some (last (take ?n (c # s)))) [] (drop ?n (c # s)) = (ms, rest)"
      by fastforce
    then have "joined (ms, rest) = drop ?n (c # s)" using 2(2) [OF refl False] by simp
    with it False show ?thesis by (simp del: take_Suc_Cons drop_Suc_Cons)
  qed (use 2 in simp)
qed simp

lemma match_len_0:
  assumes "never_empty u r" and "match_len u r p s = 0"
  shows "\<not> rx_match u dec_char r (p, s) y"
proof
  assume m: "rx_match u dec_char r (p, s) y"
  then obtain z zs where z: "rx_ends u dec_char r (p, s) = z # zs"
    using chars.rx_ends_iff [of y u r "(p, s)"] by (cases "rx_ends u dec_char r (p, s)") auto
  then have zm: "rx_match u dec_char r (p, s) z" using chars.rx_ends_iff [of z u r "(p, s)"] by simp
  then have "snd z \<noteq> s" using assms(1) by (cases z) (auto simp: never_empty_def)
  with chars.match_shorter [OF zm] have "length (snd z) < length s" by auto
  with assms(2) z show False by (simp add: match_len_def)
qed

lemma match_len_pos:
  assumes "match_len u r p s \<noteq> 0"
  shows "rx_match u dec_char r (p, s)
      (Some (last (take (match_len u r p s) s)), drop (match_len u r p s) s)"
proof -
  from assms obtain z zs where z: "rx_ends u dec_char r (p, s) = z # zs"
    "match_len u r p s = length s - length (snd z)" by (auto simp: match_len_def split: list.splits)
  then have m: "rx_match u dec_char r (p, s) z" using chars.rx_ends_iff [of z u r "(p, s)"] by simp
  from char_match_prefix [OF m] obtain w where w: "s = w @ snd z" "fst z = last_opt p w" by auto
  with z assms have "match_len u r p s = length w" "w \<noteq> []" by auto
  with m w show ?thesis by (cases z) (simp add: last_opt_def)
qed

definition gap_free :: "unicode \<Rightarrow> rx \<Rightarrow> uchar option \<Rightarrow> ustr \<Rightarrow> ustr \<Rightarrow> bool" where
  "gap_free u r p gap s \<longleftrightarrow>
     (\<forall>a b y. gap = a @ b \<and> b \<noteq> [] \<longrightarrow> \<not> rx_match u dec_char r (last_opt p a, b @ s) y)"

lemma gap_free_Nil [simp]: "gap_free u r p [] s"
  by (simp add: gap_free_def)

lemma gap_free_snoc:
  assumes "gap_free u r p gap (c # s)" and "\<And>y. \<not> rx_match u dec_char r (last_opt p gap, c # s) y"
  shows "gap_free u r p (gap @ [c]) s"
  unfolding gap_free_def
proof (intro allI impI, elim conjE)
  fix a b y
  assume ab: "gap @ [c] = a @ b" "b \<noteq> []"
  then obtain b' where b: "b = b' @ [c]" "gap = a @ b'"
    by (metis append_butlast_last_id append_assoc last_appendR last_snoc butlast_append butlast_snoc)
  show "\<not> rx_match u dec_char r (last_opt p a, b @ s) y"
  proof (cases "b' = []")
    case True
    with assms(2) b show ?thesis by simp
  next
    case False
    then have "\<not> rx_match u dec_char r (last_opt p a, b' @ c # s) y"
      using assms(1) b unfolding gap_free_def by blast
    then show ?thesis using b by simp
  qed
qed

lemma ref_iter_good:
  assumes "never_empty u r" and "gap_free u r p0 gap s" and "p = last_opt p0 gap"
  shows "good_split u r p0 (fst (ref_iter u r p gap s)) (snd (ref_iter u r p gap s))"
  using assms
proof (induction u r p gap s arbitrary: p0 rule: ref_iter.induct)
  case (1 u r p gap)
  have "\<not> rx_match u dec_char r (q, []) y" for q y
    using "1.prems"(1) char_match_prefix [of u r "(q, [])" y]
    by (cases y) (auto simp: never_empty_def)
  with "1.prems"(2) show ?case by (fastforce simp: gap_free_def)
next
  case (2 u r p gap c s)
  let ?n = "match_len u r p (c # s)"
  show ?case
  proof (cases "?n = 0")
    case True
    from match_len_0 [OF "2.prems"(1) True] "2.prems"(2,3)
    have "gap_free u r p0 (gap @ [c]) s" by (intro gap_free_snoc) simp_all
    with "2.IH"(1) [OF refl True "2.prems"(1)] True show ?thesis
      by (simp add: last_opt_def)
  next
    case False
    let ?m = "take ?n (c # s)" and ?t = "drop ?n (c # s)"
    obtain ms rest where it: "ref_iter u r (Some (last ?m)) [] ?t = (ms, rest)" by fastforce
    have j: "joined (ms, rest) = ?t" using joined_ref_iter [of u r "Some (last ?m)" "[]" ?t] it by simp
    have tail: "good_split u r (Some (last ?m)) ms rest"
      using "2.IH"(2) [OF refl False "2.prems"(1), of "Some (last ?m)"] it by (simp add: last_opt_def)
    have ne: "?m \<noteq> []" using False by simp
    have gf: "\<forall>a b y. gap = a @ b \<and> b \<noteq> [] \<longrightarrow>
        \<not> rx_match u dec_char r (last_opt p0 a, b @ ?m @ joined (ms, rest)) y"
      using "2.prems"(2) unfolding j append_take_drop_id gap_free_def .
    have m: "rx_match u dec_char r (last_opt p0 gap, ?m @ joined (ms, rest))
        (Some (last ?m), joined (ms, rest))"
      using match_len_pos [OF False] "2.prems"(3) unfolding j append_take_drop_id by simp
    have "ref_iter u r p gap (c # s) = ((gap, ?m) # ms, rest)"
      using False it by (simp del: take_Suc_Cons drop_Suc_Cons take_Cons' drop_Cons')
    then show ?thesis using ne gf m tail by (simp only: fst_conv snd_conv good_split.simps) blast
  qed
qed

interpretation ascii_rx: regex_engine ascii_tables "ref_engine ascii_tables"
proof
  fix rs and s :: "byte list"
  show "set_is_match (ref_engine ascii_tables) rs s
      \<longleftrightarrow> (\<exists>r \<in> set rs. rx_occurs ascii_tables dec_utf8 r s)"
    by (simp add: ref_engine_def list_ex_iff utf8.rx_search_iff)
next
  fix r s
  show "joined (find_iter (ref_engine ascii_tables) r s) = s"
    by (simp add: ref_engine_def joined_ref_iter)
next
  fix r s
  assume "never_empty ascii_tables r"
  then show "good_split ascii_tables r None (fst (find_iter (ref_engine ascii_tables) r s))
      (snd (find_iter (ref_engine ascii_tables) r s))"
    by (simp add: ref_engine_def ref_iter_good last_opt_def)
qed

end
