(* ===== verification/Languages.thy ===== *)
theory Languages
  imports Regex
begin

text \<open>
  Expressions without word boundaries denote languages: the lemmas here say that a match of such
  an expression takes a word of its language off the input, compute the languages of the forms
  the program writes (words up to case, white space, anything up to a character), and carry
  matches between a text and its UTF-8 encoding in both directions.
\<close>

section \<open>The language of an expression\<close>

inductive star_of :: "(ustr \<Rightarrow> bool) \<Rightarrow> ustr \<Rightarrow> bool" for P where
  star_nil [simp]: "star_of P []"
| star_more: "P v \<Longrightarrow> star_of P w \<Longrightarrow> star_of P (v @ w)"

fun lang :: "unicode \<Rightarrow> rx \<Rightarrow> ustr \<Rightarrow> bool" where
  "lang u Eps w = (w = [])"
| "lang u (Cls k) w = (\<exists>c. w = [c] \<and> cls_has u k c)"
| "lang u (Seq r1 r2) w = (\<exists>v1 v2. w = v1 @ v2 \<and> lang u r1 v1 \<and> lang u r2 v2)"
| "lang u (Alt r1 r2) w = (lang u r1 w \<or> lang u r2 w)"
| "lang u (Star g r) w = star_of (lang u r) w"
| "lang u WordB w = False"

lemma last_opt_append [simp]: "last_opt p (v @ w) = last_opt (last_opt p v) w"
  by (simp add: last_opt_def)

lemma last_opt_Nil [simp]: "last_opt p [] = p"
  by (simp add: last_opt_def)

lemma match_lang_sound:
  "rx_match u dec_char r x y \<Longrightarrow> boundary_free r \<Longrightarrow>
     \<exists>w. snd x = w @ snd y \<and> fst y = last_opt (fst x) w \<and> lang u r w"
proof (induction rule: rx_match.induct)
  case (m_cls s c s' k p)
  then have "s = [c] @ s'" by (cases s) auto
  with m_cls show ?case by (intro exI [of _ "[c]"]) (simp add: last_opt_def)
next
  case (m_seq r1 x y r2 z)
  then obtain v w where "snd x = v @ snd y" "fst y = last_opt (fst x) v" "lang u r1 v"
    "snd y = w @ snd z" "fst z = last_opt (fst y) w" "lang u r2 w" by auto
  then show ?case by (intro exI [of _ "v @ w"]) auto
next
  case (m_star r x y g z)
  then obtain v w where "snd x = v @ snd y" "fst y = last_opt (fst x) v" "lang u r v"
    "snd y = w @ snd z" "fst z = last_opt (fst y) w" "star_of (lang u r) w" by auto
  then show ?case by (intro exI [of _ "v @ w"]) (simp add: star_more)
qed auto

lemma match_lang_complete:
  "boundary_free r \<Longrightarrow> lang u r w \<Longrightarrow> rx_match u dec_char r (p, w @ t) (last_opt p w, t)"
proof (induction r arbitrary: w p t)
  case (Seq r1 r2)
  then obtain v1 v2 where "w = v1 @ v2" "lang u r1 v1" "lang u r2 v2" by auto
  with Seq show ?case by fastforce
next
  case (Star g r)
  from Star.prems have "star_of (lang u r) w" by simp
  then show ?case
  proof (induction arbitrary: p)
    case (star_more v w)
    with Star.IH Star.prems have "rx_match u dec_char r (p, v @ w @ t) (last_opt p v, w @ t)" by simp
    with star_more.IH show ?case by (auto intro: rx_match.m_star)
  qed simp
next
  case (Cls k)
  then show ?case by (auto simp: last_opt_def)
qed auto

lemma match_lang:
  assumes "boundary_free r"
  shows "(\<exists>y. rx_match u dec_char r (p, s) y) \<longleftrightarrow> (\<exists>w t. s = w @ t \<and> lang u r w)"
  using match_lang_sound [of u r "(p, s)"] match_lang_complete [of r u] assms by fastforce

section \<open>The forms of the program\<close>

text \<open>The fold that \<open>(?i)\<close> applies: ASCII case, the long s and the Kelvin sign.\<close>

definition fold_char :: "uchar \<Rightarrow> uchar" where
  "fold_char c = (if c = 0x17F then 115 else if c = 0x212A then 107 else ascii_lower c)"

definition same_word :: "ustr \<Rightarrow> string \<Rightarrow> bool" where
  "same_word w s \<longleftrightarrow> map fold_char w = map fold_char (lit s)"

lemma lang_chr [simp]: "lang u (chr c) w \<longleftrightarrow> w = [c]"
  by (auto simp: chr_def)

lemma lang_chr_i: "is_ascii c \<Longrightarrow> lang u (chr_i c) w \<longleftrightarrow> (\<exists>d. w = [d] \<and> fold_char d = fold_char c)"
  by (auto simp: chr_i_def fold_char_def ascii_defs chr_def)

lemma lang_seq_map_chr_i:
  "\<forall>c \<in> set cs. is_ascii c \<Longrightarrow> lang u (seq_of (map chr_i cs)) w \<longleftrightarrow> map fold_char w = map fold_char cs"
proof (induction cs arbitrary: w)
  case (Cons c cs)
  show ?case
  proof (cases cs)
    case Nil
    with Cons show ?thesis by (auto simp: lang_chr_i map_eq_Cons_conv)
  next
    case (Cons c' cs')
    with Cons.prems Cons.IH show ?thesis
      by (auto simp: lang_chr_i map_eq_Cons_conv Cons_eq_append_conv) metis+
  qed
qed simp

lemma lang_word_i: "\<forall>c \<in> set (lit s). is_ascii c \<Longrightarrow> lang u (word_i s) w \<longleftrightarrow> same_word w s"
  by (simp add: word_i_def lang_seq_map_chr_i same_word_def)

lemma star_of_class: "star_of (lang u (Cls k)) w \<longleftrightarrow> (\<forall>c \<in> set w. cls_has u k c)"
proof
  show "star_of (lang u (Cls k)) w \<Longrightarrow> \<forall>c \<in> set w. cls_has u k c"
    by (induction rule: star_of.induct) auto
  show "\<forall>c \<in> set w. cls_has u k c \<Longrightarrow> star_of (lang u (Cls k)) w"
    by (induction w) (use star_more [of "lang u (Cls k)" "[c]" for c] in force)+
qed

lemma space_rx_has: "cls_has u (Ranges [(9, 13), (0x20, 0x20), (0x85, 0x85), (0xA0, 0xA0),
     (0x1680, 0x1680), (0x2000, 0x200A), (0x2028, 0x2029), (0x202F, 0x202F), (0x205F, 0x205F),
     (0x3000, 0x3000)]) c \<longleftrightarrow> is_whitespace c"
proof -
  have "8232 \<le> c \<and> c \<le> 8233 \<longleftrightarrow> c = 8232 \<or> c = 8233" by linarith
  then show ?thesis by (simp add: is_whitespace_def order.eq_iff [where 'a = nat] conj_commute)
qed

definition blank :: "ustr \<Rightarrow> bool" where
  "blank w \<longleftrightarrow> (\<forall>c \<in> set w. is_whitespace c)"

definition one_line :: "ustr \<Rightarrow> bool" where
  "one_line w \<longleftrightarrow> (\<forall>c \<in> set w. c \<noteq> 10 \<and> c \<le> 0x10FFFF)"

lemma lang_many_space: "lang u (many space_rx) w \<longleftrightarrow> blank w"
  unfolding many_def space_rx_def lang.simps(5) star_of_class space_rx_has blank_def ..

lemma lang_some_space: "lang u (some1 space_rx) w \<longleftrightarrow> blank w \<and> w \<noteq> []"
proof -
  have "lang u (some1 space_rx) w \<longleftrightarrow> (\<exists>c v. w = [c] @ v \<and> is_whitespace c \<and> blank v)"
    unfolding some1_def space_rx_def lang.simps(3) lang.simps(5) star_of_class
      space_rx_has blank_def lang.simps(2) by blast
  then show ?thesis by (cases w) (auto simp: blank_def)
qed

lemma lang_many_dot:
  "lang u (many dot_rx) w \<longleftrightarrow> one_line w"
  "lang u (many_lazy dot_rx) w \<longleftrightarrow> one_line w"
  unfolding many_def many_lazy_def dot_rx_def lang.simps(5) star_of_class one_line_def by force+

lemmas lang_forms = lang_word_i lang_many_space lang_some_space lang_many_dot lang_chr

section \<open>Texts and their encoding\<close>

lemma as_bytes_append [simp]: "as_bytes (v @ w) = as_bytes v @ as_bytes w"
  by (simp add: as_bytes_def)

lemma dec_utf8_as_bytes:
  "\<forall>c \<in> set s. is_scalar c \<Longrightarrow>
     dec_utf8 (as_bytes s) = map_option (\<lambda>(c, t). (c, as_bytes t)) (dec_char s)"
proof (cases s)
  case (Cons c s')
  assume "\<forall>c \<in> set s. is_scalar c"
  with Cons utf8_step_char [of c "as_bytes s'"] show ?thesis by auto
qed simp

lemma match_decode:
  "rx_match u dec_utf8 r x y \<Longrightarrow> snd x = as_bytes s \<Longrightarrow> \<forall>c \<in> set s. is_scalar c \<Longrightarrow>
     \<exists>v t. s = v @ t \<and> snd y = as_bytes t \<and> rx_match u dec_char r (fst x, s) (fst y, t)"
proof (induction arbitrary: s rule: rx_match.induct)
  case (m_cls bs c bs' k p)
  then show ?case using dec_utf8_as_bytes [of s] by (cases s) auto
next
  case (m_seq r1 x y r2 z)
  obtain v t where t: "s = v @ t" "snd y = as_bytes t" "rx_match u dec_char r1 (fst x, s) (fst y, t)"
    using m_seq by blast
  moreover from t m_seq obtain v' t' where "t = v' @ t'" "snd z = as_bytes t'"
    "rx_match u dec_char r2 (fst y, t) (fst z, t')" by (metis UnCI set_append)
  ultimately show ?case by (intro exI [of _ "v @ v'"] exI [of _ t']) auto
next
  case (m_star r x y g z)
  obtain v t where t: "s = v @ t" "snd y = as_bytes t" "rx_match u dec_char r (fst x, s) (fst y, t)"
    using m_star by blast
  moreover from t m_star obtain v' t' where "t = v' @ t'" "snd z = as_bytes t'"
    "rx_match u dec_char (Star g r) (fst y, t) (fst z, t')" by (metis UnCI set_append)
  ultimately show ?case
    by (intro exI [of _ "v @ v'"] exI [of _ t']) (auto intro: rx_match.m_star)
next
  case (m_wordb x)
  then have "at_boundary u dec_char (fst x, s)"
    using dec_utf8_as_bytes [of s] by (auto simp: at_boundary_def option.map_comp comp_def case_prod_beta)
  with m_wordb show ?case by (intro exI [of _ "[]"] exI [of _ s]) auto
next
  case (m_eps x)
  then show ?case by (intro exI [of _ "[]"] exI [of _ s]) simp
next
  case (m_star0 g r x)
  then show ?case by (intro exI [of _ "[]"] exI [of _ s]) simp
next
  case (m_alt1 r1 x y r2)
  then show ?case by (meson rx_match.m_alt1)
next
  case (m_alt2 r2 x y r1)
  then show ?case by (meson rx_match.m_alt2)
qed

text \<open>A suffix of an encoding starts a character or is in the middle of one.\<close>

lemma utf8_char_tail: "is_scalar c \<Longrightarrow> b \<in> set (tl (utf8_char c)) \<Longrightarrow> is_cont b"
  unfolding utf8_char_def by (auto split: if_splits intro!: cont_byte [simplified])

lemma cont_not_decoded: "bs \<noteq> [] \<Longrightarrow> is_cont (hd bs) \<Longrightarrow> dec_utf8 bs = None"
  by (cases bs) (auto simp: utf8_step_def is_cont_def byte_order)

lemma as_bytes_suffix:
  "as_bytes t = a @ b \<Longrightarrow> \<forall>c \<in> set t. is_scalar c \<Longrightarrow>
     (\<exists>t1 t2. t = t1 @ t2 \<and> b = as_bytes t2) \<or> dec_utf8 b = None"
proof (induction t arbitrary: a)
  case (Cons c t)
  have dich: "a = [] \<or> (\<exists>a'. a = utf8_char c @ a' \<and> as_bytes t = a' @ b)
      \<or> (\<exists>m. m \<noteq> [] \<and> a \<noteq> [] \<and> utf8_char c = a @ m \<and> b = m @ as_bytes t)"
    using Cons.prems(1) by (cases a) (auto simp: append_eq_append_conv2 append_eq_Cons_conv)
  then consider "a = []" | a' where "as_bytes t = a' @ b"
    | m where "m \<noteq> []" "a \<noteq> []" "utf8_char c = a @ m" "b = m @ as_bytes t" by blast
  then show ?case
  proof cases
    case 1
    with Cons.prems(1) show ?thesis by (intro disjI1 exI [of _ "[]"] exI [of _ "c # t"]) simp
  next
    case 2
    with Cons.IH Cons.prems(2) show ?thesis by (metis append_Cons list.set_intros(2))
  next
    case (3 m)
    then have "hd m \<in> set (tl (utf8_char c))" by (cases a) auto
    with 3 Cons.prems(2) utf8_char_tail [of c "hd m"] show ?thesis
      by (intro disjI2 cont_not_decoded) auto
  qed
qed auto

end
