(* ===== verification/Waf_Core.thy ===== *)
theory Waf_Core
  imports Languages
begin

text \<open>
  The signature scan (\<open>src/waf/core.rs\<close>): the three expressions of the attack set and
  \<open>is_attack\<close>. The scan runs on raw bytes. The specification \<open>injection\<close> says in terms of
  words, blanks and lines which pieces of text are signatures; the scan of the encoding of a text
  answers exactly whether one of them is in it.
\<close>

section \<open>The attack patterns\<close>

definition sql_injection :: rx where
  "sql_injection = alt_of
     [seq_of [word_i ''union'', some1 space_rx, word_i ''select''],
      seq_of [word_i ''select'', some1 space_rx, many dot_rx, some1 space_rx, word_i ''from''],
      seq_of [word_i ''insert'', some1 space_rx, word_i ''into''],
      seq_of [word_i ''drop'', some1 space_rx, word_i ''table''],
      seq_of [chr 39, word_i '' OR '', chr 39, chr 49, chr 39, chr 61, chr 39, chr 49, chr 39],
      word_i ''--'']"

definition xss :: rx where
  "xss = alt_of
     [seq_of [word_i ''<script'', many_lazy dot_rx, chr 62],
      word_i ''javascript:'',
      seq_of [word_i ''onerror'', many space_rx, chr 61],
      seq_of [word_i ''onload'', many space_rx, chr 61],
      word_i ''alert('',
      word_i ''<iframe>'']"

definition command_injection :: rx where
  "command_injection = alt_of
     [seq_of [chr 59, many space_rx,
        alt_of [word_i ''ls'', word_i ''rm'', word_i ''cat'', word_i ''id'', word_i ''whoami'',
                word_i ''pwd'', word_i ''wget'', word_i ''curl'']],
      word_i ''&&'',
      word_i ''||'',
      chr 124,
      seq_of [chr 36, chr 40, many_lazy dot_rx, chr 41]]"

definition attack_patterns :: "rx list" where
  "attack_patterns = [sql_injection, xss, command_injection]"

definition is_attack :: "rx_engine \<Rightarrow> byte list \<Rightarrow> bool" where
  "is_attack E input = set_is_match E attack_patterns input"

section \<open>The signatures\<close>

definition phrase :: "string \<Rightarrow> string \<Rightarrow> ustr \<Rightarrow> bool" where
  "phrase k1 k2 w \<longleftrightarrow>
     (\<exists>a s b. w = a @ s @ b \<and> same_word a k1 \<and> blank s \<and> s \<noteq> [] \<and> same_word b k2)"

definition select_from :: "ustr \<Rightarrow> bool" where
  "select_from w \<longleftrightarrow>
     (\<exists>a s l s' b. w = a @ s @ l @ s' @ b \<and> same_word a ''select'' \<and> blank s \<and> s \<noteq> [] \<and>
        one_line l \<and> blank s' \<and> s' \<noteq> [] \<and> same_word b ''from'')"

definition tautology :: "ustr \<Rightarrow> bool" where
  "tautology w \<longleftrightarrow> (\<exists>k. w = [39] @ k @ [39, 49, 39, 61, 39, 49, 39] \<and> same_word k '' OR '')"

definition handler_attr :: "string \<Rightarrow> ustr \<Rightarrow> bool" where
  "handler_attr k w \<longleftrightarrow> (\<exists>a s. w = a @ s @ lit ''='' \<and> same_word a k \<and> blank s)"

definition script_tag :: "ustr \<Rightarrow> bool" where
  "script_tag w \<longleftrightarrow> (\<exists>a l. w = a @ l @ lit ''>'' \<and> same_word a ''<script'' \<and> one_line l)"

definition shell_command :: "ustr \<Rightarrow> bool" where
  "shell_command w \<longleftrightarrow>
     (\<exists>s k. w = lit '';'' @ s @ k \<and> blank s \<and>
        list_ex (same_word k) [''ls'', ''rm'', ''cat'', ''id'', ''whoami'', ''pwd'', ''wget'', ''curl''])"

definition substitution :: "ustr \<Rightarrow> bool" where
  "substitution w \<longleftrightarrow> (\<exists>l. w = lit ''$('' @ l @ lit '')'' \<and> one_line l)"

definition injection :: "ustr \<Rightarrow> bool" where
  "injection w \<longleftrightarrow>
     phrase ''union'' ''select'' w \<or> select_from w \<or> phrase ''insert'' ''into'' w \<or>
     phrase ''drop'' ''table'' w \<or> tautology w \<or> same_word w ''--'' \<or>
     script_tag w \<or> same_word w ''javascript:'' \<or> handler_attr ''onerror'' w \<or>
     handler_attr ''onload'' w \<or> same_word w ''alert('' \<or> same_word w ''<iframe>'' \<or>
     shell_command w \<or> same_word w ''&&'' \<or> w = lit ''|'' \<or> same_word w ''||'' \<or> substitution w"

text \<open>The three expressions denote the signatures.\<close>

lemma lang_phrase:
  assumes "\<forall>c \<in> set (lit k1 @ lit k2). is_ascii c"
  shows "lang u (seq_of [word_i k1, some1 space_rx, word_i k2]) w \<longleftrightarrow> phrase k1 k2 w"
  using assms by (auto simp: lang_forms phrase_def)

lemma lang_select_from:
  "lang u (seq_of [word_i ''select'', some1 space_rx, many dot_rx, some1 space_rx, word_i ''from'']) w
     \<longleftrightarrow> select_from w"
  by (simp add: lang_forms select_from_def is_ascii_def) blast

lemma lang_tautology:
  "lang u (seq_of [chr 39, word_i '' OR '', chr 39, chr 49, chr 39, chr 61, chr 39, chr 49, chr 39]) w
     \<longleftrightarrow> tautology w"
  by (simp add: lang_forms tautology_def is_ascii_def) metis

lemma lang_handler:
  "\<forall>c \<in> set (lit k). is_ascii c \<Longrightarrow>
     lang u (seq_of [word_i k, many space_rx, chr 61]) w \<longleftrightarrow> handler_attr k w"
  by (auto simp: lang_forms handler_attr_def)

lemma lang_script_tag:
  "lang u (seq_of [word_i ''<script'', many_lazy dot_rx, chr 62]) w \<longleftrightarrow> script_tag w"
  by (simp add: lang_forms script_tag_def is_ascii_def) metis

lemma lang_shell:
  "lang u (seq_of [chr 59, many space_rx,
        alt_of [word_i ''ls'', word_i ''rm'', word_i ''cat'', word_i ''id'', word_i ''whoami'',
                word_i ''pwd'', word_i ''wget'', word_i ''curl'']]) w \<longleftrightarrow> shell_command w"
  by (simp add: lang_forms shell_command_def is_ascii_def) blast

lemma lang_substitution:
  "lang u (seq_of [chr 36, chr 40, many_lazy dot_rx, chr 41]) w \<longleftrightarrow> substitution w"
  by (simp add: lang_forms substitution_def) metis

lemma lang_attacks:
  "(\<exists>r \<in> set attack_patterns. lang u r w) \<longleftrightarrow> injection w"
  unfolding attack_patterns_def sql_injection_def xss_def command_injection_def alt_of.simps
    injection_def
  by (simp add: lang_phrase lang_select_from lang_tautology lang_handler lang_script_tag
      lang_shell [unfolded alt_of.simps]
      lang_substitution lang_word_i is_ascii_def disj_assoc del: seq_of.simps alt_of.simps) blast

section \<open>What the scan answers\<close>

text \<open>Matches of characters are matches of their encoding, in front of any bytes.\<close>

lemma dec_utf8_char:
  "is_scalar c \<Longrightarrow> dec_utf8 (utf8_char c @ rest) = Some (c, rest)"
  using utf8_step_char [of c rest] by auto

lemma lang_utf8_match:
  "boundary_free r \<Longrightarrow> lang u r w \<Longrightarrow> \<forall>c \<in> set w. is_scalar c \<Longrightarrow>
     \<exists>q. rx_match u dec_utf8 r (p, as_bytes w @ rest) (q, rest)"
proof (induction r arbitrary: w p rest)
  case (Seq r1 r2)
  then obtain v1 v2 where v: "w = v1 @ v2" "lang u r1 v1" "lang u r2 v2" by auto
  with Seq obtain q where "rx_match u dec_utf8 r1 (p, as_bytes v1 @ as_bytes v2 @ rest) (q, as_bytes v2 @ rest)"
    by fastforce
  moreover from v Seq obtain q' where "rx_match u dec_utf8 r2 (q, as_bytes v2 @ rest) (q', rest)"
    by fastforce
  ultimately show ?case using v(1) by auto
next
  case (Star g r)
  from Star.prems have "star_of (lang u r) w" by simp
  then show ?case using Star.prems(3)
  proof (induction arbitrary: p)
    case star_nil
    show ?case by (rule exI [of _ p]) simp
  next
    case (star_more v w)
    with Star obtain q where "rx_match u dec_utf8 r (p, as_bytes v @ as_bytes w @ rest) (q, as_bytes w @ rest)"
      by fastforce
    moreover from star_more obtain q' where
      "rx_match u dec_utf8 (Star g r) (q, as_bytes w @ rest) (q', rest)" by fastforce
    ultimately show ?case by (auto intro: rx_match.m_star)
  qed
next
  case (Alt r1 r2)
  then show ?case by (simp del: split_paired_Ex) blast
qed (auto simp: dec_utf8_char)

lemma attack_patterns_boundary_free: "\<forall>r \<in> set attack_patterns. boundary_free r"
  by (simp add: attack_patterns_def sql_injection_def xss_def command_injection_def word_i_def
      chr_i_def chr_def some1_def many_def many_lazy_def space_rx_def dot_rx_def ascii_defs)

lemma undecoded_match:
  "rx_match u dec_utf8 r x y \<Longrightarrow> dec_utf8 (snd x) = None \<Longrightarrow> boundary_free r \<Longrightarrow> y = x \<and> lang u r []"
proof (induction rule: rx_match.induct)
  case (m_star r x y g z)
  show ?case using m_star by simp
qed auto

text \<open>An expression that takes no empty text occurs in an encoding where it occurs in the text.\<close>

lemma occurs_in_encoding:
  assumes "boundary_free r" and "\<forall>c \<in> set t. is_scalar c" and "\<not> lang u r []"
  shows "rx_occurs u dec_utf8 r (as_bytes t) \<longleftrightarrow> (\<exists>a w b. t = a @ w @ b \<and> lang u r w)"
proof
  assume "rx_occurs u dec_utf8 r (as_bytes t)"
  then obtain a b y where ab: "as_bytes t = a @ b" and m: "rx_match u dec_utf8 r (None, b) y"
    by (auto simp: rx_occurs_def)
  from as_bytes_suffix [OF ab assms(2)] show "\<exists>a w b. t = a @ w @ b \<and> lang u r w"
  proof
    assume "\<exists>t1 t2. t = t1 @ t2 \<and> b = as_bytes t2"
    then obtain t1 t2 where t: "t = t1 @ t2" "b = as_bytes t2" by blast
    from match_decode [OF m, of t2] t assms(2)
    have "\<exists>y. rx_match u dec_char r (None, t2) y" by auto
    then obtain w t3 where "t2 = w @ t3" "lang u r w" using match_lang [OF assms(1)] by blast
    with t(1) show ?thesis by blast
  next
    assume none: "dec_utf8 b = None"
    have "lang u r []" using undecoded_match [OF m] none assms(1) by simp
    with assms(3) show ?thesis by blast
  qed
next
  assume "\<exists>a w b. t = a @ w @ b \<and> lang u r w"
  then obtain a w b where t: "t = a @ w @ b" "lang u r w" by blast
  with lang_utf8_match [OF assms(1) t(2), of None "as_bytes b"] assms(2)
  show "rx_occurs u dec_utf8 r (as_bytes t)" by (auto simp: rx_occurs_def)
qed

lemma injection_nonempty: "\<not> injection []"
  by (auto simp: injection_def phrase_def select_from_def tautology_def script_tag_def
      handler_attr_def shell_command_def substitution_def same_word_def)

lemma is_attack_injection:
  assumes "regex_engine u E" and "\<forall>c \<in> set t. is_scalar c"
  shows "is_attack E (as_bytes t) \<longleftrightarrow> (\<exists>a w b. t = a @ w @ b \<and> injection w)"
proof -
  have ne: "\<not> lang u r []" if "r \<in> set attack_patterns" for r
    using lang_attacks [of u "[]"] injection_nonempty that by blast
  have "is_attack E (as_bytes t) \<longleftrightarrow> (\<exists>r \<in> set attack_patterns. rx_occurs u dec_utf8 r (as_bytes t))"
    unfolding is_attack_def
    by (rule regex_engine.set_is_match_iff [OF assms(1) attack_patterns_boundary_free])
  also have "\<dots> \<longleftrightarrow> (\<exists>r \<in> set attack_patterns. \<exists>a w b. t = a @ w @ b \<and> lang u r w)"
    using occurs_in_encoding [OF _ assms(2) ne] attack_patterns_boundary_free by (intro bex_cong) auto
  also have "\<dots> \<longleftrightarrow> (\<exists>a w b. t = a @ w @ b \<and> injection w)"
    using lang_attacks [of u] by blast
  finally show ?thesis .
qed

text \<open>Signatures inside arbitrary bytes are found as well.\<close>

lemma is_attack_inside:
  assumes "regex_engine u E" and "injection w" and "\<forall>c \<in> set w. is_scalar c"
  shows "is_attack E (a @ as_bytes w @ b)"
proof -
  from lang_attacks [of u w] assms(2) obtain r where r: "r \<in> set attack_patterns" "lang u r w" by blast
  then have bf: "boundary_free r" using attack_patterns_boundary_free by blast
  then have "rx_occurs u dec_utf8 r (a @ as_bytes w @ b)"
    using lang_utf8_match [OF bf r(2) assms(3), of None b] by (auto simp: rx_occurs_def)
  with r(1) show ?thesis
    unfolding is_attack_def
    using regex_engine.set_is_match_iff [OF assms(1) attack_patterns_boundary_free] by blast
qed

text \<open>The characters without which there is no signature.\<close>

definition signature_char :: "uchar \<Rightarrow> bool" where
  "signature_char c \<longleftrightarrow> c \<in> set (lit ''$&'(-:;<=|'') \<or> is_whitespace c"

lemma fold_char_eq:
  "fold_char c = d \<Longrightarrow> d < 97 \<or> 122 < d \<Longrightarrow> c = d"
  by (auto simp: fold_char_def ascii_defs split: if_splits)

lemma same_word_char:
  assumes "same_word w k" and "d \<in> set (lit k)" and "d < 65 \<or> 90 < d \<and> d < 97 \<or> 122 < d \<and> d < 128"
  shows "d \<in> set w"
proof -
  have "fold_char d = d" using assms(3) by (auto simp: fold_char_def ascii_defs)
  then have "d \<in> set (map fold_char w)" using assms(1,2) unfolding same_word_def by (metis imageI set_map)
  then obtain c where "c \<in> set w" "fold_char c = d" by auto
  with fold_char_eq [of c d] assms(3) show ?thesis by auto
qed

lemma signature_punct [simp]: "d \<in> set (lit ''$&'(-:;<=|'') \<Longrightarrow> signature_char d"
  by (simp add: signature_char_def)

lemma signature_blank: "blank s \<Longrightarrow> s \<noteq> [] \<Longrightarrow> \<exists>c \<in> set s. signature_char c"
  by (cases s) (simp_all add: blank_def signature_char_def)

lemma signature_word:
  assumes "same_word v k" and "d \<in> set (lit k)" and "d \<in> {38, 40, 45, 58, 60, 124}"
  shows "\<exists>c \<in> set v. signature_char c"
proof -
  have "d \<in> set v" using same_word_char [OF assms(1,2)] assms(3) by auto
  moreover have "signature_char d" using assms(3) by (intro signature_punct) auto
  ultimately show ?thesis ..
qed

lemma signature_phrase: "phrase k1 k2 w \<Longrightarrow> \<exists>c \<in> set w. signature_char c"
  by (auto simp: phrase_def dest!: signature_blank)

lemma signature_select: "select_from w \<Longrightarrow> \<exists>c \<in> set w. signature_char c"
  by (auto simp: select_from_def dest!: signature_blank)

lemma signature_tautology: "tautology w \<Longrightarrow> \<exists>c \<in> set w. signature_char c"
  by (auto simp: tautology_def)

lemma signature_handler: "handler_attr k w \<Longrightarrow> \<exists>c \<in> set w. signature_char c"
  by (auto simp: handler_attr_def)

lemma signature_shell: "shell_command w \<Longrightarrow> \<exists>c \<in> set w. signature_char c"
  by (auto simp: shell_command_def)

lemma signature_substitution: "substitution w \<Longrightarrow> \<exists>c \<in> set w. signature_char c"
  by (auto simp: substitution_def)

lemma signature_script: "script_tag w \<Longrightarrow> \<exists>c \<in> set w. signature_char c"
  using signature_word [of _ "''<script''" 60] by (fastforce simp: script_tag_def)

lemma injection_signature_char:
  assumes "injection w"
  shows "\<exists>c \<in> set w. signature_char c"
proof -
  have "\<exists>c \<in> set w. signature_char c" if "w = lit ''|''" using that by simp
  moreover note signature_word [of w "''--''" 45] signature_word [of w "''javascript:''" 58]
    signature_word [of w "''alert(''" 40] signature_word [of w "''<iframe>''" 60]
    signature_word [of w "''&&''" 38] signature_word [of w "''||''" 124]
  ultimately show ?thesis
    using assms unfolding injection_def
    by (elim disjE) (simp_all add: signature_phrase signature_select signature_tautology
      signature_handler signature_shell signature_substitution signature_script)
qed

section \<open>Properties\<close>

text \<open>
  C15: the scan of a text is exact. Against any engine that meets the documented contract, the scan
  of the UTF-8 encoding of a text answers true exactly when one of the signatures, in any letter
  case and with any amount of Unicode white space, stands somewhere in the text.
\<close>

theorem attack_scan_exact:
  assumes "regex_engine u E" and "\<forall>c \<in> set t. is_scalar c"
  shows "is_attack E (as_bytes t) \<longleftrightarrow> (\<exists>a w b. t = a @ w @ b \<and> injection w)"
  by (rule is_attack_injection [OF assms])

theorem attack_scan_exact_witness:
  "(\<exists>a w b. lit ''id=1 uNion  sELECT pw'' = a @ w @ b \<and> injection w)"
proof -
  have "is_attack (ref_engine ascii_tables) (as_bytes (lit ''id=1 uNion  sELECT pw''))" by code_simp
  then show ?thesis
    using attack_scan_exact [OF ascii_rx.regex_engine_axioms, of "lit ''id=1 uNion  sELECT pw''"]
    by (simp add: is_scalar_def)
qed

text \<open>
  A signature cannot be hidden behind bytes that are not text. Whatever bytes stand before and
  after it, a payload that contains the encoding of a signature is reported.
\<close>

theorem attack_found_in_binary:
  assumes "regex_engine u E" and "injection w" and "\<forall>c \<in> set w. is_scalar c"
  shows "is_attack E (a @ as_bytes w @ b)"
  by (rule is_attack_inside [OF assms])

theorem attack_found_in_binary_witness:
  "is_attack (ref_engine ascii_tables) ([0xFF, 0xC3] @ as_bytes (lit ''drop'' @ [0x2003] @ lit ''TABLE'') @ [0x80])"
proof -
  have "phrase ''drop'' ''table'' (lit ''drop'' @ [0x2003] @ lit ''TABLE'')"
    unfolding phrase_def
    by (intro exI [of _ "lit ''drop''"] exI [of _ "[0x2003]"] exI [of _ "lit ''TABLE''"])
      (simp add: same_word_def fold_char_def ascii_defs blank_def is_whitespace_def)
  then have "injection (lit ''drop'' @ [0x2003] @ lit ''TABLE'')" by (simp only: injection_def simp_thms)
  then show ?thesis
    by (rule attack_found_in_binary [OF ascii_rx.regex_engine_axioms]) (simp add: is_scalar_def)
qed

text \<open>
  No false alarm on plain text. A text with none of the ten punctuation characters
  \<open>$ & ' ( - : ; < = |\<close> and no white space is never reported.
\<close>

theorem plain_text_not_attack:
  assumes "regex_engine u E" and "\<forall>c \<in> set t. is_scalar c \<and> \<not> signature_char c"
  shows "\<not> is_attack E (as_bytes t)"
  using is_attack_injection [OF assms(1), of t] injection_signature_char assms(2) by fastforce

theorem plain_text_not_attack_witness:
  "\<not> is_attack (ref_engine ascii_tables) (as_bytes (lit ''/union/select.html?x%2Cy#insert''))"
  by (rule plain_text_not_attack [OF ascii_rx.regex_engine_axioms])
    (simp add: is_scalar_def signature_char_def is_whitespace_def)

text \<open>
  Two hyphens anywhere are a signature on their own, and so is a single vertical bar: every
  body that contains the delimiter line of a multipart form is reported, whatever the fields hold.
\<close>

theorem multipart_reported:
  assumes "regex_engine u E"
  shows "is_attack E (a @ blit ''--'' @ boundary @ b) \<and> is_attack E (a @ blit ''|'' @ b)"
proof -
  have "injection (lit ''--'')" "injection (lit ''|'')" by (simp_all add: injection_def same_word_def)
  then show ?thesis
    using is_attack_inside [OF assms, of "lit ''--''" a "boundary @ b"]
      is_attack_inside [OF assms, of "lit ''|''" a b]
    by (simp_all add: is_scalar_def utf8_char_def byte_of_def)
qed

theorem multipart_reported_witness:
  "is_attack (ref_engine ascii_tables) ([] @ blit ''--'' @ blit ''X1'' @ blit ''name'')
   \<and> is_attack (ref_engine ascii_tables) (blit ''a'' @ blit ''|'' @ blit ''b'')"
  using multipart_reported [OF ascii_rx.regex_engine_axioms] by blast

end
