(* ===== verification/Waf_Path.thy ===== *)
theory Waf_Path
  imports Rust_Text
begin

text \<open>
  URL normalisation and the traversal check (\<open>src/waf/path.rs\<close>). The Aho-Corasick automaton
  belongs to a crate outside the repository: it is a parameter, with its documented answer as the
  locale \<open>aho_corasick\<close>. The decoding loop is the code's, including what it does with
  malformed escapes: both characters after the percent sign are consumed in every case.
\<close>

section \<open>Operations\<close>

type_synonym ac_matcher = "ustr list \<Rightarrow> ustr \<Rightarrow> bool"

definition traversal_patterns :: "ustr list" where
  "traversal_patterns =
     [lit ''../'', lit ''..'' @ [92], lit ''/etc/passwd'', lit ''windows/system32'',
      lit ''boot.ini'', lit ''%2e%2e%2f'', lit ''%2e%2e%5c'']"

fun normalize_url :: "ustr \<Rightarrow> ustr" where
  "normalize_url [] = []"
| "normalize_url (c # s) =
     (if c = 37 then
        (let hex = take 2 s; rest = drop 2 s
         in case u8_from_str_radix 16 hex of
              Some b \<Rightarrow> b # normalize_url rest
            | None \<Rightarrow> 37 # hex @ normalize_url rest)
      else c # normalize_url s)"

definition is_traversal :: "ac_matcher \<Rightarrow> ustr \<Rightarrow> bool" where
  "is_traversal ac input = ac traversal_patterns input"

section \<open>The automaton's contract\<close>

locale aho_corasick =
  fixes ac :: ac_matcher
  assumes ac_iff: "\<forall>p \<in> set ps. p \<noteq> [] \<Longrightarrow> ac ps s \<longleftrightarrow> (\<exists>p \<in> set ps. occurs_nocase p s)"
begin

lemma traversal_iff: "is_traversal ac s \<longleftrightarrow> (\<exists>p \<in> set traversal_patterns. occurs_nocase p s)"
  unfolding is_traversal_def by (rule ac_iff) (simp add: traversal_patterns_def)

end

definition ac_ref :: ac_matcher where
  "ac_ref ps s = list_ex (\<lambda>p. occurs_nocase p s) ps"

interpretation ac_scan: aho_corasick ac_ref
  by unfold_locales (simp add: ac_ref_def list_ex_iff)

section \<open>Percent encodings\<close>

text \<open>
  The percent encodings of a sequence of bytes (RFC 3986, section 2.1): any byte may be written as an
  escape, with digits in either case; an ASCII byte other than the percent sign may stand for itself.
  A percent encoding of a text is one of its UTF-8 bytes.
\<close>

inductive pct_enc :: "ustr \<Rightarrow> byte list \<Rightarrow> bool" where
  enc_nil: "pct_enc [] []"
| enc_plain: "c \<noteq> 37 \<Longrightarrow> is_ascii c \<Longrightarrow> pct_enc e bs \<Longrightarrow> pct_enc (c # e) (byte_of c # bs)"
| enc_hex: "to_digit 16 h = Some a \<Longrightarrow> to_digit 16 l = Some b \<Longrightarrow> pct_enc e bs \<Longrightarrow>
     pct_enc (37 # h # l # e) (byte_of (16 * a + b) # bs)"

inductive_cases pct_encE: "pct_enc e bs"

lemma to_digit_bound: "to_digit r c = Some d \<Longrightarrow> d < r"
  by (auto simp: to_digit_def Let_def split: option.splits if_splits)

lemma to_digit_signs [simp]: "to_digit 16 43 = None" "to_digit 16 37 = None"
  by (simp_all add: to_digit_def is_ascii_digit_def)

lemma escape_value:
  assumes "to_digit 16 h = Some a" and "to_digit 16 l = Some b"
  shows "u8_from_str_radix 16 [h, l] = Some (16 * a + b)"
proof -
  have "h \<noteq> 43" using assms(1) by auto
  moreover have "a < 16" "b < 16" using assms by (auto dest: to_digit_bound)
  ultimately show ?thesis using assms by (simp add: u8_from_str_radix_def mult.commute)
qed

lemma to_digit_ascii: "to_digit r c = Some d \<Longrightarrow> is_ascii c"
  by (auto simp: to_digit_def is_ascii_digit_def is_ascii_def Let_def split: option.splits if_splits)

lemma pct_enc_ascii: "pct_enc e bs \<Longrightarrow> \<forall>c \<in> set e. is_ascii c"
  by (induction rule: pct_enc.induct) (auto dest: to_digit_ascii simp: is_ascii_def)

lemma escape_byte:
  assumes "to_digit 16 h = Some a" and "to_digit 16 l = Some b"
  shows "unat (byte_of (16 * a + b)) = 16 * a + b"
  using to_digit_bound [OF assms(1)] to_digit_bound [OF assms(2)] by simp

lemma normalize_pct_enc: "pct_enc e bs \<Longrightarrow> normalize_url e = byte_chars bs"
proof (induction rule: pct_enc.induct)
  case (enc_hex h a l b e bs)
  then show ?case using escape_value [OF enc_hex(1,2)] escape_byte [OF enc_hex(1,2)] by simp
qed (simp_all add: is_ascii_def)

lemma normalize_plain: "37 \<notin> set s \<Longrightarrow> normalize_url s = s"
  by (induction s) auto

lemma normalize_length: "length (normalize_url s) \<le> length s"
proof (induction s rule: normalize_url.induct)
  case (2 c s)
  show ?case
  proof (cases "c = 37")
    case True
    have "length (normalize_url (drop 2 s)) \<le> length (drop 2 s)"
      using 2 True by (cases "u8_from_str_radix 16 (take 2 s)") auto
    then show ?thesis
      using True by (auto simp: Let_def split: option.splits)
  qed (use 2 in simp)
qed simp

lemma bad_escape: "u8_from_str_radix 16 [x, 37] = None"
  by (auto simp: u8_from_str_radix_def split: option.splits)

text \<open>The patterns are ASCII, so reading bytes as characters neither hides nor invents one.\<close>

lemma traversal_byte_chars:
  assumes "p \<in> set traversal_patterns" and "\<forall>c \<in> set s. is_scalar c"
  shows "occurs_nocase p (byte_chars (as_bytes s)) \<longleftrightarrow> occurs_nocase p s"
proof -
  have a: "\<forall>c \<in> set w. is_ascii c" if "map ascii_lower w = map ascii_lower p" for w
  proof
    fix c assume "c \<in> set w"
    then have "ascii_lower c \<in> set (map ascii_lower p)" using that by (metis imageI set_map)
    moreover have "\<forall>c \<in> set (map ascii_lower p). is_ascii c"
      using assms(1) by (auto simp: traversal_patterns_def ascii_defs)
    ultimately show "is_ascii c" by (auto simp: ascii_defs split: if_splits)
  qed
  have "occurs_nocase p t \<longleftrightarrow> (\<exists>w. sublist w t \<and> map ascii_lower w = map ascii_lower p)" for t
    unfolding occurs_nocase_iff sublist_def by blast
  with sublist_byte_chars [OF assms(2) a] show ?thesis by blast
qed

section \<open>Properties\<close>

text \<open>
  C29: normalisation undoes percent encoding byte by byte. Whichever bytes are written as escapes, and
  in whichever letter case their digits, the normalised form has one character per encoded byte, with
  the byte as its code point. So of a text that was encoded as UTF-8 it gives back the text exactly
  if that is ASCII; every other text is misread.
\<close>

theorem normalize_decodes:
  assumes "pct_enc e bs"
  shows "normalize_url e = byte_chars bs \<and>
     (\<forall>s. bs = as_bytes s \<longrightarrow> (normalize_url e = s \<longleftrightarrow> (\<forall>c \<in> set s. is_ascii c)))"
  using normalize_pct_enc [OF assms] byte_chars_same_iff by simp

lemma accent_encoded: "pct_enc (lit ''/%2E%c3%A9'') (as_bytes (lit ''/.'' @ [0xE9]))"
proof -
  have b: "as_bytes (lit ''/.'' @ [0xE9]) = [byte_of 47, byte_of (16 * 2 + 14), byte_of (16 * 12 + 3), byte_of (16 * 10 + 9)]"
    by (simp add: utf8_char_def)
  have "pct_enc (47 # 37 # 50 # 69 # 37 # 99 # 51 # 37 # 65 # 57 # [])
      [byte_of 47, byte_of (16 * 2 + 14), byte_of (16 * 12 + 3), byte_of (16 * 10 + 9)]"
    by (intro enc_plain enc_hex enc_nil) (simp_all add: is_ascii_def to_digit_def is_ascii_digit_def)
  then show ?thesis unfolding b by simp
qed

theorem normalize_decodes_witness:
  "normalize_url (lit ''/%2E%c3%A9'') = lit ''/.'' @ [0xC3, 0xA9] \<and> normalize_url (lit ''/%2E%c3%A9'') \<noteq> lit ''/.'' @ [0xE9]"
proof -
  note n = normalize_decodes [OF accent_encoded]
  have "byte_chars (as_bytes (lit ''/.'' @ [0xE9])) = lit ''/.'' @ [0xC3, 0xA9]" by (simp add: utf8_char_def)
  moreover have "\<not> (\<forall>c \<in> set (lit ''/.'' @ [0xE9]). is_ascii c)" by (simp add: is_ascii_def)
  ultimately show ?thesis using n by metis
qed

text \<open>
  A traversal cannot be hidden by one level of percent encoding. Against any automaton that
  meets the contract, the check on the normalised form of an encoding of a text answers true exactly
  when the text contains one of the seven patterns in some letter case.
\<close>

theorem traversal_seen_through_encoding:
  assumes "aho_corasick ac" and "pct_enc e (as_bytes s)" and "\<forall>c \<in> set s. is_scalar c"
  shows "is_traversal ac (normalize_url e) \<longleftrightarrow>
     (\<exists>a w b. s = a @ w @ b \<and> (\<exists>p \<in> set traversal_patterns. map ascii_lower w = map ascii_lower p))"
  using aho_corasick.traversal_iff [OF assms(1)] traversal_byte_chars [OF _ assms(3)]
  unfolding normalize_pct_enc [OF assms(2)] by (auto simp: occurs_nocase_iff)

theorem traversal_seen_through_encoding_witness:
  "is_traversal ac_ref (normalize_url (lit ''%2e./''))"
proof -
  have "pct_enc (37 # 50 # 101 # 46 # 47 # []) [byte_of (16 * 2 + 14), byte_of 46, byte_of 47]"
    by (intro enc_plain enc_hex enc_nil) (simp_all add: is_ascii_def to_digit_def is_ascii_digit_def)
  then have enc: "pct_enc (lit ''%2e./'') (as_bytes (lit ''../''))" by (simp add: utf8_char_def)
  have "\<exists>p \<in> set traversal_patterns. map ascii_lower (lit ''../'') = map ascii_lower p"
    by (rule bexI [of _ "lit ''../''"]) (simp_all add: traversal_patterns_def)
  moreover have "lit ''../'' = [] @ lit ''../'' @ []" by simp
  moreover have "\<forall>c \<in> set (lit ''../''). is_scalar c" by (simp add: is_scalar_def)
  ultimately show ?thesis
    using traversal_seen_through_encoding [OF ac_scan.aho_corasick_axioms enc] by blast
qed

text \<open>
  A malformed escape swallows the percent sign of the escape after it. Two characters are
  consumed after every percent sign, so one stray percent sign with any character in front of a
  fully encoded traversal leaves its first escape undecoded, and the traversal is not reported.
\<close>

theorem malformed_escape_hides_traversal:
  assumes "aho_corasick ac"
  shows "normalize_url (lit ''/%x%2e%2e%2fkey'') = lit ''/%x%2e./key''
    \<and> \<not> is_traversal ac (normalize_url (lit ''/%x%2e%2e%2fkey''))
    \<and> is_traversal ac (normalize_url (lit ''/x%2e%2e%2fkey''))"
proof -
  have "normalize_url (lit ''/%x%2e%2e%2fkey'') = lit ''/%x%2e./key''"
    "normalize_url (lit ''/x%2e%2e%2fkey'') = lit ''/x../key''"
    by code_simp+
  moreover have "\<not> list_ex (\<lambda>p. occurs_nocase p (lit ''/%x%2e./key'')) traversal_patterns"
    "list_ex (\<lambda>p. occurs_nocase p (lit ''/x../key'')) traversal_patterns"
    by code_simp+
  ultimately show ?thesis
    unfolding aho_corasick.traversal_iff [OF assms] list_ex_iff by metis
qed

theorem malformed_escape_hides_traversal_witness:
  "\<not> is_traversal ac_ref (normalize_url (lit ''/%x%2e%2e%2fkey''))
   \<and> is_traversal ac_ref (normalize_url (lit ''/x%2e%2e%2fkey''))"
  using malformed_escape_hides_traversal [OF ac_scan.aho_corasick_axioms] by blast

end
