(* ===== verification/Ieee.thy ===== *)
theory Ieee
  imports Complex_Main Prelude
begin

text \<open>
  Binary floating point as the program uses it: the \<open>f64\<close> values of the token bucket and the
  \<open>f32\<close> density ratio. A finite value is the rational number it denotes, an operation is the
  exact operation followed by rounding to nearest, ties to even, with a significand of
  \<open>p\<close> bits (53 and 24). No operation of the program leaves the range of the exponents:
  everything is made from 64-bit integers and nanosecond counts by at most one product or
  quotient and a few sums, so overflow and subnormal numbers do not arise and are not modelled.
\<close>

section \<open>Rounding\<close>

text \<open>The exponent of a positive number: the power of two just below it.\<close>

definition exp_measure :: "rat \<Rightarrow> nat" where
  "exp_measure x = (if 1 \<le> x then nat \<lfloor>x\<rfloor> else Suc (nat \<lfloor>1 / x\<rfloor>))"

function fexp :: "rat \<Rightarrow> int" where
  "fexp x =
     (if x \<le> 0 then 0
      else if 2 \<le> x then fexp (x / 2) + 1
      else if x < 1 then fexp (x * 2) - 1
      else 0)"
  by pat_completeness auto

lemma exp_measure_half: "2 \<le> x \<Longrightarrow> exp_measure (x / 2) < exp_measure x"
proof -
  assume x: "2 \<le> x"
  then have "\<lfloor>x / 2\<rfloor> \<le> \<lfloor>x - 1\<rfloor>" by (intro floor_mono) simp
  moreover have "0 < \<lfloor>x\<rfloor>" using x by linarith
  ultimately show ?thesis using x by (simp add: exp_measure_def)
qed

lemma exp_measure_double: "0 < x \<Longrightarrow> x < 1 \<Longrightarrow> exp_measure (x * 2) < exp_measure x"
proof -
  assume x: "0 < x" "x < 1"
  have inv: "1 \<le> 1 / x" using x by (simp add: field_simps)
  show ?thesis
  proof (cases "1 \<le> x * 2")
    case True
    with x have "\<lfloor>x * 2\<rfloor> = 1" by (simp add: floor_eq_iff)
    moreover have "1 \<le> \<lfloor>1 / x\<rfloor>" using inv by linarith
    ultimately show ?thesis using x True by (simp add: exp_measure_def)
  next
    case False
    then have two: "2 \<le> 1 / x" using x by (simp add: field_simps)
    have "1 / (x * 2) \<le> 1 / x - 1" using two x by (simp add: field_simps)
    then have "\<lfloor>1 / (x * 2)\<rfloor> \<le> \<lfloor>1 / x\<rfloor> - 1" using floor_mono by fastforce
    moreover have "2 \<le> \<lfloor>1 / x\<rfloor>" using two by linarith
    ultimately show ?thesis using x False by (simp add: exp_measure_def)
  qed
qed

termination fexp
  by (relation "measure exp_measure") (auto intro: exp_measure_half exp_measure_double)

declare fexp.simps [simp del]

definition round_even :: "rat \<Rightarrow> int" where
  "round_even x =
     (let f = \<lfloor>x\<rfloor>; d = x - of_int f
      in if d < 1 / 2 then f else if 1 / 2 < d then f + 1 else if even f then f else f + 1)"

definition fl :: "nat \<Rightarrow> rat \<Rightarrow> rat" where
  "fl p x =
     (if x \<le> 0 then 0
      else let ulp = 2 powi (fexp x - int p + 1) in of_int (round_even (x / ulp)) * ulp)"

section \<open>Facts about rounding to an integer\<close>

lemma round_even_of_int [simp]: "round_even (of_int k) = k"
  by (simp add: round_even_def)

lemma round_even_near: "\<bar>of_int (round_even x) - x\<bar> \<le> 1 / 2"
  unfolding round_even_def Let_def by (simp add: abs_if) linarith

lemma round_even_mono: "x \<le> y \<Longrightarrow> round_even x \<le> round_even y"
proof -
  assume xy: "x \<le> y"
  then have f: "\<lfloor>x\<rfloor> \<le> \<lfloor>y\<rfloor>" by (rule floor_mono)
  show ?thesis
  proof (cases "\<lfloor>x\<rfloor> = \<lfloor>y\<rfloor>")
    case True
    with xy show ?thesis by (auto simp: round_even_def Let_def)
  next
    case False
    with f have "\<lfloor>x\<rfloor> + 1 \<le> \<lfloor>y\<rfloor>" by simp
    moreover have "round_even x \<le> \<lfloor>x\<rfloor> + 1" "\<lfloor>y\<rfloor> \<le> round_even y"
      by (auto simp: round_even_def Let_def)
    ultimately show ?thesis by simp
  qed
qed

section \<open>The exponent\<close>

lemma fexp_bounds: "0 < x \<Longrightarrow> 2 powi fexp x \<le> x \<and> x < 2 powi (fexp x + 1)"
proof (induction x rule: fexp.induct)
  case (1 x)
  consider "2 \<le> x" | "x < 1" | "1 \<le> x" "x < 2" by linarith
  then show ?case
  proof cases
    case 1
    with "1.IH"(1) "1.prems" show ?thesis
      by (subst (1 2) fexp.simps) (simp add: power_int_add field_simps)
  next
    case 2
    with "1.IH"(2) "1.prems" show ?thesis
      by (subst (1 2) fexp.simps) (simp add: power_int_add power_int_diff field_simps)
  next
    case 3
    then show ?thesis by (subst (1 2) fexp.simps) simp
  qed
qed

lemma pow2_less_iff: "(2 :: rat) powi a < 2 powi b \<longleftrightarrow> a < b"
  using power_int_strict_increasing [of a b "2 :: rat"] power_int_increasing [of b a "2 :: rat"]
  by (cases "a < b") auto

lemma fexp_unique: "0 < x \<Longrightarrow> 2 powi e \<le> x \<Longrightarrow> x < 2 powi (e + 1) \<Longrightarrow> fexp x = e"
  using fexp_bounds [of x] pow2_less_iff [of e "fexp x + 1"] pow2_less_iff [of "fexp x" "e + 1"]
  by linarith

lemma fexp_mono: "0 < x \<Longrightarrow> x \<le> y \<Longrightarrow> fexp x \<le> fexp y"
  using fexp_bounds [of x] fexp_bounds [of y] pow2_less_iff [of "fexp x" "fexp y + 1"] by linarith

lemma fexp_double: "0 < x \<Longrightarrow> fexp (2 * x) = fexp x + 1"
  using fexp_bounds [of x]
  by (intro fexp_unique) (simp_all add: power_int_add)

lemma fexp_pow2 [simp]: "fexp (2 powi e) = e"
  by (rule fexp_unique) (simp_all add: pow2_less_iff)

section \<open>Rounding to \<open>p\<close> bits\<close>

abbreviation ulp :: "nat \<Rightarrow> rat \<Rightarrow> rat" where
  "ulp p x \<equiv> 2 powi (fexp x - int p + 1)"

lemma fl_pos: "0 < x \<Longrightarrow> fl p x = of_int (round_even (x / ulp p x)) * ulp p x"
  by (simp add: fl_def Let_def)

lemma fl_0 [simp]: "fl p 0 = 0"
  by (simp add: fl_def)

lemma pow2_split: "(2 :: rat) powi (a + b) = 2 powi a * 2 powi b"
  by (simp add: power_int_add)

lemma pow2_nat: "(2 :: rat) powi int n = of_int (2 ^ n)"
  by simp

text \<open>The significand of a positive number lies between two powers of two.\<close>

lemma significand_bounds:
  assumes "0 < x" and "0 < p"
  shows "of_int (2 ^ (p - 1)) \<le> x / ulp p x" and "x / ulp p x < of_int (2 ^ p)"
proof -
  have "2 powi fexp x = 2 powi (int (p - 1)) * ulp p x"
    unfolding pow2_split [symmetric] using assms(2) by (simp add: of_nat_diff)
  moreover have "2 powi (fexp x + 1) = 2 powi int p * ulp p x"
    unfolding pow2_split [symmetric] by (simp add: algebra_simps)
  ultimately show "of_int (2 ^ (p - 1)) \<le> x / ulp p x" "x / ulp p x < of_int (2 ^ p)"
    using fexp_bounds [OF assms(1)] by (simp_all only: pow2_nat pos_le_divide_eq pos_divide_less_eq
        zero_less_power_int zero_less_numeral)
qed

lemma fl_between:
  assumes "0 < x" and "0 < p"
  shows "2 powi fexp x \<le> fl p x" and "fl p x \<le> 2 powi (fexp x + 1)"
proof -
  have lo: "2 ^ (p - 1) \<le> round_even (x / ulp p x)"
    using round_even_mono [OF significand_bounds(1) [OF assms]] by (simp only: round_even_of_int)
  have hi: "round_even (x / ulp p x) \<le> 2 ^ p"
    using round_even_mono [OF less_imp_le [OF significand_bounds(2) [OF assms]]]
    by (simp only: round_even_of_int)
  have "2 powi fexp x = 2 powi (int (p - 1)) * ulp p x"
    unfolding pow2_split [symmetric] using assms(2) by (simp add: of_nat_diff)
  also have "\<dots> \<le> of_int (round_even (x / ulp p x)) * ulp p x"
    unfolding pow2_nat using lo by (intro mult_right_mono) (simp_all only: of_int_le_iff zero_le_power_int zero_le_numeral)
  finally show "2 powi fexp x \<le> fl p x" by (simp only: fl_pos [OF assms(1)])
  have "of_int (round_even (x / ulp p x)) * ulp p x \<le> 2 powi int p * ulp p x"
    unfolding pow2_nat using hi by (intro mult_right_mono) (simp_all only: of_int_le_iff zero_le_power_int zero_le_numeral)
  also have "\<dots> = 2 powi (fexp x + 1)"
    unfolding pow2_split [symmetric] by (simp add: algebra_simps)
  finally show "fl p x \<le> 2 powi (fexp x + 1)" by (simp only: fl_pos [OF assms(1)])
qed

lemma fl_mono_pos:
  assumes "0 < p" and "0 < x" and "x \<le> y"
  shows "fl p x \<le> fl p y"
proof -
  have y: "0 < y" using assms by linarith
  show ?thesis
  proof (cases "fexp x = fexp y")
    case True
    have "round_even (x / ulp p x) \<le> round_even (y / ulp p x)"
      using assms by (intro round_even_mono divide_right_mono) simp_all
    then show ?thesis
      using assms y True by (simp add: fl_pos mult_right_mono)
  next
    case False
    then have "fexp x + 1 \<le> fexp y" using fexp_mono [OF assms(2,3)] by simp
    then have "(2 :: rat) powi (fexp x + 1) \<le> 2 powi fexp y"
      by (intro power_int_increasing) simp_all
    with fl_between(2) [OF assms(2,1)] fl_between(1) [OF y assms(1)] show ?thesis by linarith
  qed
qed

lemma fl_nonneg: "0 < p \<Longrightarrow> 0 \<le> fl p x"
  using fl_between(1) [of x p] zero_less_power_int [of "2 :: rat" "fexp x"]
  by (cases "0 < x") (linarith, simp add: fl_def)

lemma fl_mono: "0 < p \<Longrightarrow> x \<le> y \<Longrightarrow> fl p x \<le> fl p y"
  using fl_mono_pos [of p x y] fl_nonneg [of p y] by (cases "0 < x") (auto simp: fl_def)

text \<open>A multiple of the unit in the last place is its own rounding.\<close>

lemma fl_exact:
  assumes "0 < x" and "x = of_int k * ulp p x"
  shows "fl p x = x"
proof -
  have "x / ulp p x = of_int k" using assms(2) by (simp add: field_simps)
  with assms show ?thesis by (simp add: fl_pos)
qed

lemma fl_pow2: "0 < p \<Longrightarrow> fl p (2 powi e) = 2 powi e"
proof -
  assume p: "0 < p"
  have "2 powi e = of_int (2 ^ (p - 1)) * ulp p (2 powi e)"
    unfolding pow2_nat [symmetric] pow2_split [symmetric] using p by (simp add: of_nat_diff)
  from fl_exact [OF _ this] show ?thesis by simp
qed

lemma fl_idem_pos:
  assumes "0 < p" and "0 < x"
  shows "fl p (fl p x) = fl p x"
proof (cases "fl p x = 2 powi (fexp x + 1)")
  case True
  then show ?thesis using assms fl_pow2 by simp
next
  case False
  have "0 < fl p x" using fl_between(1) [OF assms(2,1)] by (meson less_le_trans zero_less_power_int zero_less_numeral)
  moreover from this have "fexp (fl p x) = fexp x"
    using fl_between [OF assms(2,1)] False by (intro fexp_unique) simp_all
  ultimately show ?thesis
    using fl_pos [OF assms(2), of p] by (intro fl_exact [of _ "round_even (x / ulp p x)"]) simp_all
qed

lemma fl_idem: "0 < p \<Longrightarrow> fl p (fl p x) = fl p x"
  using fl_idem_pos by (cases "0 < x") (auto simp: fl_def)

lemma fl_error:
  assumes "0 < x"
  shows "\<bar>fl p x - x\<bar> \<le> x * 2 powi - int p"
proof -
  let ?u = "ulp p x"
  have u: "0 < ?u" by simp
  have "fl p x - x = (of_int (round_even (x / ?u)) - x / ?u) * ?u"
    using assms u by (simp add: fl_pos field_simps)
  then have "\<bar>fl p x - x\<bar> = \<bar>of_int (round_even (x / ?u)) - x / ?u\<bar> * ?u"
    using u by (simp only: abs_mult abs_of_pos)
  also have "\<dots> \<le> 1 / 2 * ?u" using u round_even_near by (intro mult_right_mono) simp_all
  also have "\<dots> = 2 powi fexp x * 2 powi - int p"
    by (simp add: power_int_add power_int_diff power_int_minus field_simps)
  also have "\<dots> \<le> x * 2 powi - int p"
    using fexp_bounds [OF assms] by (intro mult_right_mono) simp_all
  finally show ?thesis .
qed

lemma fl_double: "fl p (2 * x) = 2 * fl p x"
proof (cases "0 < x")
  case True
  have "ulp p (2 * x) = 2 * ulp p x"
    unfolding fexp_double [OF True] by (simp add: power_int_add power_int_diff)
  with True show ?thesis by (simp add: fl_pos)
qed (simp add: fl_def)

text \<open>Integers with at most \<open>p\<close> bits are exact.\<close>

lemma fl_of_nat:
  assumes "0 < p" and "n \<le> 2 ^ p"
  shows "fl p (of_nat n) = of_nat n"
proof (cases "n = 0 \<or> n = 2 ^ p")
  case True
  then show ?thesis using fl_pow2 [OF assms(1), of "int p"] by auto
next
  case False
  let ?x = "of_nat n :: rat"
  have x: "0 < ?x" using False by simp
  have n: "n < 2 ^ p" using False assms(2) by simp
  have "2 powi fexp ?x \<le> ?x" using fexp_bounds [OF x] by simp
  also have "?x < of_nat (2 ^ p)" using n by (simp only: of_nat_less_iff)
  also have "\<dots> = (2 :: rat) powi int p" by simp
  finally have e: "fexp ?x - int p + 1 \<le> 0" unfolding pow2_less_iff by simp
  then have "?x = of_int (int n * 2 ^ nat (int p - 1 - fexp ?x)) * ulp p ?x"
  proof -
    have "(2 :: rat) ^ nat (int p - 1 - fexp ?x) = 2 powi (int p - 1 - fexp ?x)"
      using e by (simp add: power_int_def)
    then have "(2 :: rat) ^ nat (int p - 1 - fexp ?x) * ulp p ?x = 1"
      by (simp flip: power_int_add)
    then show ?thesis by (simp add: mult.assoc)
  qed
  then show ?thesis by (rule fl_exact [OF x])
qed

lemma fl_numeral [simp]:
  "0 < p \<Longrightarrow> (numeral k :: nat) \<le> 2 ^ p \<Longrightarrow> fl p (numeral k) = numeral k"
  using fl_of_nat [of p "numeral k"] by simp

lemma fl_one [simp]: "0 < p \<Longrightarrow> fl p 1 = 1"
  using fl_of_nat [of p 1] by simp

section \<open>The laws the components use\<close>

locale float_rounding =
  fixes rnd :: "rat \<Rightarrow> rat" and eps :: rat
  assumes rnd_mono: "x \<le> y \<Longrightarrow> rnd x \<le> rnd y"
    and rnd_0: "rnd 0 = 0"
    and rnd_idem: "rnd (rnd x) = rnd x"
    and rnd_double: "rnd (2 * x) = 2 * rnd x"
    and rnd_near: "0 \<le> x \<Longrightarrow> \<bar>rnd x - x\<bar> \<le> eps * x"
    and eps_nonneg: "0 \<le> eps"
begin

lemma rnd_nonneg: "0 \<le> x \<Longrightarrow> 0 \<le> rnd x"
  using rnd_mono [of 0 x] by (simp add: rnd_0)

lemma rnd_le: "x \<le> y \<Longrightarrow> rnd y = y \<Longrightarrow> rnd x \<le> y"
  using rnd_mono [of x y] by simp

lemma rnd_ge: "y \<le> x \<Longrightarrow> rnd y = y \<Longrightarrow> y \<le> rnd x"
  using rnd_mono [of y x] by simp

lemma rnd_upper: "0 \<le> x \<Longrightarrow> rnd x \<le> (1 + eps) * x"
  using rnd_near [of x] by (simp add: abs_le_iff algebra_simps)

lemma rnd_lower: "0 \<le> x \<Longrightarrow> (1 - eps) * x \<le> rnd x"
  using rnd_near [of x] by (simp add: abs_le_iff algebra_simps)

text \<open>Rounding a number below a bound errs by at most the relative error of the bound.\<close>

lemma rnd_upper_cap: "0 \<le> x \<Longrightarrow> x \<le> cap \<Longrightarrow> rnd x \<le> x + eps * cap"
  using rnd_near [of x] mult_left_mono [of x cap eps] eps_nonneg by (simp add: abs_le_iff)

end

lemma fl_near: "0 \<le> x \<Longrightarrow> \<bar>fl p x - x\<bar> \<le> 2 powi - int p * x"
  using fl_error [of x p] by (cases "x = 0") (simp_all add: mult.commute)

definition f64_eps :: rat where
  "f64_eps = 2 powi - 53"

definition f32_eps :: rat where
  "f32_eps = 2 powi - 24"

interpretation f64: float_rounding "fl 53" f64_eps
proof
  show "\<bar>fl 53 x - x\<bar> \<le> f64_eps * x" if "0 \<le> x" for x
    using fl_near [OF that, of 53] by (simp add: f64_eps_def)
qed (simp_all add: fl_mono fl_idem fl_double f64_eps_def)

interpretation f32: float_rounding "fl 24" f32_eps
proof
  show "\<bar>fl 24 x - x\<bar> \<le> f32_eps * x" if "0 \<le> x" for x
    using fl_near [OF that, of 24] by (simp add: f32_eps_def)
qed (simp_all add: fl_mono fl_idem fl_double f32_eps_def)

end
