(* ===== verification/Waf_Structure.thy ===== *)
theory Waf_Structure
  imports Rust_Text Ieee
begin

text \<open>
  The structural checks (\<open>src/waf/structure.rs\<close>): nesting depth, malicious agents, density
  of special characters, repeated parameters. Each loop of the code is a recursion with the loop's
  variables as arguments, and each check is proved equal to a description without the loop. The
  Unicode tables and the \<open>f32\<close> arithmetic come from their own theories.
\<close>

section \<open>Operations\<close>

definition is_open :: "uchar \<Rightarrow> bool" where
  "is_open c \<longleftrightarrow> c = 123 \<or> c = 91"

definition is_close :: "uchar \<Rightarrow> bool" where
  "is_close c \<longleftrightarrow> c = 125 \<or> c = 93"

fun depth_loop :: "nat \<Rightarrow> nat \<Rightarrow> ustr \<Rightarrow> bool" where
  "depth_loop max_depth current_depth [] = True"
| "depth_loop max_depth current_depth (c # s) =
     (if is_open c then
        (if max_depth < current_depth + 1 then False
         else depth_loop max_depth (current_depth + 1) s)
      else if is_close c then
        depth_loop max_depth (if 0 < current_depth then current_depth - 1 else current_depth) s
      else depth_loop max_depth current_depth s)"

definition check_json_depth :: "ustr \<Rightarrow> nat \<Rightarrow> bool" where
  "check_json_depth input max_depth = depth_loop max_depth 0 input"

definition bot_names :: "ustr list" where
  "bot_names = [lit ''sqlmap'', lit ''nikto'', lit ''nmap'', lit ''masscan'', lit ''dirbuster'',
     lit ''gobuster'']"

definition is_malicious_bot :: "unicode \<Rightarrow> ustr \<Rightarrow> bool" where
  "is_malicious_bot u user_agent =
     (let ua = u_lowercase u user_agent in list_ex (contains ua) bot_names)"

definition special :: "unicode \<Rightarrow> uchar \<Rightarrow> bool" where
  "special u c \<longleftrightarrow> \<not> u_alphanumeric u c \<and> \<not> is_whitespace c"

definition f32_of_nat :: "nat \<Rightarrow> rat" where
  "f32_of_nat n = fl 24 (of_nat n)"

definition f32_div :: "rat \<Rightarrow> rat \<Rightarrow> rat" where
  "f32_div x y = fl 24 (x / y)"

definition is_high_density :: "unicode \<Rightarrow> ustr \<Rightarrow> rat \<Rightarrow> bool" where
  "is_high_density u input threshold =
     (if input = [] then False
      else
        let special_chars = length (filter (special u) input);
            density = f32_div (f32_of_nat special_chars) (f32_of_nat (str_len input))
        in threshold < density)"

fun pollution_loop :: "ustr set \<Rightarrow> ustr list \<Rightarrow> bool" where
  "pollution_loop seen_keys [] = False"
| "pollution_loop seen_keys (pair # pairs) =
     (let key = hd (split_on 61 pair)
      in if key = [] then pollution_loop seen_keys pairs
         else if key \<in> seen_keys then True
         else pollution_loop (insert key seen_keys) pairs)"

definition has_parameter_pollution :: "ustr \<Rightarrow> bool" where
  "has_parameter_pollution input = pollution_loop {} (split_on 38 input)"

text \<open>The threshold the program passes: the literal \<open>0.4\<close> at single precision.\<close>

definition density_threshold :: rat where
  "density_threshold = fl 24 (2 / 5)"

section \<open>Nesting\<close>

text \<open>The excess of openings over closings in a piece of text.\<close>

definition excess :: "ustr \<Rightarrow> int" where
  "excess s = int (length (filter is_open s)) - int (length (filter is_close s))"

lemma excess_simps [simp]:
  "excess [] = 0"
  "excess (c # s) = (if is_open c then 1 else if is_close c then -1 else 0) + excess s"
  by (auto simp: excess_def is_open_def is_close_def)

lemma excess_append [simp]: "excess (a @ b) = excess a + excess b"
  by (simp add: excess_def)


lemma all_prefix_Cons: "(\<forall>a. prefix a (c # s) \<longrightarrow> P a) \<longleftrightarrow> P [] \<and> (\<forall>a. prefix a s \<longrightarrow> P (c # a))"
  by (metis Nil_prefix prefix_Cons)

lemma all_sublist_Cons:
  "(\<forall>b. sublist b (c # s) \<longrightarrow> P b) \<longleftrightarrow> (\<forall>a. prefix a (c # s) \<longrightarrow> P a) \<and> (\<forall>b. sublist b s \<longrightarrow> P b)"
  by (metis sublist_Cons_right)

lemma depth_loop_iff:
  "d \<le> m \<Longrightarrow> depth_loop m d s \<longleftrightarrow>
     (\<forall>a. prefix a s \<longrightarrow> int d + excess a \<le> int m) \<and> (\<forall>b. sublist b s \<longrightarrow> excess b \<le> int m)"
proof (induction s arbitrary: d)
  case Nil
  then show ?case by simp
next
  case (Cons c s)
  let ?e = "(if is_open c then 1 else if is_close c then -1 else 0) :: int"
  have pre: "(\<forall>a. prefix a (c # s) \<longrightarrow> int d + excess a \<le> int m) \<longleftrightarrow>
      (\<forall>a. prefix a s \<longrightarrow> int d + ?e + excess a \<le> int m)"
    using Cons.prems by (simp add: all_prefix_Cons algebra_simps)
  have seg: "(\<forall>b. sublist b (c # s) \<longrightarrow> excess b \<le> int m) \<longleftrightarrow>
      (\<forall>a. prefix a s \<longrightarrow> ?e + excess a \<le> int m) \<and> (\<forall>b. sublist b s \<longrightarrow> excess b \<le> int m)"
    by (simp only: all_sublist_Cons all_prefix_Cons excess_simps) simp
  have "\<forall>a. prefix a s \<longrightarrow> int d + ?e + excess a \<le> int m \<Longrightarrow>
      \<forall>a. prefix a s \<longrightarrow> ?e + excess a \<le> int m"
    by (smt (verit) of_nat_0_le_iff)
  with pre seg have split: "((\<forall>a. prefix a (c # s) \<longrightarrow> int d + excess a \<le> int m) \<and>
      (\<forall>b. sublist b (c # s) \<longrightarrow> excess b \<le> int m)) \<longleftrightarrow>
      (\<forall>a. prefix a s \<longrightarrow> int d + ?e + excess a \<le> int m) \<and>
      (\<forall>b. sublist b s \<longrightarrow> excess b \<le> int m)" (is "_ \<longleftrightarrow> ?pre \<and> ?seg")
    by blast
  have first: "?pre \<Longrightarrow> int d + ?e \<le> int m"
    by (drule spec [of _ "[]"]) simp
  have sub: "?seg \<Longrightarrow> \<forall>a. prefix a s \<longrightarrow> excess a \<le> int m" by blast
  show ?case unfolding split
  proof (cases "is_close c \<and> d = 0")
    case True
    then have "\<not> is_open c" by (auto simp: is_open_def is_close_def)
    then have e: "int d + ?e + excess a \<le> int m" if "excess a \<le> int m" for a
      using True that by simp
    have "?pre" if ?seg using sub [OF that] e by blast
    moreover have "depth_loop m d (c # s) = depth_loop m 0 s" using True \<open>\<not> is_open c\<close> by simp
    then have "depth_loop m d (c # s) \<longleftrightarrow> ?seg" using Cons.IH [of 0] sub by auto
    ultimately show "depth_loop m d (c # s) \<longleftrightarrow> ?pre \<and> ?seg" by blast
  next
    case False
    show "depth_loop m d (c # s) \<longleftrightarrow> ?pre \<and> ?seg"
    proof (cases "int d + ?e \<le> int m")
      case True
      with False have "int (nat (int d + ?e)) = int d + ?e" by (auto simp: is_open_def is_close_def)
      moreover have "depth_loop m d (c # s) = depth_loop m (nat (int d + ?e)) s"
        using True False by (auto simp: nat_diff_distrib nat_add_distrib)
      ultimately show ?thesis using Cons.IH [of "nat (int d + ?e)"] True by simp
    next
      case over: False
      with Cons.prems have "\<not> depth_loop m d (c # s)" by (auto split: if_splits)
      with first over show ?thesis by blast
    qed
  qed
qed

section \<open>Parameters\<close>

definition param_keys :: "ustr \<Rightarrow> ustr list" where
  "param_keys input = filter (\<lambda>k. k \<noteq> []) (map (takeWhile (\<lambda>c. c \<noteq> 61)) (split_on 38 input))"

lemma pollution_loop_iff:
  "pollution_loop seen ps \<longleftrightarrow>
     (let ks = filter (\<lambda>k. k \<noteq> []) (map (takeWhile (\<lambda>c. c \<noteq> 61)) ps)
      in \<not> distinct ks \<or> set ks \<inter> seen \<noteq> {})"
  by (induction ps arbitrary: seen) (auto simp: Let_def hd_split_on)

lemma pollution_iff: "has_parameter_pollution s \<longleftrightarrow> \<not> distinct (param_keys s)"
  by (simp add: has_parameter_pollution_def pollution_loop_iff param_keys_def Let_def)

text \<open>A form as a client encodes it.\<close>

definition encode_params :: "(ustr \<times> ustr) list \<Rightarrow> ustr" where
  "encode_params ps = join_with 38 (map (\<lambda>(k, v). k @ [61] @ v) ps)"

lemma param_keys_encode:
  assumes "\<forall>(k, v) \<in> set ps. k \<noteq> [] \<and> 61 \<notin> set k \<and> 38 \<notin> set k \<and> 38 \<notin> set v"
  shows "param_keys (encode_params ps) = map fst ps"
proof (cases "ps = []")
  case False
  have "split_on 38 (encode_params ps) = map (\<lambda>(k, v). k @ [61] @ v) ps"
    unfolding encode_params_def using False assms by (intro split_join) auto
  moreover have "takeWhile (\<lambda>c. c \<noteq> 61) (k @ [61] @ v) = k" if "61 \<notin> set k" for k v :: ustr
    using that by (induction k) auto
  ultimately have "map (takeWhile (\<lambda>c. c \<noteq> 61)) (split_on 38 (encode_params ps)) = map fst ps"
    using assms by auto
  with assms show ?thesis by (simp add: param_keys_def) (rule filter_True, auto)
qed (simp add: param_keys_def encode_params_def)

section \<open>Density\<close>

lemma fexp_quarter: "1 / 4 \<le> x \<Longrightarrow> x < 1 / 2 \<Longrightarrow> fexp x = - 2"
  by (rule fexp_unique) (simp_all add: power_int_minus)

lemma density_threshold_value: "density_threshold = 13421773 / 2 ^ 25"
proof -
  have e: "fexp (2 / 5) = - 2" by (rule fexp_quarter) simp_all
  have q: "(2 / 5 :: rat) / 2 powi (- 2 - int 24 + 1) = 67108864 / 5"
    by (simp add: power_int_def power_one_over)
  have "\<lfloor>67108864 / 5 :: rat\<rfloor> = 13421772" by (simp add: floor_eq_iff)
  then have r: "round_even (67108864 / 5) = 13421773" by (simp add: round_even_def)
  have "density_threshold = of_int (round_even (2 / 5 / 2 powi (- 2 - int 24 + 1))) * 2 powi (- 2 - int 24 + 1)"
    unfolding density_threshold_def using fl_pos [of "2 / 5" 24] by (simp add: e)
  then show ?thesis unfolding q r by (simp add: power_int_def power_one_over)
qed

text \<open>The next representable value after the threshold.\<close>

lemma fl_above_threshold: "fl 24 (13421774 / 2 ^ 25) = 13421774 / 2 ^ 25"
proof (rule fl_exact [where k = 13421774])
  have "fexp (13421774 / 2 ^ 25) = - 2" by (rule fexp_quarter) simp_all
  then show "(13421774 / 2 ^ 25 :: rat) = of_int 13421774 * 2 powi (fexp (13421774 / 2 ^ 25 :: rat) - int 24 + 1)"
    by (simp add: power_int_def power_one_over)
qed simp

text \<open>Up to four million bytes single precision decides the ratio two fifths exactly.\<close>

lemma density_exact:
  assumes "0 < n" and "n \<le> 2 ^ 22" and "k \<le> n"
  shows "density_threshold < f32_div (f32_of_nat k) (f32_of_nat n) \<longleftrightarrow> 2 * n < 5 * k"
proof -
  have n24: "n \<le> 2 ^ 24" "k \<le> 2 ^ 24" using assms by simp_all
  then have d: "f32_div (f32_of_nat k) (f32_of_nat n) = fl 24 (of_nat k / of_nat n)"
    by (simp add: f32_div_def f32_of_nat_def fl_of_nat)
  have n: "0 < (of_nat n :: rat)" "(of_nat n :: rat) \<le> 4194304"
    using assms(1) of_nat_mono [OF assms(2), where 'a = rat] by simp_all
  show ?thesis
  proof (cases "2 * n < 5 * k")
    case True
    then have "2 * n + 1 \<le> 5 * k" by simp
    then have "(2 * of_nat n + 1 :: rat) \<le> 5 * of_nat k"
      using of_nat_mono [of "2 * n + 1" "5 * k", where 'a = rat] by simp
    then have "13421774 / 2 ^ 25 \<le> (of_nat k / of_nat n :: rat)"
      using n by (simp add: field_simps)
    then have "fl 24 (13421774 / 2 ^ 25) \<le> fl 24 (of_nat k / of_nat n)"
      by (intro fl_mono) simp_all
    then have "13421774 / 2 ^ 25 \<le> fl 24 (of_nat k / of_nat n)" unfolding fl_above_threshold .
    then have "density_threshold < fl 24 (of_nat k / of_nat n)"
      unfolding density_threshold_value by (rule order.strict_trans2 [rotated]) simp
    with True show ?thesis by (simp add: d)
  next
    case False
    then have "5 * k \<le> 2 * n" by simp
    then have "(5 * of_nat k :: rat) \<le> 2 * of_nat n"
      using of_nat_mono [of "5 * k" "2 * n", where 'a = rat] by simp
    then have "(of_nat k / of_nat n :: rat) \<le> 2 / 5" using n(1) by (simp add: field_simps)
    then have "fl 24 (of_nat k / of_nat n) \<le> density_threshold"
      unfolding density_threshold_def by (intro fl_mono) simp_all
    with False show ?thesis by (simp add: d)
  qed
qed

lemma high_density_iff:
  assumes "str_len s \<le> 2 ^ 22"
  shows "is_high_density u s density_threshold \<longleftrightarrow> 2 * str_len s < 5 * length (filter (special u) s)"
proof (cases "s = []")
  case False
  have "0 < str_len s" using False length_le_str_len [of s] by (cases s) auto
  moreover have "length (filter (special u) s) \<le> str_len s"
    using length_filter_le [of "special u" s] length_le_str_len [of s] by linarith
  ultimately show ?thesis
    using density_exact [of "str_len s"] assms False by (simp add: is_high_density_def Let_def)
qed (simp add: is_high_density_def)

section \<open>Properties\<close>

text \<open>
  C30: the depth check is exact. A body is accepted exactly when no piece of it, wherever it starts
  and ends, opens more than the allowed number of brackets beyond those it closes; closing
  brackets sent in front cannot buy depth, because the counter never goes below zero.
\<close>

theorem json_depth_exact:
  "check_json_depth input max_depth \<longleftrightarrow>
     (\<forall>b. sublist b input \<longrightarrow>
        length (filter is_open b) \<le> length (filter is_close b) + max_depth)"
proof -
  have e: "excess b \<le> int max_depth \<longleftrightarrow>
      length (filter is_open b) \<le> length (filter is_close b) + max_depth" for b
    by (simp add: excess_def) linarith
  have "check_json_depth input max_depth \<longleftrightarrow> (\<forall>b. sublist b input \<longrightarrow> excess b \<le> int max_depth)"
    unfolding check_json_depth_def using depth_loop_iff [of 0 max_depth input] by auto
  then show ?thesis unfolding e .
qed

theorem json_depth_exact_witness:
  "\<not> (\<forall>b. sublist b (lit ''}}{[{'') \<longrightarrow>
        length (filter is_open b) \<le> length (filter is_close b) + 2)"
proof -
  have "\<not> check_json_depth (lit ''}}{[{'') 2" by code_simp
  then show ?thesis using json_depth_exact [of "lit ''}}{[{''" 2] by blast
qed

text \<open>
  Pollution is exactly a repeated key. On the encoding of a form, whose keys are not empty and
  contain neither separator, the check answers true exactly when two parameters have the same key.
\<close>

theorem pollution_exact:
  assumes "\<forall>(k, v) \<in> set ps. k \<noteq> [] \<and> 61 \<notin> set k \<and> 38 \<notin> set k \<and> 38 \<notin> set v"
  shows "has_parameter_pollution (encode_params ps) \<longleftrightarrow> \<not> distinct (map fst ps)"
  unfolding pollution_iff param_keys_encode [OF assms] ..

theorem pollution_exact_witness:
  "has_parameter_pollution (encode_params [(lit ''id'', lit ''1''), (lit ''q'', lit ''a=b''), (lit ''id'', [])])"
  by (subst pollution_exact) simp_all

text \<open>
  The density check is an exact comparison. Despite the single precision arithmetic, for every
  text of at most four mebibytes the check with the program's threshold answers true exactly when
  five times the number of special characters exceeds twice the number of bytes.
\<close>

theorem density_check_exact:
  assumes "str_len s \<le> 2 ^ 22"
  shows "is_high_density u s density_threshold \<longleftrightarrow> 2 * str_len s < 5 * length (filter (special u) s)"
  by (rule high_density_iff [OF assms])

theorem density_check_exact_witness:
  "\<not> is_high_density ascii_tables (lit ''ab=c&'') density_threshold
   \<and> is_high_density ascii_tables (lit ''a=c&d!'') density_threshold"
  by (subst (1 2) density_check_exact)
    (simp_all add: special_def utf8_char_def ascii_defs is_whitespace_def)

text \<open>
  For longer texts it is not. A body of 9586982 bytes, within the default limit on bodies, with
  3834793 special characters has more than two fifths of them, but the quotient rounds to the
  threshold itself and the body is not reported.
\<close>

theorem density_check_misjudges:
  assumes "str_len s = 9586982" and "length (filter (special u) s) = 3834793"
  shows "2 * str_len s < 5 * length (filter (special u) s) \<and> \<not> is_high_density u s density_threshold"
proof -
  have e: "fexp (3834793 / 9586982) = - 2" by (rule fexp_quarter) simp_all
  have q: "(3834793 / 9586982 :: rat) / 2 powi (- 2 - int 24 + 1) = 3834793 * 2 ^ 25 / 9586982"
    by (simp add: power_int_def power_one_over)
  have "\<lfloor>3834793 * 2 ^ 25 / 9586982 :: rat\<rfloor> = 13421773" by (simp add: floor_eq_iff)
  then have r: "round_even (3834793 * 2 ^ 25 / 9586982) = 13421773" by (simp add: round_even_def)
  have "fl 24 (3834793 / 9586982)
      = of_int (round_even (3834793 / 9586982 / 2 powi (- 2 - int 24 + 1))) * 2 powi (- 2 - int 24 + 1)"
    using fl_pos [of "3834793 / 9586982" 24] by (simp add: e)
  then have "fl 24 (3834793 / 9586982) = density_threshold"
    unfolding q r by (simp add: density_threshold_value power_int_def power_one_over)
  moreover have "fl 24 (of_nat 3834793) = of_nat 3834793" "fl 24 (of_nat 9586982) = of_nat 9586982"
    by (rule fl_of_nat; simp)+
  then have "f32_div (f32_of_nat 3834793) (f32_of_nat 9586982) = fl 24 (3834793 / 9586982)"
    by (simp only: f32_div_def f32_of_nat_def of_nat_numeral)
  ultimately have "\<not> is_high_density u s density_threshold"
    unfolding is_high_density_def Let_def assms by simp
  then show ?thesis unfolding assms by simp
qed

lemma replicate_text:
  "is_ascii c \<Longrightarrow> str_len (replicate n c) = n"
  by (induction n) (simp_all add: utf8_char_def is_ascii_def)

theorem density_check_misjudges_witness:
  "\<exists>s. 2 * str_len s < 5 * length (filter (special ascii_tables) s) \<and> \<not> is_high_density ascii_tables s density_threshold"
proof -
  define s where "s = replicate (3834793 :: nat) (33 :: nat) @ replicate 5752189 97"
  have "str_len s = str_len (replicate 3834793 33) + str_len (replicate 5752189 97)"
    unfolding s_def str_len_def as_bytes_def map_append concat_append length_append ..
  also have "\<dots> = 9586982" by (simp add: replicate_text is_ascii_def)
  finally have "str_len s = 9586982" .
  moreover have "special ascii_tables 33" "\<not> special ascii_tables 97" by code_simp+
  then have "length (filter (special ascii_tables) s) = 3834793"
    unfolding s_def filter_append filter_replicate by simp
  ultimately show ?thesis using density_check_misjudges by blast
qed

text \<open>
  Ordinary JSON is dense. The smallest object with one member is refused as an obfuscated
  payload; so is every JSON text in which quotes, braces, colons and commas make up more than two
  fifths of the bytes.
\<close>

theorem small_json_refused:
  assumes "unicode_tables u"
  shows "is_high_density u (lit ''{'' @ [34] @ lit ''a'' @ [34] @ lit '':1}'') density_threshold"
  using assms
  by (subst high_density_iff)
    (simp_all add: special_def utf8_char_def unicode_tables.alphanumeric_ascii ascii_defs is_whitespace_def)

theorem small_json_refused_witness:
  "is_high_density ascii_tables (lit ''{'' @ [34] @ lit ''a'' @ [34] @ lit '':1}'') density_threshold"
  by (rule small_json_refused [OF ascii_uc.unicode_tables_axioms])

text \<open>
  The agent check is exact on ASCII agents: it answers true exactly when one of the six tool
  names occurs in any letter case.
\<close>

theorem bot_check_exact:
  assumes "unicode_tables u" and "\<forall>c \<in> set ua. is_ascii c"
  shows "is_malicious_bot u ua \<longleftrightarrow> (\<exists>n \<in> set bot_names. occurs_nocase n ua)"
proof -
  have "u_lowercase u ua = map ascii_lower ua"
    using unicode_tables.lowercase_ascii [OF assms(1)] assms(2) by blast
  moreover have "\<forall>n \<in> set bot_names. map ascii_lower n = n" by (simp add: bot_names_def ascii_defs)
  ultimately show ?thesis
    by (simp add: is_malicious_bot_def list_ex_iff occurs_nocase_def to_ascii_lowercase_def)
qed

theorem bot_check_exact_witness: "is_malicious_bot ascii_tables (lit ''Mozilla SQLMap/1.7'')"
proof -
  have "occurs_nocase (lit ''sqlmap'') (lit ''Mozilla SQLMap/1.7'')" by code_simp
  then show ?thesis
    using bot_check_exact [OF ascii_uc.unicode_tables_axioms, of "lit ''Mozilla SQLMap/1.7''"]
    by (auto simp: bot_names_def is_ascii_def)
qed

end
