(* ===== verification/Waf_File.thy ===== *)
theory Waf_File
  imports Rust_Text
begin

text \<open>
  File signatures (\<open>src/waf/file.rs\<close>): executables and scripts are refused whatever their
  declared type, and for five declared types the body has to start with the type's signature.
  Bodies of fewer than four bytes pass both checks.
\<close>

section \<open>Operations\<close>

text \<open>\<open>starts_with\<close> on bytes is \<^const>\<open>prefix\<close>.\<close>

definition check_magic_number :: "byte list \<Rightarrow> string + unit" where
  "check_magic_number body =
     (if length body < 4 then Inr ()
      else if prefix (blit ''MZ'') body then Inl ''Executable file upload blocked (.exe/.dll)''
      else if prefix [0x7F, 0x45, 0x4C, 0x46] body then Inl ''ELF executable upload blocked''
      else if prefix (blit ''#!/'') body \<or> prefix (blit ''<?php'') body
      then Inl ''Script file upload blocked''
      else Inr ())"

definition is_allowed_file_type :: "ustr \<Rightarrow> byte list \<Rightarrow> bool" where
  "is_allowed_file_type content_type body =
     (if length body < 4 then True
      else if content_type = lit ''image/jpeg'' then prefix [0xFF, 0xD8, 0xFF] body
      else if content_type = lit ''image/png'' then prefix [0x89, 0x50, 0x4E, 0x47] body
      else if content_type = lit ''image/gif'' then prefix (blit ''GIF8'') body
      else if content_type = lit ''application/pdf'' then prefix (blit ''%PDF'') body
      else if content_type = lit ''application/zip'' then prefix (blit ''PK'' @ [3, 4]) body
      else True)"

section \<open>Signatures\<close>

definition signature_of :: "ustr \<rightharpoonup> byte list" where
  "signature_of = map_of
     [(lit ''image/jpeg'', [0xFF, 0xD8, 0xFF]), (lit ''image/png'', [0x89, 0x50, 0x4E, 0x47]),
      (lit ''image/gif'', blit ''GIF8''), (lit ''application/pdf'', blit ''%PDF''),
      (lit ''application/zip'', blit ''PK'' @ [3, 4])]"

definition blocked_signatures :: "byte list list" where
  "blocked_signatures = [blit ''MZ'', [0x7F, 0x45, 0x4C, 0x46], blit ''#!/'', blit ''<?php'']"

lemma prefixes_comparable: "prefix a s \<Longrightarrow> prefix b s \<Longrightarrow> prefix a b \<or> prefix b a"
  by (rule prefix_same_cases)

lemma allowed_iff:
  "is_allowed_file_type ct body \<longleftrightarrow>
     length body < 4 \<or> (\<forall>sig. signature_of ct = Some sig \<longrightarrow> prefix sig body)"
  by (simp add: is_allowed_file_type_def signature_of_def)

lemma magic_iff:
  "check_magic_number body = Inr () \<longleftrightarrow>
     length body < 4 \<or> (\<forall>sig \<in> set blocked_signatures. \<not> prefix sig body)"
  by (auto simp: check_magic_number_def blocked_signatures_def)

section \<open>Properties\<close>

text \<open>
  The two file checks together. A body of at least four bytes that passes both starts with no
  blocked signature, and if its declared type is one of the five known ones it starts with the
  signature of that type and of no other.
\<close>

theorem accepted_file_is_what_it_says:
  assumes "check_magic_number body = Inr ()" and "is_allowed_file_type ct body"
    and "4 \<le> length body"
  shows "(\<forall>sig \<in> set blocked_signatures. \<not> prefix sig body) \<and>
     (\<forall>sig. signature_of ct = Some sig \<longrightarrow> prefix sig body \<and>
        (\<forall>ct' sig'. signature_of ct' = Some sig' \<and> prefix sig' body \<longrightarrow> ct' = ct))"
proof -
  have comp: "ct' = ct" if "signature_of ct = Some a" "signature_of ct' = Some b"
    "prefix a b \<or> prefix b a" for ct' a b
    using that by (auto simp: signature_of_def split: if_splits)
  have "signature_of ct = Some sig \<Longrightarrow> prefix sig body" for sig
    using assms(2,3) by (simp add: allowed_iff)
  moreover have "\<forall>sig \<in> set blocked_signatures. \<not> prefix sig body"
    using assms(1,3) by (simp add: magic_iff)
  ultimately show ?thesis using comp prefixes_comparable by metis
qed

theorem accepted_file_is_what_it_says_witness:
  "prefix (blit ''GIF8'') (blit ''GIF89a'')
   \<and> list_all (\<lambda>sig. \<not> prefix sig (blit ''GIF89a'')) blocked_signatures"
proof -
  have "check_magic_number (blit ''GIF89a'') = Inr ()" "is_allowed_file_type (lit ''image/gif'') (blit ''GIF89a'')"
    "4 \<le> length (blit ''GIF89a'')" "signature_of (lit ''image/gif'') = Some (blit ''GIF8'')"
    by code_simp+
  then show ?thesis using accepted_file_is_what_it_says unfolding list_all_iff by blast
qed

end
