(* ===== verification/Waf_Dlp.thy ===== *)
theory Waf_Dlp
  imports Languages
begin

text \<open>
  Masking of addresses and card numbers (\<open>src/waf/dlp.rs\<close>). The two expressions are terms,
  \<open>replace_all\<close> is built on the iteration over matches that the regex engine provides. The
  lemmas on locality (what a match depends on beyond the text it takes) carry the absence of
  matches from the input's gaps to the output.
\<close>

section \<open>Operations\<close>

definition letter_ranges :: "(uchar \<times> uchar) list" where
  "letter_ranges = [(97, 122), (65, 90)]"

definition local_cls :: cls where
  "local_cls = Ranges (letter_ranges @ [(48, 57), (46, 46), (95, 95), (37, 37), (43, 43), (45, 45)])"

definition domain_cls :: cls where
  "domain_cls = Ranges (letter_ranges @ [(48, 57), (46, 46), (45, 45)])"

definition email_re :: rx where
  "email_re = seq_of [some1 (Cls local_cls), chr 64, some1 (Cls domain_cls), chr 46,
     at_least 2 (Cls (Ranges letter_ranges))]"

definition card_re :: rx where
  "card_re = seq_of
     [WordB, between 13 16 (Seq (Cls Digit_cls) (many_lazy (Cls (Ranges [(32, 32), (45, 45)])))), WordB]"

text \<open>\<open>Regex::replace_all\<close> with a function of the match.\<close>

definition replace_all :: "rx_engine \<Rightarrow> rx \<Rightarrow> (ustr \<Rightarrow> ustr) \<Rightarrow> ustr \<Rightarrow> ustr" where
  "replace_all E r f s =
     (case find_iter E r s of (ms, rest) \<Rightarrow> concat (map (\<lambda>(gap, m). gap @ f m) ms) @ rest)"

definition mask_email :: "ustr \<Rightarrow> ustr" where
  "mask_email full =
     (if 64 \<in> set full then lit ''****'' @ dropWhile (\<lambda>c. c \<noteq> 64) full else full)"

definition card_mask :: ustr where
  "card_mask = lit ''****-****-****-****''"

definition mask_sensitive_info :: "rx_engine \<Rightarrow> ustr \<Rightarrow> ustr" where
  "mask_sensitive_info E input =
     (let masked = replace_all E email_re mask_email input
      in replace_all E card_re (\<lambda>_. card_mask) masked)"

section \<open>What a match depends on\<close>

definition first_opt :: "'a list \<Rightarrow> 'a option" where
  "first_opt s = (case s of [] \<Rightarrow> None | c # _ \<Rightarrow> Some c)"

lemma first_opt_simps [simp]:
  "first_opt [] = None" "first_opt (c # s) = Some c"
  "v \<noteq> [] \<Longrightarrow> first_opt (v @ t) = Some (hd v)"
  by (cases v; simp add: first_opt_def)+

lemma at_boundary_char:
  "at_boundary u dec_char (p, s) \<longleftrightarrow> word_opt u p \<noteq> word_opt u (first_opt s)"
  by (cases s) (simp_all add: at_boundary_def)

text \<open>A match sees of the text after it only whether it starts with a word character.\<close>

lemma match_after:
  "rx_match u dec_char r x y \<Longrightarrow> snd y = v @ t \<Longrightarrow> word_opt u (first_opt t) = word_opt u (first_opt t') \<Longrightarrow>
     \<exists>w. snd x = w @ v @ t \<and> rx_match u dec_char r (fst x, w @ v @ t') (fst y, v @ t')"
proof (induction arbitrary: v rule: rx_match.induct)
  case (m_cls s c s' k p)
  then have "s = [c] @ v @ t" by (cases s) auto
  with m_cls show ?case by (intro exI [of _ "[c]"]) simp
next
  case (m_seq r1 x y r2 z)
  then obtain w2 where w2: "snd y = w2 @ v @ t"
    "rx_match u dec_char r2 (fst y, w2 @ v @ t') (fst z, v @ t')" by blast
  with m_seq.IH(1) [of "w2 @ v"] m_seq.prems obtain w1 where "snd x = w1 @ w2 @ v @ t"
    "rx_match u dec_char r1 (fst x, w1 @ w2 @ v @ t') (fst y, w2 @ v @ t')" by auto
  with w2 show ?case by (intro exI [of _ "w1 @ w2"]) (auto intro: rx_match.m_seq)
next
  case (m_star r x y g z)
  then obtain w2 where w2: "snd y = w2 @ v @ t"
    "rx_match u dec_char (Star g r) (fst y, w2 @ v @ t') (fst z, v @ t')" by blast
  with m_star.IH(1) [of "w2 @ v"] m_star.prems obtain w1 where "snd x = w1 @ w2 @ v @ t"
    "rx_match u dec_char r (fst x, w1 @ w2 @ v @ t') (fst y, w2 @ v @ t')" by auto
  with w2 show ?case by (intro exI [of _ "w1 @ w2"]) (auto intro: rx_match.m_star)
next
  case (m_wordb x)
  have "at_boundary u dec_char (fst x, v @ t')"
    using m_wordb by (cases x; cases v) (auto simp: at_boundary_char)
  with m_wordb show ?case by (intro exI [of _ "[]"]) auto
next
  case (m_alt1 r1 x y r2)
  then show ?case by (meson rx_match.m_alt1)
next
  case (m_alt2 r2 x y r1)
  then show ?case by (meson rx_match.m_alt2)
qed (auto intro: exI [of _ "[]"])

text \<open>And of the character before it only whether it is a word character.\<close>

lemma match_before:
  "rx_match u dec_char r x y \<Longrightarrow> word_opt u (fst x) = word_opt u p' \<Longrightarrow>
     \<exists>q'. word_opt u (fst y) = word_opt u q' \<and> rx_match u dec_char r (p', snd x) (q', snd y)"
proof (induction arbitrary: p' rule: rx_match.induct)
  case (m_seq r1 x y r2 z)
  from m_seq.IH(1) [OF m_seq.prems] obtain q1 where q1: "word_opt u (fst y) = word_opt u q1"
    "rx_match u dec_char r1 (p', snd x) (q1, snd y)" by blast
  from m_seq.IH(2) [OF q1(1)] q1(2) show ?case by (blast intro: rx_match.m_seq)
next
  case (m_star r x y g z)
  from m_star.IH(1) [OF m_star.prems] obtain q1 where q1: "word_opt u (fst y) = word_opt u q1"
    "rx_match u dec_char r (p', snd x) (q1, snd y)" by blast
  from m_star.IH(2) [OF q1(1)] q1(2) show ?case by (blast intro: rx_match.m_star)
next
  case (m_wordb x)
  then show ?case by (cases x) (auto simp: at_boundary_char)
next
  case (m_alt1 r1 x y r2)
  then show ?case by (meson rx_match.m_alt1)
next
  case (m_alt2 r2 x y r1)
  then show ?case by (meson rx_match.m_alt2)
qed auto

text \<open>All characters an expression can take satisfy a predicate.\<close>

fun takes_only :: "unicode \<Rightarrow> (uchar \<Rightarrow> bool) \<Rightarrow> rx \<Rightarrow> bool" where
  "takes_only u K (Cls k) = (\<forall>c. cls_has u k c \<longrightarrow> K c)"
| "takes_only u K (Seq r1 r2) = (takes_only u K r1 \<and> takes_only u K r2)"
| "takes_only u K (Alt r1 r2) = (takes_only u K r1 \<and> takes_only u K r2)"
| "takes_only u K (Star g r) = takes_only u K r"
| "takes_only u K _ = True"

lemma match_takes:
  "rx_match u dec_char r x y \<Longrightarrow> takes_only u K r \<Longrightarrow> \<exists>w. snd x = w @ snd y \<and> list_all K w"
proof (induction rule: rx_match.induct)
  case (m_cls s c s' k p)
  then have "s = [c] @ s'" by (cases s) auto
  with m_cls show ?case by (intro exI [of _ "[c]"]) simp
next
  case (m_seq r1 x y r2 z)
  then obtain v w where "snd x = v @ snd y" "list_all K v" "snd y = w @ snd z" "list_all K w" by auto
  then show ?case by (intro exI [of _ "v @ w"]) simp
next
  case (m_star r x y g z)
  then obtain v w where "snd x = v @ snd y" "list_all K v" "snd y = w @ snd z" "list_all K w" by auto
  then show ?case by (intro exI [of _ "v @ w"]) simp
qed (auto intro: exI [of _ "[]"])

section \<open>Card numbers\<close>

definition card_char :: "unicode \<Rightarrow> uchar \<Rightarrow> bool" where
  "card_char u c \<longleftrightarrow> u_digit u c \<or> c = 32 \<or> c = 45"

lemma takes_only_copies: "takes_only u K r \<Longrightarrow> takes_only u K (copies n r)"
  by (induction n) auto

lemma takes_only_upto: "takes_only u K r \<Longrightarrow> takes_only u K (upto_copies n r)"
  by (induction n) auto

lemma card_takes: "takes_only u (card_char u) card_re"
  by (auto simp: card_re_def between_def many_lazy_def card_char_def
      intro!: takes_only_copies takes_only_upto)

lemma card_re_starts: "\<exists>r. card_re = Seq WordB (Seq (Seq (Seq (Seq (Cls Digit_cls) r) (copies 12
     (Seq (Cls Digit_cls) r))) (upto_copies 3 (Seq (Cls Digit_cls) r))) WordB)"
proof -
  have "copies 13 r = Seq r (copies 12 r)" for r
    using copies.simps(2) [of 12 r] by (simp del: copies.simps)
  then show ?thesis by (simp add: card_re_def between_def)
qed

lemma card_match_first:
  assumes "rx_match u dec_char card_re (p, s) y"
  shows "\<exists>c w. s = c # w @ snd y \<and> u_digit u c \<and> at_boundary u dec_char (p, s) \<and> at_boundary u dec_char y"
proof -
  let ?D = "Cls Digit_cls"
  obtain r where r: "card_re = Seq WordB (Seq (Seq (Seq (Seq ?D r) (copies 12 (Seq ?D r)))
     (upto_copies 3 (Seq ?D r))) WordB)"
    using card_re_starts by blast
  have "\<exists>x1 x2 x3. at_boundary u dec_char (p, s) \<and> at_boundary u dec_char y \<and>
      rx_match u dec_char ?D (p, s) x1 \<and> rx_match u dec_char r x1 x2 \<and>
      rx_match u dec_char (copies 12 (Seq ?D r)) x2 x3 \<and>
      rx_match u dec_char (upto_copies 3 (Seq ?D r)) x3 y"
    using assms unfolding r by (simp only: rx_match_simps(3,5)) blast
  then obtain x1 x2 x3 where b: "at_boundary u dec_char (p, s)" "at_boundary u dec_char y"
    and m: "rx_match u dec_char ?D (p, s) x1" "rx_match u dec_char r x1 x2"
      "rx_match u dec_char (copies 12 (Seq ?D r)) x2 x3"
      "rx_match u dec_char (upto_copies 3 (Seq ?D r)) x3 y" by blast
  from m(1) obtain c where "s = c # snd x1" "u_digit u c" by (cases s) auto
  with b m(2-4) [THEN char_match_prefix] show ?thesis by fastforce
qed

context unicode_tables
begin

lemma card_match:
  assumes "rx_match u dec_char card_re (p, s) y"
  shows "\<exists>w t. y = (Some (last w), t) \<and> s = w @ t \<and> w \<noteq> [] \<and> u_digit u (hd w) \<and> list_all (card_char u) w \<and>
     \<not> word_opt u p \<and> word_opt u (Some (last w)) \<noteq> word_opt u (first_opt t)"
proof -
  obtain q t where y: "y = (q, t)" by fastforce
  from card_match_first [OF assms] obtain c v where c: "s = c # v @ t" "u_digit u c"
    "at_boundary u dec_char (p, s)" "at_boundary u dec_char (q, t)" by (auto simp: y)
  from match_takes [OF assms card_takes] c(1) have "list_all (card_char u) (c # v)" by (auto simp: y)
  moreover from char_match_prefix [OF assms] c(1) have q: "q = Some (last (c # v))"
    by (auto simp: y last_opt_def)
  moreover have "\<not> word_opt u p" using c(1-3) digit_word by (auto simp: at_boundary_char word_opt_def)
  ultimately show ?thesis using c(1,2,4)
    by (intro exI [of _ "c # v"] exI [of _ t]) (auto simp: y at_boundary_char)
qed

lemma never_empty_card: "never_empty u card_re"
  unfolding never_empty_def
proof (intro allI impI)
  fix p q s t
  assume "rx_match u dec_char card_re (p, s) (q, t)"
  from card_match [OF this] show "t \<noteq> s" by auto
qed

lemma mask_char_no_word [simp]: "\<not> u_word u 42" "\<not> card_char u 42" "\<not> u_digit u 45" "\<not> u_digit u 42"
  by (simp_all add: word_ascii digit_ascii card_char_def ascii_defs)

lemma no_card_at_mask: "c \<in> {42, 45} \<Longrightarrow> \<not> rx_match u dec_char card_re (p, c # s) y"
  using card_match [of p "c # s" y] by (auto simp: Cons_eq_append_conv)

end

text \<open>The text with every match replaced.\<close>

definition replaced :: "(ustr \<Rightarrow> ustr) \<Rightarrow> (ustr \<times> ustr) list \<Rightarrow> ustr \<Rightarrow> ustr" where
  "replaced f ms rest = concat (map (\<lambda>(gap, m). gap @ f m) ms) @ rest"

lemma replaced_simps [simp]:
  "replaced f [] rest = rest"
  "replaced f ((gap, m) # ms) rest = gap @ f m @ replaced f ms rest"
  by (simp_all add: replaced_def)

lemma replace_all_replaced:
  "replace_all E r f s = replaced f (fst (find_iter E r s)) (snd (find_iter E r s))"
  by (simp add: replace_all_def replaced_def case_prod_beta)

definition free_of :: "unicode \<Rightarrow> rx \<Rightarrow> uchar option \<Rightarrow> ustr \<Rightarrow> bool" where
  "free_of u r p s \<longleftrightarrow> (\<forall>a b y. s = a @ b \<longrightarrow> \<not> rx_match u dec_char r (last_opt p a, b) y)"

lemma free_ofD: "free_of u r p s \<Longrightarrow> s = a @ b \<Longrightarrow> \<not> rx_match u dec_char r (last_opt p a, b) y"
  unfolding free_of_def by blast

text \<open>
  The character before the output (\<open>q\<close>) and before the input (\<open>p\<close>) agree as far as a
  match that starts with a digit can see.
\<close>

definition same_edge :: "unicode \<Rightarrow> uchar option \<Rightarrow> uchar option \<Rightarrow> ustr \<Rightarrow> bool" where
  "same_edge u p q s \<longleftrightarrow> (word_opt u (first_opt s) \<longrightarrow> word_opt u q = word_opt u p)"

lemma same_edge_at:
  "same_edge u p q s \<Longrightarrow> s = a @ b \<Longrightarrow> word_opt u (first_opt b) \<Longrightarrow>
     word_opt u (last_opt q a) = word_opt u (last_opt p a)"
  by (cases "a = []") (auto simp: same_edge_def last_opt_def)

lemma card_mask_chars: "c \<in> set card_mask \<Longrightarrow> c \<in> {42, 45}"
  by (auto simp: card_mask_def)

lemma append_cases:
  assumes "x @ r = a @ b"
  shows "(\<exists>b'. x = a @ b' \<and> b' \<noteq> [] \<and> b = b' @ r) \<or> (\<exists>a'. a = x @ a' \<and> r = a' @ b)"
proof -
  from assms obtain us where "x = a @ us \<and> us @ r = b \<or> x @ us = a \<and> r = us @ b"
    unfolding append_eq_append_conv2 by blast
  then show ?thesis by (cases "us = []") auto
qed

lemma append3_cases:
  assumes "x @ y @ z = a @ b"
  obtains b' where "x = a @ b'" "b' \<noteq> []" "b = b' @ y @ z"
    | a' b' where "y = a' @ b'" "b' \<noteq> []" "b = b' @ z"
    | a' where "a = x @ y @ a'" "z = a' @ b"
  using append_cases [OF assms] append_cases [of y z] by metis

context unicode_tables
begin

lemma card_starts_word: "rx_match u dec_char card_re (p, s) y \<Longrightarrow> word_opt u (first_opt s)"
  using card_match [of p s y] digit_word by (auto simp: word_opt_def)

text \<open>Within a gap: the output cannot match where the input did not.\<close>

lemma no_card_in_gap:
  assumes good: "good_split u card_re p ((gap, m) # ms) rest"
    and out: "rx_match u dec_char card_re (q, b @ 42 # z) y" and gap: "gap = a @ b" "b \<noteq> []"
    and q: "word_opt u q = word_opt u (last_opt p a)"
  shows False
proof -
  from card_match [OF out] obtain w t where w: "y = (Some (last w), t)" "b @ 42 # z = w @ t" "w \<noteq> []"
    "list_all (card_char u) w" "word_opt u (Some (last w)) \<noteq> word_opt u (first_opt t)" by blast
  have "42 \<notin> set w" using w(4) by (auto simp: list_all_iff)
  with w(2) obtain v where v: "b = w @ v" "t = v @ 42 # z"
    by (auto simp: append_eq_append_conv2 append_eq_Cons_conv Cons_eq_append_conv)
  let ?after = "m @ joined (ms, rest)"
  show False
  proof (cases "v = []")
    case True
    from good have "rx_match u dec_char card_re (last_opt p gap, ?after) (Some (last m), joined (ms, rest))"
      by simp
    from card_match [OF this] have "\<not> word_opt u (last_opt p gap)" by blast
    moreover have "last_opt p gap = Some (last w)" using gap v True w(3) by (simp add: last_opt_def)
    ultimately show False using w(5) v(2) True by (simp add: word_opt_def)
  next
    case False
    then have "word_opt u (first_opt t) = word_opt u (first_opt (v @ ?after))" using v by simp
    from match_after [OF out, of "[]" t, OF _ this] w(1) obtain w'
      where "b @ 42 # z = w' @ t" "rx_match u dec_char card_re (q, w' @ v @ ?after) (Some (last w), v @ ?after)"
      by auto
    then have "rx_match u dec_char card_re (q, b @ ?after) (Some (last w), v @ ?after)"
      using w(2) v by simp
    from match_before [OF this, of "last_opt p a"] q obtain q' where
      "rx_match u dec_char card_re (last_opt p a, b @ ?after) (q', v @ ?after)" by auto
    with good gap show False by auto
  qed
qed

lemma cards_replaced:
  "good_split u card_re p ms rest \<Longrightarrow> same_edge u p q (joined (ms, rest)) \<Longrightarrow>
     free_of u card_re q (replaced (\<lambda>_. card_mask) ms rest)"
proof (induction ms arbitrary: p q)
  case Nil
  show ?case unfolding free_of_def
  proof (intro allI impI notI)
    fix a b y
    assume ab: "replaced (\<lambda>_. card_mask) [] rest = a @ b"
      and m: "rx_match u dec_char card_re (last_opt q a, b) y"
    have "word_opt u (last_opt q a) = word_opt u (last_opt p a)"
      using same_edge_at [OF Nil.prems(2), of a b] ab card_starts_word [OF m] by simp
    from match_before [OF m, of "last_opt p a"] this Nil.prems(1) ab show False by auto
  qed
next
  case (Cons gm ms)
  obtain gap m where gm: "gm = (gap, m)" by fastforce
  let ?out = "replaced (\<lambda>_. card_mask) ms rest"
  note good = Cons.prems(1) [unfolded gm]
  have tail: "free_of u card_re (Some 42) ?out"
  proof (rule Cons.IH)
    show "good_split u card_re (Some (last m)) ms rest" using good by simp
    have "rx_match u dec_char card_re (last_opt p gap, m @ joined (ms, rest)) (Some (last m), joined (ms, rest))"
      using good by simp
    from card_match [OF this] show "same_edge u (Some (last m)) (Some 42) (joined (ms, rest))"
      by (auto simp: same_edge_def word_opt_def)
  qed
  show ?case unfolding free_of_def gm replaced_simps
  proof (intro allI impI notI)
    fix a b y
    assume ab: "gap @ card_mask @ ?out = a @ b" and m: "rx_match u dec_char card_re (last_opt q a, b) y"
    from ab consider (gap) b' where "gap = a @ b'" "b' \<noteq> []" "b = b' @ card_mask @ ?out"
      | (mask) a' b' where "card_mask = a' @ b'" "b' \<noteq> []" "b = b' @ ?out"
      | (out) a' where "a = gap @ card_mask @ a'" "?out = a' @ b"
      by (rule append3_cases)
    then show False
    proof cases
      case gap
      have "word_opt u (last_opt q a) = word_opt u (last_opt p a)"
        using same_edge_at [OF Cons.prems(2), of a "b' @ m @ joined (ms, rest)"] gap card_starts_word [OF m]
        by (simp add: gm)
      note edge = this
      have "card_mask @ ?out = 42 # tl card_mask @ ?out" by (simp add: card_mask_def)
      from m [unfolded gap(3) this] show False by (rule no_card_in_gap [OF good _ gap(1,2) edge])
    next
      case mask
      then obtain c b'' where c: "b' = c # b''" by (cases b') auto
      have "c \<in> set card_mask" unfolding mask(1) c by simp
      then have "c \<in> {42, 45}" by (rule card_mask_chars)
      from no_card_at_mask [OF this] m mask(3) c show False by simp
    next
      case out
      then have "last_opt q a = last_opt (Some 42) a'" by (simp add: last_opt_def card_mask_def)
      with free_ofD [OF tail out(2)] m show False by simp
    qed
  qed
qed

end

section \<open>Addresses\<close>

abbreviation is_local :: "unicode \<Rightarrow> uchar \<Rightarrow> bool" where
  "is_local u \<equiv> cls_has u local_cls"

definition is_domain :: "uchar \<Rightarrow> bool" where
  "is_domain c \<longleftrightarrow> is_ascii_alphanumeric c \<or> c = 46 \<or> c = 45"

definition email_tail :: rx where
  "email_tail = seq_of [some1 (Cls domain_cls), chr 46, at_least 2 (Cls (Ranges letter_ranges))]"

lemma is_local_marks [simp]: "\<not> is_local u 64" "\<not> is_local u 42" "\<not> is_domain 64" "\<not> is_domain 42"
  by (simp_all add: local_cls_def letter_ranges_def is_domain_def ascii_defs)

lemma lang_takes: "lang u r w \<Longrightarrow> takes_only u K r \<Longrightarrow> list_all K w"
proof (induction r arbitrary: w)
  case (Star g r)
  from Star.prems(1) have "star_of (lang u r) w" by simp
  then show ?case by (induction) (use Star in auto)
qed auto

lemma lang_some1_class: "lang u (some1 (Cls k)) w \<longleftrightarrow> w \<noteq> [] \<and> list_all (cls_has u k) w"
proof -
  have "lang u (some1 (Cls k)) w \<longleftrightarrow> (\<exists>c v. w = [c] @ v \<and> cls_has u k c \<and> list_all (cls_has u k) v)"
    unfolding some1_def lang.simps(3) lang.simps(5) star_of_class lang.simps(2) list_all_iff by blast
  then show ?thesis by (cases w) auto
qed

lemma lang_email:
  "lang u email_re w \<longleftrightarrow> (\<exists>l r. w = l @ 64 # r \<and> l \<noteq> [] \<and> list_all (is_local u) l \<and> lang u email_tail r)"
proof -
  have e: "email_re = Seq (some1 (Cls local_cls)) (Seq (chr 64) email_tail)"
    by (simp add: email_re_def email_tail_def)
  show ?thesis unfolding e by (simp add: lang_some1_class) blast
qed

lemma email_tail_domain: "lang u email_tail r \<Longrightarrow> list_all is_domain r"
  by (erule lang_takes)
    (auto simp: email_tail_def some1_def at_least_def chr_def domain_cls_def letter_ranges_def is_domain_def
      ascii_defs intro!: takes_only_copies)

lemma email_marks: "lang u email_re w \<Longrightarrow> 64 \<in> set w \<and> 42 \<notin> set w"
  using email_tail_domain [of u] by (fastforce simp: lang_email list_all_iff)

lemma boundary_free_copies: "boundary_free r \<Longrightarrow> boundary_free (copies n r)"
  by (induction n) auto

lemma email_boundary_free: "boundary_free email_re"
  by (simp add: email_re_def some1_def at_least_def chr_def boundary_free_copies)

text \<open>Two at signs with only domain characters between them.\<close>

definition no_at_chain :: "ustr \<Rightarrow> bool" where
  "no_at_chain s \<longleftrightarrow> (\<forall>a m b. s = a @ 64 # m @ 64 # b \<longrightarrow> \<not> list_all is_domain m)"

lemma no_at_chain_suffix: "no_at_chain (x @ y) \<Longrightarrow> no_at_chain y"
  unfolding no_at_chain_def by (metis append_assoc)

lemma sublist_barrier:
  assumes "sublist w (x @ c # y)" and "c \<notin> set w"
  shows "sublist w x \<or> sublist w y"
proof -
  from assms(1) consider "sublist w x" | "sublist w (c # y)"
    | w1 w2 where "w = w1 @ w2" "suffix w1 x" "prefix w2 (c # y)"
    unfolding sublist_append by blast
  then show ?thesis
  proof cases
    case 2
    with assms(2) show ?thesis by (auto simp: sublist_Cons_right prefix_Cons)
  next
    case 3
    with assms(2) have "w2 = []" by (auto simp: prefix_Cons)
    with 3 show ?thesis by auto
  qed simp
qed

lemma email_gap_free:
  assumes "gap_free u email_re p T after" and "sublist v T"
  shows "\<not> lang u email_re v"
proof
  assume v: "lang u email_re v"
  then have "v \<noteq> []" using email_marks by fastforce
  from assms(2) obtain a t where T: "T = a @ v @ t" by (auto simp: sublist_def)
  have "rx_match u dec_char email_re (last_opt p a, (v @ t) @ after) (last_opt (last_opt p a) v, t @ after)"
    using match_lang_complete [OF email_boundary_free v, of "last_opt p a" "t @ after"] by simp
  moreover have "v @ t \<noteq> []" using \<open>v \<noteq> []\<close> by simp
  ultimately show False using assms(1) T unfolding gap_free_def by blast
qed

text \<open>No address across the end of a masked domain (\<open>D\<close>) and a text in which none starts.\<close>

lemma no_email_across:
  assumes "gap_free u email_re p T after"
    and "list_all is_domain D" and "D = [] \<or> first_opt T \<noteq> Some 64"
    and "sublist w (D @ T)" and "lang u email_re w"
  shows False
proof -
  note inT = email_gap_free [OF assms(1)]
  from assms(5) obtain l r where w: "w = l @ 64 # r" "l \<noteq> []" "list_all (is_local u) l"
    "lang u email_tail r" by (auto simp: lang_email)
  have nD: "64 \<notin> set D" using assms(2) by (auto simp: list_all_iff)
  from assms(4) consider "sublist w D" | "sublist w T"
    | w1 w2 where "w = w1 @ w2" "suffix w1 D" "prefix w2 T"
    unfolding sublist_append by blast
  then show False
  proof cases
    case 1
    with nD w(1) show False by (auto dest: set_mono_sublist)
  next
    case 2
    with inT assms(5) show False by blast
  next
    case (3 w1 w2)
    have "64 \<notin> set w1" using 3(2) nD by (auto dest: set_mono_suffix)
    with 3(1) w(1) obtain l2 where l2: "l = w1 @ l2" "w2 = l2 @ 64 # r"
      by (auto simp: append_eq_append_conv2 append_eq_Cons_conv Cons_eq_append_conv)
    show False
    proof (cases "l2 = []")
      case True
      with l2 w(2) 3(2) have "D \<noteq> []" by auto
      moreover from True l2 3(3) have "first_opt T = Some 64" by (auto simp: prefix_def)
      ultimately show False using assms(3) by blast
    next
      case False
      then have "lang u email_re w2" using l2 w(3,4) by (auto simp: lang_email)
      with inT 3(3) show False by blast
    qed
  qed
qed

text \<open>The induction over the matches; \<open>D\<close> is the domain of the match before.\<close>

lemma email_match_parts:
  assumes "rx_match u dec_char email_re (p, m @ J) (q, J)"
  shows "\<exists>l r. m = l @ 64 # r \<and> list_all (is_local u) l \<and> list_all is_domain r"
proof -
  from match_lang_sound [OF assms email_boundary_free] have "lang u email_re m" by auto
  then show ?thesis unfolding lang_email using email_tail_domain by blast
qed

lemma mask_email_parts: "list_all (is_local u) l \<Longrightarrow> mask_email (l @ 64 # r) = lit ''****'' @ 64 # r"
  by (induction l) (auto simp: mask_email_def)

lemma emails_replaced:
  assumes "good_split u email_re p ms rest" and "no_at_chain (joined (ms, rest))"
    and "list_all is_domain D" and "D = [] \<or> first_opt (joined (ms, rest)) \<noteq> Some 64"
    and "sublist w (D @ replaced mask_email ms rest)" and "lang u email_re w"
  shows False
  using assms
proof (induction ms arbitrary: p D)
  case Nil
  have "gap_free u email_re p rest []" using Nil.prems(1) by (simp add: gap_free_def)
  from no_email_across [OF this Nil.prems(3) _ _ Nil.prems(6)] Nil.prems(4,5)
  show False by simp
next
  case (Cons gm ms)
  obtain gap m where gm: "gm = (gap, m)" by fastforce
  let ?J = "joined (ms, rest)" and ?out = "replaced mask_email ms rest"
  note good = Cons.prems(1) [unfolded gm good_split.simps]
  have "rx_match u dec_char email_re (last_opt p gap, m @ ?J) (Some (last m), ?J)"
    using good by (elim conjE)
  from email_match_parts [OF this] obtain l r where m: "m = l @ 64 # r"
    "list_all (is_local u) l" "list_all is_domain r" by blast
  have "sublist w ((D @ gap) @ 42 # 42 # 42 # 42 # 64 # r @ ?out)"
    using Cons.prems(5) unfolding gm m(1) by (simp add: mask_email_parts [OF m(2)])
  then have "sublist w (D @ gap) \<or> sublist w (64 # r @ ?out)"
    using email_marks [OF Cons.prems(6)] sublist_barrier [of w "[]" 42, simplified]
      sublist_barrier [of w "D @ gap" 42] by blast
  then show False
  proof
    assume "sublist w (D @ gap)"
    moreover have "D = [] \<or> first_opt gap \<noteq> Some 64"
      using Cons.prems(4) unfolding gm by (cases gap) auto
    moreover have "gap_free u email_re p gap (m @ ?J)"
      unfolding gap_free_def using good by (elim conjE)
    ultimately show False using no_email_across [OF _ Cons.prems(3) _ _ Cons.prems(6)] by blast
  next
    assume "sublist w (64 # r @ ?out)"
    moreover have "\<not> prefix w (64 # r @ ?out)"
      using Cons.prems(6) by (auto simp: lang_email prefix_Cons append_eq_Cons_conv)
    ultimately have "sublist w (r @ ?out)" by (simp add: sublist_Cons_right)
    moreover have "no_at_chain ?J"
      using no_at_chain_suffix [of "gap @ m" ?J] Cons.prems(2) by (simp add: gm)
    moreover have "first_opt ?J \<noteq> Some 64"
    proof
      assume "first_opt ?J = Some 64"
      then obtain b where "?J = 64 # b" by (cases ?J) auto
      then have "joined (gm # ms, rest) = (gap @ l) @ 64 # r @ 64 # b" by (simp add: gm m(1))
      with Cons.prems(2) m(3) show False unfolding no_at_chain_def by blast
    qed
    moreover have "good_split u email_re (Some (last m)) ms rest" using good by (elim conjE)
    ultimately show False using Cons.IH [of "Some (last m)" r] m(3) Cons.prems(6) by blast
  qed
qed

text \<open>The second pass adds no address.\<close>

lemma sublist_after_cards:
  assumes "42 \<notin> set w" and "64 \<in> set w"
  shows "sublist w (replaced (\<lambda>_. card_mask) ms rest) \<Longrightarrow> sublist w (joined (ms, rest))"
proof (induction ms)
  case (Cons gm ms)
  obtain gap m where gm: "gm = (gap, m)" by fastforce
  let ?out = "replaced (\<lambda>_. card_mask) ms rest"
  let ?mid = "lit ''***-****-****-***''"
  have "card_mask @ ?out = 42 # (?mid @ 42 # ?out)" by (simp add: card_mask_def)
  with Cons.prems have "sublist w (gap @ 42 # (?mid @ 42 # ?out))" by (simp only: gm replaced_simps)
  from sublist_barrier [OF this assms(1)] sublist_barrier [of w ?mid 42 ?out, OF _ assms(1)]
  consider "sublist w gap" | "sublist w ?mid" | "sublist w ?out" by blast
  then show ?case
  proof cases
    case 2
    then have "set w \<subseteq> set ?mid" by (rule set_mono_sublist)
    with assms(2) have False by auto
    then show ?thesis ..
  next
    case 3
    with Cons.IH show ?thesis by (simp add: gm sublist_append)
  qed (simp add: gm sublist_append)
qed simp

section \<open>The two passes\<close>

lemma never_empty_email: "never_empty u email_re"
  unfolding never_empty_def
proof (intro allI impI)
  fix p q s t
  assume "rx_match u dec_char email_re (p, s) (q, t)"
  from match_lang_sound [OF this email_boundary_free] obtain w where "s = w @ t" "lang u email_re w" by auto
  with email_marks [of u w] show "t \<noteq> s" by auto
qed

lemma free_of_lang:
  assumes "boundary_free r"
  shows "free_of u r p s \<longleftrightarrow> (\<forall>w. sublist w s \<longrightarrow> \<not> lang u r w)"
proof (intro iffI allI impI notI)
  fix w
  assume f: "free_of u r p s" and "sublist w s" and w: "lang u r w"
  then obtain a b where s: "s = a @ w @ b" by (auto simp: sublist_def)
  show False using free_ofD [OF f s] match_lang_complete [OF assms w] by blast
next
  assume no: "\<forall>w. sublist w s \<longrightarrow> \<not> lang u r w"
  show "free_of u r p s" unfolding free_of_def
  proof (intro allI impI notI)
    fix a b y
    assume s: "s = a @ b" and "rx_match u dec_char r (last_opt p a, b) y"
    from match_lang_sound [OF this(2) assms] obtain w t where "b = w @ t" "lang u r w" by auto
    with no s show False by (auto simp: sublist_def)
  qed
qed

text \<open>The absence of matches is decided by the matcher, position by position.\<close>

lemma free_of_Cons:
  "free_of u r p (c # s) \<longleftrightarrow> (\<forall>y. \<not> rx_match u dec_char r (p, c # s) y) \<and> free_of u r (Some c) s"
proof
  assume f: "free_of u r p (c # s)"
  have "\<not> rx_match u dec_char r (last_opt (Some c) a, b) y" if "s = a @ b" for a b y
    using free_ofD [OF f, of "c # a" b y] that by (simp add: last_opt_def split: if_splits)
  moreover have "\<not> rx_match u dec_char r (p, c # s) y" for y
    using free_ofD [OF f, of "[]"] by simp
  ultimately show "(\<forall>y. \<not> rx_match u dec_char r (p, c # s) y) \<and> free_of u r (Some c) s"
    unfolding free_of_def by blast
next
  assume f: "(\<forall>y. \<not> rx_match u dec_char r (p, c # s) y) \<and> free_of u r (Some c) s"
  show "free_of u r p (c # s)" unfolding free_of_def
  proof (intro allI impI)
    fix a b y
    assume "c # s = a @ b"
    then show "\<not> rx_match u dec_char r (last_opt p a, b) y"
    proof (cases a)
      case Nil
      with \<open>c # s = a @ b\<close> f show ?thesis by (metis append_Nil last_opt_Nil)
    next
      case (Cons c' a')
      with \<open>c # s = a @ b\<close> have "c' = c" "s = a' @ b" by simp_all
      moreover have "last_opt p (c # a') = last_opt (Some c) a'" by (simp add: last_opt_def)
      ultimately show ?thesis using free_ofD [of u r "Some c" s a' b y] f Cons by metis
    qed
  qed
qed

lemma free_of_code [code]:
  "free_of u r p s \<longleftrightarrow> rx_ends u dec_char r (p, s) = [] \<and>
     (case s of [] \<Rightarrow> True | c # s' \<Rightarrow> free_of u r (Some c) s')"
proof -
  have "rx_ends u dec_char r (p, s) = [] \<longleftrightarrow> (\<forall>y. \<not> rx_match u dec_char r (p, s) y)"
    using list_nonempty_iff [of "rx_ends u dec_char r (p, s)"] chars.rx_ends_iff [of _ u r "(p, s)"] by blast
  then show ?thesis by (cases s) (simp_all only: free_of_Cons list.case, simp add: free_of_def)
qed

lemma free_of_no_match:
  assumes "free_of u r p (joined (ms, rest))" and "good_split u r p ms rest"
  shows "ms = []"
proof (cases ms)
  case (Cons gm ms')
  obtain gap m where gm: "gm = (gap, m)" by fastforce
  from assms(2) have "rx_match u dec_char r (last_opt p gap, m @ joined (ms', rest)) (Some (last m), joined (ms', rest))"
    unfolding Cons gm good_split.simps by (elim conjE)
  with free_ofD [OF assms(1), of gap "m @ joined (ms', rest)"] Cons gm show ?thesis by simp
qed simp

context regex_engine
begin

lemma card_pass: "free_of u card_re None (replace_all E card_re (\<lambda>_. card_mask) s)"
  unfolding replace_all_replaced
  by (rule cards_replaced [OF find_iter_good [OF never_empty_card]]) (simp add: same_edge_def)

lemma email_pass:
  assumes "no_at_chain s"
  shows "\<not> (sublist w (replace_all E email_re mask_email s) \<and> lang u email_re w)"
proof
  assume "sublist w (replace_all E email_re mask_email s) \<and> lang u email_re w"
  then show False
    using emails_replaced [OF find_iter_good [OF never_empty_email], of s "[]" w] assms
    by (simp add: replace_all_replaced find_iter_joined)
qed

lemma pass_unchanged:
  assumes "never_empty u r" and "free_of u r None s"
  shows "replace_all E r f s = s"
proof -
  obtain ms rest where it: "find_iter E r s = (ms, rest)" by fastforce
  with find_iter_joined [of r s] have j: "joined (ms, rest) = s" by simp
  with free_of_no_match [of u r None ms rest] find_iter_good [OF assms(1), of s] assms(2) it
  have "ms = []" by simp
  with j it show ?thesis by (simp add: replace_all_replaced)
qed

end

lemma emails_pass_both:
  assumes "regex_engine u E" and "no_at_chain input"
  shows "free_of u email_re None (mask_sensitive_info E input)"
proof -
  let ?m = "replace_all E email_re mask_email input"
  have "\<not> lang u email_re w" if "sublist w (mask_sensitive_info E input)" for w
  proof
    assume w: "lang u email_re w"
    have "sublist w (replaced (\<lambda>_. card_mask) (fst (find_iter E card_re ?m)) (snd (find_iter E card_re ?m)))"
      using that unfolding mask_sensitive_info_def Let_def replace_all_replaced [of E card_re] .
    from sublist_after_cards [OF _ _ this] email_marks [OF w]
    have "sublist w (joined (find_iter E card_re ?m))" by simp
    then have "sublist w ?m" by (simp add: regex_engine.find_iter_joined [OF assms(1)])
    with regex_engine.email_pass [OF assms] w show False by blast
  qed
  then show ?thesis by (simp add: free_of_lang [OF email_boundary_free])
qed

text \<open>Masking a text gives a text.\<close>

lemma joined_set: "c \<in> set (joined (ms, rest)) \<longleftrightarrow> (\<exists>(gap, m) \<in> set ms. c \<in> set gap \<or> c \<in> set m) \<or> c \<in> set rest"
  by (force simp: joined_def)

lemma replace_all_set:
  assumes "regex_engine u E" and "\<And>m c. c \<in> set (f m) \<Longrightarrow> c \<in> set m \<or> is_scalar c"
    and "\<forall>c \<in> set s. is_scalar c"
  shows "\<forall>c \<in> set (replace_all E r f s). is_scalar c"
proof -
  obtain ms rest where f: "find_iter E r s = (ms, rest)" by fastforce
  have "joined (ms, rest) = s" using regex_engine.find_iter_joined [OF assms(1), of r s] f by simp
  with assms(3) have all: "\<And>c. (\<exists>(gap, m) \<in> set ms. c \<in> set gap \<or> c \<in> set m) \<or> c \<in> set rest \<Longrightarrow> is_scalar c"
    using joined_set by blast
  show ?thesis
  proof
    fix c assume "c \<in> set (replace_all E r f s)"
    then have "(\<exists>(gap, m) \<in> set ms. c \<in> set gap \<or> c \<in> set (f m)) \<or> c \<in> set rest"
      by (auto simp: replace_all_def f)
    with assms(2) all show "is_scalar c" by blast
  qed
qed

lemma mask_scalar:
  assumes "regex_engine u E" and "\<forall>c \<in> set s. is_scalar c"
  shows "\<forall>c \<in> set (mask_sensitive_info E s). is_scalar c"
proof -
  have "c \<in> set m \<or> is_scalar c" if "c \<in> set (mask_email m)" for c m
    using that set_dropWhileD [of c "\<lambda>c. c \<noteq> 64" m] by (auto simp: mask_email_def is_scalar_def split: if_splits)
  from replace_all_set [OF assms(1) this assms(2)]
  have "\<forall>c \<in> set (replace_all E email_re mask_email s). is_scalar c" .
  moreover have "c \<in> set m \<or> is_scalar c" if "c \<in> set card_mask" for c and m :: ustr
    using that by (auto simp: card_mask_def is_scalar_def)
  ultimately show ?thesis
    unfolding mask_sensitive_info_def Let_def by (rule replace_all_set [OF assms(1), rotated])
qed
section \<open>Properties\<close>

text \<open>
  C16: no card number survives. Against any engine that meets the documented contract, the masked
  text has no place where the card expression matches, although each replacement changes the
  characters around the text that stays.
\<close>

theorem cards_masked:
  assumes "regex_engine u E"
  shows "free_of u card_re None (mask_sensitive_info E input)"
  unfolding mask_sensitive_info_def Let_def by (rule regex_engine.card_pass [OF assms])

theorem cards_masked_witness:
  "free_of ascii_tables card_re None (lit ''a ****-****-****-**** b'')"
proof -
  have "mask_sensitive_info (ref_engine ascii_tables) (lit ''a 4111-1111 1111-1 b'')
      = lit ''a ****-****-****-**** b''"
    by code_simp
  then show ?thesis
    using cards_masked [OF ascii_rx.regex_engine_axioms, of "lit ''a 4111-1111 1111-1 b''"] by simp
qed

text \<open>
  C17: no address survives. If the text has no two at signs with only domain characters between
  them, the address expression matches nowhere in the masked text.
\<close>

theorem emails_masked:
  assumes "regex_engine u E" and "no_at_chain input"
  shows "free_of u email_re None (mask_sensitive_info E input)"
  by (rule emails_pass_both [OF assms])

theorem emails_masked_witness:
  "free_of ascii_tables email_re None (lit ''by ****@ex.org!'')"
proof -
  have "mask_sensitive_info (ref_engine ascii_tables) (lit ''by jo.e@ex.org!'') = lit ''by ****@ex.org!''"
    by code_simp
  moreover have "no_at_chain (lit ''by jo.e@ex.org!'')"
    by (auto simp: no_at_chain_def Cons_eq_append_conv)
  ultimately show ?thesis
    using emails_masked [OF ascii_rx.regex_engine_axioms, of "lit ''by jo.e@ex.org!''"] by simp
qed

text \<open>A text with no address and no card number passes unchanged.\<close>

theorem clean_text_unchanged:
  assumes "regex_engine u E" and "free_of u email_re None input" and "free_of u card_re None input"
  shows "mask_sensitive_info E input = input"
  using regex_engine.pass_unchanged [OF assms(1) never_empty_email assms(2)]
    regex_engine.pass_unchanged [OF assms(1) unicode_tables.never_empty_card assms(3)]
    assms(1) by (simp add: mask_sensitive_info_def regex_engine_def)

theorem clean_text_unchanged_witness:
  "mask_sensitive_info (ref_engine ascii_tables) (lit ''tel 555-0199'') = lit ''tel 555-0199''"
proof -
  have "free_of ascii_tables email_re None (lit ''tel 555-0199'')" "free_of ascii_tables card_re None (lit ''tel 555-0199'')"
    by code_simp+
  then show ?thesis by (rule clean_text_unchanged [OF ascii_rx.regex_engine_axioms])
qed

text \<open>
  An address in front of a second at sign leaves an address behind: the first match takes the
  first domain, what follows starts with an at sign, and the masked text still contains an address.
\<close>

theorem chained_address_leaks:
  "mask_sensitive_info (ref_engine ascii_tables) (lit ''a@b.co@c.de'') = lit ''****@b.co@c.de''
   \<and> \<not> free_of ascii_tables email_re None (mask_sensitive_info (ref_engine ascii_tables) (lit ''a@b.co@c.de''))"
proof -
  have m: "mask_sensitive_info (ref_engine ascii_tables) (lit ''a@b.co@c.de'') = lit ''****@b.co@c.de''"
    by code_simp
  have "\<not> free_of ascii_tables email_re None (lit ''****@b.co@c.de'')" by code_simp
  with m show ?thesis by simp
qed

text \<open>
  Any run of thirteen digits is taken for a card number: a time in milliseconds in a JSON
  answer is replaced, and what is left is not JSON.
\<close>

theorem timestamp_taken_for_card:
  "mask_sensitive_info (ref_engine ascii_tables) (lit ''[1700000000000]'') = lit ''[****-****-****-****]''"
  by code_simp

end
