(* ===== verification/Http.thy ===== *)
theory Http
  imports Rust_Text
begin

text \<open>
  The HTTP values that the handlers receive and build. They are data of the \<open>http\<close> and
  \<open>hyper\<close> crates, which the program only calls: methods, versions and statuses are
  enumerations, a header map is the list of its fields (the name in its canonical lower case),
  a URI is the record of what its accessors return, a body is the list of what polling it
  yields. The conversions those crates compute (header value to text, text to header value or
  URI) are the fields of the parameter record \<open>http_lib\<close>.
\<close>

section \<open>Methods, versions, statuses\<close>

datatype http_method =
    GET | POST | PUT | DELETE | PATCH | HEAD | OPTIONS | CONNECT | TRACE | Extension ustr

datatype http_version = HTTP_09 | HTTP_10 | HTTP_11 | HTTP_2 | HTTP_3

datatype status_code =
    SWITCHING_PROTOCOLS | PERMANENT_REDIRECT | BAD_REQUEST | FORBIDDEN | METHOD_NOT_ALLOWED
  | PAYLOAD_TOO_LARGE | URI_TOO_LONG | TOO_MANY_REQUESTS | INTERNAL_SERVER_ERROR | BAD_GATEWAY
  | GATEWAY_TIMEOUT | OtherStatus nat

section \<open>Header maps\<close>

type_synonym header_name = ustr
type_synonym header_value = "byte list"
type_synonym header_map = "(header_name \<times> header_value) list"

definition hdr_get_all :: "header_map \<Rightarrow> header_name \<Rightarrow> header_value list" where
  "hdr_get_all hs k = map snd (filter (\<lambda>f. fst f = k) hs)"

definition hdr_get :: "header_map \<Rightarrow> header_name \<Rightarrow> header_value option" where
  "hdr_get hs k = (case hdr_get_all hs k of [] \<Rightarrow> None | v # _ \<Rightarrow> Some v)"

definition hdr_contains :: "header_map \<Rightarrow> header_name \<Rightarrow> bool" where
  "hdr_contains hs k \<longleftrightarrow> hdr_get_all hs k \<noteq> []"

definition hdr_remove :: "header_name \<Rightarrow> header_map \<Rightarrow> header_map" where
  "hdr_remove k hs = filter (\<lambda>f. fst f \<noteq> k) hs"

definition hdr_insert :: "header_name \<Rightarrow> header_value \<Rightarrow> header_map \<Rightarrow> header_map" where
  "hdr_insert k v hs = hdr_remove k hs @ [(k, v)]"

text \<open>\<open>HeaderMap::len\<close> counts the values, not the names.\<close>

definition hdr_len :: "header_map \<Rightarrow> nat" where
  "hdr_len hs = length hs"

text \<open>
  What the handlers rely on: removing and inserting act on one name only. The locale is the
  contract of the header map; \<open>fields\<close> stands for \<open>get_all\<close>.
\<close>

locale header_store =
  fixes fields :: "'m \<Rightarrow> 'k \<Rightarrow> 'v list"
    and remove :: "'k \<Rightarrow> 'm \<Rightarrow> 'm"
    and put :: "'k \<Rightarrow> 'v \<Rightarrow> 'm \<Rightarrow> 'm"
  assumes fields_remove: "fields (remove k m) k' = (if k' = k then [] else fields m k')"
    and fields_put: "fields (put k v m) k' = (if k' = k then [v] else fields m k')"
begin

lemma fields_remove_all:
  "fields (fold remove ks m) k = (if k \<in> set ks then [] else fields m k)"
  by (induction ks arbitrary: m) (auto simp: fields_remove)

lemma fields_put_all_other:
  "k \<notin> fst ` set kvs \<Longrightarrow> fields (fold (\<lambda>(k, v). put k v) kvs m) k = fields m k"
  by (induction kvs arbitrary: m) (auto simp: fields_put)

lemma fields_put_all:
  "distinct (map fst kvs) \<Longrightarrow> (k, v) \<in> set kvs \<Longrightarrow>
     fields (fold (\<lambda>(k, v). put k v) kvs m) k = [v]"
proof (induction kvs arbitrary: m)
  case (Cons kv kvs)
  show ?case
  proof (cases "kv = (k, v)")
    case True
    with Cons.prems have "k \<notin> fst ` set kvs" by auto
    with True show ?thesis by (simp add: fields_put_all_other fields_put)
  next
    case False
    with Cons show ?thesis by (auto split: prod.splits)
  qed
qed simp

lemma put_all_idem:
  assumes "distinct (map fst kvs)"
  shows "fields (fold (\<lambda>(k, v). put k v) kvs (fold (\<lambda>(k, v). put k v) kvs m)) k
       = fields (fold (\<lambda>(k, v). put k v) kvs m) k"
proof (cases "k \<in> fst ` set kvs")
  case True
  then obtain v where "(k, v) \<in> set kvs" by force
  with assms show ?thesis by (simp add: fields_put_all)
next
  case False
  then show ?thesis by (simp add: fields_put_all_other)
qed

end

lemma filter_other_key:
  "k' \<noteq> k \<Longrightarrow> filter (\<lambda>f. fst f \<noteq> k \<and> fst f = k') m = filter (\<lambda>f. fst f = k') m"
  by (rule filter_cong) auto

interpretation hdrs: header_store hdr_get_all hdr_remove hdr_insert
  by unfold_locales
    (auto simp: hdr_get_all_def hdr_remove_def hdr_insert_def filter_empty_conv filter_other_key)

lemma hdr_get_eq: "hdr_get hs k = (if hdr_get_all hs k = [] then None else Some (hd (hdr_get_all hs k)))"
  by (simp add: hdr_get_def split: list.splits)

section \<open>URIs\<close>

record uri =
  uri_path_and_query :: "ustr option"
  uri_path :: ustr
  uri_query :: "ustr option"
  uri_host :: "ustr option"

text \<open>\<open>uri.path_and_query().map(|pq| pq.as_str()).unwrap_or("/")\<close>, as the handlers read it.\<close>

definition target_of :: "uri \<Rightarrow> ustr" where
  "target_of u = (case uri_path_and_query u of Some pq \<Rightarrow> pq | None \<Rightarrow> lit ''/'')"

section \<open>Bodies, requests, responses\<close>

datatype frame = Data "byte list" | Trailers header_map

text \<open>
  What polling a body gives: a frame, an error, or not ready yet. The end of the list is the end
  of the stream.
\<close>

datatype poll_item = Ready frame | Failed | NotReady

type_synonym stream = "poll_item list"

text \<open>The data that a stream carries up to its end or its first error.\<close>

fun stream_data :: "stream \<Rightarrow> byte list" where
  "stream_data [] = []"
| "stream_data (Ready (Data d) # xs) = d @ stream_data xs"
| "stream_data (Ready (Trailers t) # xs) = stream_data xs"
| "stream_data (NotReady # xs) = stream_data xs"
| "stream_data (Failed # xs) = []"

fun stream_fails :: "stream \<Rightarrow> bool" where
  "stream_fails [] = False"
| "stream_fails (Failed # xs) = True"
| "stream_fails (_ # xs) = stream_fails xs"

record request =
  rq_method :: http_method
  rq_uri :: uri
  rq_version :: http_version
  rq_headers :: header_map
  rq_body :: stream

record response =
  rs_status :: status_code
  rs_version :: http_version
  rs_headers :: header_map

section \<open>The conversions of the http crate\<close>

record http_lib =
  to_str :: "header_value \<Rightarrow> ustr option"       \<comment> \<open>\<open>HeaderValue::to_str\<close>\<close>
  value_of_str :: "ustr \<Rightarrow> header_value option"  \<comment> \<open>\<open>HeaderValue::try_from(String)\<close>\<close>
  uri_of_str :: "ustr \<Rightarrow> uri option"             \<comment> \<open>\<open>str::parse::<Uri>\<close>\<close>

definition visible_ascii :: "byte \<Rightarrow> bool" where
  "visible_ascii b \<longleftrightarrow> (32 \<le> unat b \<and> unat b < 127) \<or> unat b = 9"

text \<open>The documented behaviour: text is read from visible ASCII only, and a value never holds a control byte.\<close>

locale http_values =
  fixes H :: http_lib
  assumes to_str_visible: "to_str H v = Some s \<longleftrightarrow> (\<forall>b \<in> set v. visible_ascii b) \<and> s = map unat v"
    and value_of_ascii: "\<forall>c \<in> set s. 32 \<le> c \<and> c < 127 \<Longrightarrow> value_of_str H s = Some (as_bytes s)"
begin

lemma to_str_ascii: "to_str H v = Some s \<Longrightarrow> c \<in> set s \<Longrightarrow> is_ascii c"
  by (auto simp: to_str_visible visible_ascii_def is_ascii_def)

end

definition http_ref :: http_lib where
  "http_ref =
     \<lparr>to_str = (\<lambda>v. if list_all visible_ascii v then Some (map unat v) else None),
      value_of_str = (\<lambda>s. if list_all (\<lambda>b. (32 \<le> unat b \<and> unat b \<noteq> 127) \<or> unat b = 9) (as_bytes s)
                           then Some (as_bytes s) else None),
      uri_of_str = (\<lambda>s. None)\<rparr>"

lemma http_ref_simps [simp]:
  "to_str http_ref v = (if list_all visible_ascii v then Some (map unat v) else None)"
  "value_of_str http_ref s =
     (if list_all (\<lambda>b. (32 \<le> unat b \<and> unat b \<noteq> 127) \<or> unat b = 9) (as_bytes s)
      then Some (as_bytes s) else None)"
  by (simp_all add: http_ref_def)

interpretation ref_http: http_values http_ref
proof
  fix v s
  show "to_str http_ref v = Some s \<longleftrightarrow> (\<forall>b \<in> set v. visible_ascii b) \<and> s = map unat v"
    by (auto simp: list_all_iff)
next
  fix s :: ustr
  assume "\<forall>c \<in> set s. 32 \<le> c \<and> c < 127"
  moreover from this have "as_bytes s = map byte_of s"
    by (intro as_bytes_ascii) (auto simp: is_ascii_def)
  ultimately show "value_of_str http_ref s = Some (as_bytes s)"
    by (auto simp: list_all_iff)
qed

end
