(* ===== verification/Rust_Net.thy ===== *)
theory Rust_Net
  imports Rust_Text
begin

text \<open>
  \<open>std::net\<close>: IP addresses and the standard library's address parser, which the proxy
  runs on the \<open>CF-Connecting-IP\<close> header. The parser is the recursive descent of the
  standard library: each reader returns the value and the rest of the input, or fails without
  consuming anything.
\<close>

datatype ip_addr = V4 byte byte byte byte | V6 "u16 list"

type_synonym socket_addr = "ip_addr \<times> u16"

abbreviation sock_ip :: "socket_addr \<Rightarrow> ip_addr" where
  "sock_ip \<equiv> fst"

type_synonym 'a reader = "ustr \<Rightarrow> ('a \<times> ustr) option"

text \<open>The digit loop: at most \<open>mx\<close> digits, \<open>cnt\<close> of them read so far.\<close>

fun read_digits :: "nat \<Rightarrow> nat \<Rightarrow> nat \<Rightarrow> nat \<Rightarrow> ustr \<Rightarrow> (nat \<times> nat \<times> ustr) option" where
  "read_digits radix mx cnt acc [] = Some (cnt, acc, [])"
| "read_digits radix mx cnt acc (c # s) =
     (case to_digit radix c of
        None \<Rightarrow> Some (cnt, acc, c # s)
      | Some d \<Rightarrow> if mx < Suc cnt then None
                  else read_digits radix mx (Suc cnt) (acc * radix + d) s)"

definition read_number :: "nat \<Rightarrow> nat \<Rightarrow> bool \<Rightarrow> nat \<Rightarrow> nat reader" where
  "read_number radix mx allow_zero_prefix bound s =
     (case read_digits radix mx 0 0 s of
        None \<Rightarrow> None
      | Some (cnt, v, rest) \<Rightarrow>
          if cnt = 0 then None
          else if \<not> allow_zero_prefix \<and> hd s = 48 \<and> 1 < cnt then None
          else if v < bound then Some (v, rest) else None)"

definition read_separator :: "uchar \<Rightarrow> nat \<Rightarrow> 'a reader \<Rightarrow> 'a reader" where
  "read_separator sep i inner s =
     (if i = 0 then inner s
      else case s of [] \<Rightarrow> None | c # s' \<Rightarrow> if c = sep then inner s' else None)"

definition read_octet :: "nat \<Rightarrow> nat reader" where
  "read_octet i = read_separator 46 i (read_number 10 3 False 256)"

definition read_ipv4 :: "(nat \<times> nat \<times> nat \<times> nat) reader" where
  "read_ipv4 s0 =
     do { (a, s1) \<leftarrow> read_octet 0 s0;
          (b, s2) \<leftarrow> read_octet 1 s1;
          (c, s3) \<leftarrow> read_octet 2 s2;
          (d, s4) \<leftarrow> read_octet 3 s3;
          Some ((a, b, c, d), s4) }"

function read_groups :: "nat \<Rightarrow> nat \<Rightarrow> ustr \<Rightarrow> nat list \<times> bool \<times> ustr" where
  "read_groups limit i s =
     (if limit \<le> i then ([], False, s)
      else case (if i < limit - 1 then read_separator 58 i read_ipv4 s else None) of
        Some ((a, b, c, d), s') \<Rightarrow> ([a * 256 + b, c * 256 + d], True, s')
      | None \<Rightarrow>
          (case read_separator 58 i (read_number 16 4 True 65536) s of
             Some (g, s') \<Rightarrow>
               (let (gs, v4, s'') = read_groups limit (Suc i) s' in (g # gs, v4, s''))
           | None \<Rightarrow> ([], False, s)))"
  by pat_completeness auto
termination
  by (relation "measure (\<lambda>(limit, i, s). limit - i)") auto

declare read_groups.simps [simp del]

definition read_ipv6 :: "nat list reader" where
  "read_ipv6 s =
     (case read_groups 8 0 s of (hd_groups, hd_v4, s1) \<Rightarrow>
        if length hd_groups = 8 then Some (hd_groups, s1)
        else if hd_v4 then None
        else
          (case s1 of
             [] \<Rightarrow> None
           | [c1] \<Rightarrow> None
           | c1 # c2 # s2 \<Rightarrow>
               if c1 = 58 \<and> c2 = 58 then
                 (case read_groups (8 - (length hd_groups + 1)) 0 s2 of (tl_groups, tl_v4, s3) \<Rightarrow>
                    Some (hd_groups
                          @ replicate (8 - length hd_groups - length tl_groups) 0 @ tl_groups, s3))
               else None))"

text \<open>\<open>str::parse::<IpAddr>\<close>: the whole text has to be the address.\<close>

definition parse_ip :: "ustr \<Rightarrow> ip_addr option" where
  "parse_ip s =
     (case read_ipv4 s of
        Some ((a, b, c, d), rest) \<Rightarrow>
          if rest = [] then Some (V4 (byte_of a) (byte_of b) (byte_of c) (byte_of d)) else None
      | None \<Rightarrow>
          (case read_ipv6 s of
             Some (gs, rest) \<Rightarrow> if rest = [] then Some (V6 (map of_nat gs)) else None
           | None \<Rightarrow> None))"

text \<open>
  \<open>str::parse::<SocketAddr>\<close>: an IPv4 address and a port, or an IPv6 address in brackets, possibly
  with a scope, and a port. The scope of an IPv6 address is read and dropped.
\<close>

definition read_char :: "uchar \<Rightarrow> unit reader" where
  "read_char c s = (case s of [] \<Rightarrow> None | d # s' \<Rightarrow> if d = c then Some ((), s') else None)"

definition read_port :: "nat reader" where
  "read_port s = do { (_, s1) \<leftarrow> read_char 58 s; read_number 10 (length s1) True 65536 s1 }"

definition read_scope_id :: "nat reader" where
  "read_scope_id s = do { (_, s1) \<leftarrow> read_char 37 s; read_number 10 (length s1) True (2 ^ 32) s1 }"

definition read_socket_addr_v4 :: "socket_addr reader" where
  "read_socket_addr_v4 s =
     do { ((a, b, c, d), s1) \<leftarrow> read_ipv4 s;
          (port, s2) \<leftarrow> read_port s1;
          Some ((V4 (byte_of a) (byte_of b) (byte_of c) (byte_of d), of_nat port), s2) }"

definition read_socket_addr_v6 :: "socket_addr reader" where
  "read_socket_addr_v6 s =
     do { (_, s1) \<leftarrow> read_char 91 s;
          (gs, s2) \<leftarrow> read_ipv6 s1;
          (_, s4) \<leftarrow> read_char 93 (case read_scope_id s2 of Some (scope, s3) \<Rightarrow> s3 | None \<Rightarrow> s2);
          (port, s5) \<leftarrow> read_port s4;
          Some ((V6 (map of_nat gs), of_nat port), s5) }"

definition parse_socket_addr :: "ustr \<Rightarrow> socket_addr option" where
  "parse_socket_addr s =
     (case (case read_socket_addr_v4 s of Some r \<Rightarrow> Some r | None \<Rightarrow> read_socket_addr_v6 s) of
        Some (addr, rest) \<Rightarrow> if rest = [] then Some addr else None
      | None \<Rightarrow> None)"

section \<open>Facts about the reader\<close>

lemma read_groups_length:
  "read_groups limit i s = (gs, v4, s') \<Longrightarrow> length gs \<le> limit - i"
proof (induction limit i s arbitrary: gs v4 s' rule: read_groups.induct)
  case (1 limit i s)
  show ?case
    using 1(2) by (subst (asm) read_groups.simps)
      (auto split: if_splits option.splits prod.splits dest!: 1(1) [rotated -1] simp: Let_def; fastforce)
qed

end
