(* ===== verification/Bandwidth.thy ===== *)
theory Bandwidth
  imports Ieee Http Rust_Net
begin

text \<open>
  Bandwidth throttling (\<open>src/bandwidth.rs\<close>): the token bucket with its floating point
  arithmetic, the table of buckets per address, and the response body that asks the table before
  it hands a data frame on.
\<close>

section \<open>The token bucket\<close>

text \<open>The conversions \<open>u64 as f64\<close> and \<open>Duration::as_secs_f64\<close>.\<close>

definition f64_of_u64 :: "u64 \<Rightarrow> rat" where
  "f64_of_u64 n = fl 53 (of_nat (unat n))"

definition as_secs_f64 :: "duration \<Rightarrow> rat" where
  "as_secs_f64 d =
     fl 53 (fl 53 (of_nat (d div nanos_per_sec))
            + fl 53 (of_nat (d mod nanos_per_sec) / of_nat nanos_per_sec))"

record token_bucket =
  tokens :: rat
  last_fill :: instant

definition bucket_new :: "instant \<Rightarrow> token_bucket" where
  "bucket_new now = \<lparr>tokens = 0, last_fill = now\<rparr>"

text \<open>The cap, \<open>rate * 2.0\<close>.\<close>

definition bucket_cap :: "rat \<Rightarrow> rat" where
  "bucket_cap rate = fl 53 (rate * 2)"

definition refill :: "rat \<Rightarrow> instant \<Rightarrow> token_bucket \<Rightarrow> token_bucket" where
  "refill rate now b =
     (let elapsed = as_secs_f64 (duration_since now (last_fill b));
          filled = fl 53 (tokens b + fl 53 (elapsed * rate));
          capped = (if bucket_cap rate < filled then bucket_cap rate else filled)
      in b\<lparr>tokens := capped, last_fill := now\<rparr>)"

definition consume :: "rat \<Rightarrow> rat \<Rightarrow> instant \<Rightarrow> token_bucket \<Rightarrow> bool \<times> token_bucket" where
  "consume rate amount now b =
     (let b' = refill rate now b
      in if amount \<le> tokens b' then (True, b'\<lparr>tokens := fl 53 (tokens b' - amount)\<rparr>)
         else (False, b'))"

section \<open>The table of buckets\<close>

type_synonym bandwidth_limiter = "ip_addr \<rightharpoonup> token_bucket"

definition limiter_new :: bandwidth_limiter where
  "limiter_new = Map.empty"

text \<open>
  The clock is read twice: for the fresh bucket (which is built whether it is used or not) and in
  \<open>consume\<close>. A reading is the pair of the two instants.
\<close>

type_synonym reading = "instant \<times> instant"

definition try_consume ::
  "reading \<Rightarrow> ip_addr \<Rightarrow> u64 \<Rightarrow> u64 \<Rightarrow> bandwidth_limiter \<Rightarrow> bool \<times> bandwidth_limiter" where
  "try_consume r ip rate amount lm =
     (let bucket = (case lm ip of Some b \<Rightarrow> b | None \<Rightarrow> bucket_new (fst r));
          (ok, bucket') = consume (f64_of_u64 rate) (f64_of_u64 amount) (snd r) bucket
      in (ok, lm(ip \<mapsto> bucket')))"

section \<open>The throttled body\<close>

text \<open>
  What polling a body returns. A pending poll has either woken the task itself
  (\<open>Pending_woken\<close>) or left that to the inner body (\<open>Pending_inner\<close>).
\<close>

datatype poll = Pending_woken | Pending_inner | Ready_frame frame | Ready_error | Ready_end

fun poll_stream :: "stream \<Rightarrow> poll \<times> stream" where
  "poll_stream [] = (Ready_end, [])"
| "poll_stream (Ready f # xs) = (Ready_frame f, xs)"
| "poll_stream (Failed # xs) = (Ready_error, xs)"
| "poll_stream (NotReady # xs) = (Pending_inner, xs)"

record throttled_body =
  inner :: stream
  tb_ip :: ip_addr
  tb_rate :: u64
  pending_amount :: u64

definition throttled_new :: "stream \<Rightarrow> ip_addr \<Rightarrow> u64 \<Rightarrow> throttled_body" where
  "throttled_new s ip rate = \<lparr>inner = s, tb_ip = ip, tb_rate = rate, pending_amount = 0\<rparr>"

text \<open>The second half of \<open>poll_frame\<close>: poll the inner body and ask for quota for its data.\<close>

definition poll_inner ::
  "reading \<Rightarrow> bandwidth_limiter \<Rightarrow> throttled_body \<Rightarrow> poll \<times> bandwidth_limiter \<times> throttled_body" where
  "poll_inner r lm b =
     (case poll_stream (inner b) of (p, rest) \<Rightarrow>
        (case p of
           Ready_frame (Data d) \<Rightarrow>
             (let amount = of_nat (length d)
              in case try_consume r (tb_ip b) (tb_rate b) amount lm of (ok, lm') \<Rightarrow>
                   if ok then (Ready_frame (Data d), lm', b\<lparr>inner := rest\<rparr>)
                   else (Pending_woken, lm', b\<lparr>inner := rest, pending_amount := amount\<rparr>))
         | _ \<Rightarrow> (p, lm, b\<lparr>inner := rest\<rparr>)))"

definition poll_frame ::
  "reading \<times> reading \<Rightarrow> bandwidth_limiter \<Rightarrow> throttled_body
     \<Rightarrow> poll \<times> bandwidth_limiter \<times> throttled_body" where
  "poll_frame rr lm b =
     (if tb_rate b = 0 then
        (case poll_stream (inner b) of (p, rest) \<Rightarrow> (p, lm, b\<lparr>inner := rest\<rparr>))
      else if 0 < pending_amount b then
        (case try_consume (fst rr) (tb_ip b) (tb_rate b) (pending_amount b) lm of (ok, lm') \<Rightarrow>
           if ok then poll_inner (snd rr) lm' (b\<lparr>pending_amount := 0\<rparr>)
           else (Pending_woken, lm', b))
      else poll_inner (snd rr) lm b)"

text \<open>The other two methods delegate to the inner body.\<close>

definition tb_is_end_stream :: "(stream \<Rightarrow> bool) \<Rightarrow> throttled_body \<Rightarrow> bool" where
  "tb_is_end_stream inner_is_end b = inner_is_end (inner b)"

definition tb_size_hint :: "(stream \<Rightarrow> nat \<times> nat option) \<Rightarrow> throttled_body \<Rightarrow> nat \<times> nat option" where
  "tb_size_hint inner_hint b = inner_hint (inner b)"

text \<open>
  The task that drives a body: it polls once per reading and collects the frames. It stops at the
  end or at an error.
\<close>

datatype drive_end = Drained | Broken | Waiting

fun drive ::
  "(reading \<times> reading) list \<Rightarrow> bandwidth_limiter \<Rightarrow> throttled_body
     \<Rightarrow> frame list \<times> drive_end \<times> bandwidth_limiter \<times> throttled_body" where
  "drive [] lm b = ([], Waiting, lm, b)"
| "drive (rr # rrs) lm b =
     (case poll_frame rr lm b of (p, lm', b') \<Rightarrow>
        (case p of
           Ready_end \<Rightarrow> ([], Drained, lm', b')
         | Ready_error \<Rightarrow> ([], Broken, lm', b')
         | Ready_frame f \<Rightarrow> (case drive rrs lm' b' of (fs, rest) \<Rightarrow> (f # fs, rest))
         | Pending_woken \<Rightarrow> drive rrs lm' b'
         | Pending_inner \<Rightarrow> drive rrs lm' b'))"

section \<open>Facts about the bucket\<close>

lemma bucket_cap_f64 [simp]: "bucket_cap (f64_of_u64 n) = 2 * f64_of_u64 n"
  by (simp add: bucket_cap_def f64_of_u64_def fl_idem f64.rnd_double mult.commute)

lemma f64_of_u64_nonneg [simp]: "0 \<le> f64_of_u64 n"
  unfolding f64_of_u64_def by (rule f64.rnd_nonneg) (rule of_nat_0_le_iff)

lemma f64_of_u64_fixed [simp]: "fl 53 (f64_of_u64 n) = f64_of_u64 n"
  by (simp add: f64_of_u64_def fl_idem)

lemma f64_of_u64_cap_fixed [simp]: "fl 53 (2 * f64_of_u64 n) = 2 * f64_of_u64 n"
  by (simp add: f64.rnd_double)

lemma f64_of_u64_exact: "unat n \<le> 2 ^ 53 \<Longrightarrow> f64_of_u64 n = of_nat (unat n)"
  unfolding f64_of_u64_def by (rule fl_of_nat) simp_all

lemma f64_of_u64_mono: "unat m \<le> unat n \<Longrightarrow> f64_of_u64 m \<le> f64_of_u64 n"
  unfolding f64_of_u64_def by (rule f64.rnd_mono) (simp only: of_nat_le_iff)

lemma as_secs_nonneg [simp]: "0 \<le> as_secs_f64 d"
  by (simp add: as_secs_f64_def f64.rnd_nonneg)

lemma as_secs_exact: "as_secs_f64 (s * nanos_per_sec) = fl 53 (of_nat s)"
  by (simp add: as_secs_f64_def fl_idem)

lemma as_secs_upper:
  "as_secs_f64 d \<le> (1 + f64_eps) ^ 2 * (of_nat d / of_nat nanos_per_sec)"
proof -
  let ?n = "of_nat nanos_per_sec :: rat" and ?e = "1 + f64_eps"
  let ?s = "of_nat (d div nanos_per_sec) :: rat" and ?m = "of_nat (d mod nanos_per_sec) / ?n"
  have e: "0 \<le> ?e" using f64.eps_nonneg by simp
  have n: "0 < ?n" by simp
  have factor: "e * (e * s + e * m) = e ^ 2 * (s + m)" for e s m :: rat
    by (simp add: power2_eq_square algebra_simps)
  have "as_secs_f64 d \<le> ?e * (fl 53 ?s + fl 53 ?m)"
    unfolding as_secs_f64_def by (intro f64.rnd_upper add_nonneg_nonneg f64.rnd_nonneg) simp_all
  also have "\<dots> \<le> ?e * (?e * ?s + ?e * ?m)"
    by (intro mult_left_mono add_mono f64.rnd_upper e) simp_all
  also have "\<dots> = ?e ^ 2 * (?s + ?m)" by (rule factor)
  also have "?s + ?m = of_nat d / ?n"
  proof -
    have "(of_nat d :: rat) = of_nat (d div nanos_per_sec * nanos_per_sec + d mod nanos_per_sec)"
      by simp
    also have "\<dots> = ?s * ?n + of_nat (d mod nanos_per_sec)" by (simp only: of_nat_add of_nat_mult)
    finally show ?thesis using n by (simp add: field_simps)
  qed
  finally show ?thesis .
qed

text \<open>The bucket holds between nothing and two seconds of traffic.\<close>

definition bucket_inv :: "u64 \<Rightarrow> token_bucket \<Rightarrow> bool" where
  "bucket_inv rate b \<longleftrightarrow> 0 \<le> tokens b \<and> tokens b \<le> 2 * f64_of_u64 rate"

lemma bucket_inv_new [simp]: "bucket_inv rate (bucket_new t)"
  by (simp add: bucket_inv_def bucket_new_def)

lemma refill_inv: "bucket_inv rate b \<Longrightarrow> bucket_inv rate (refill (f64_of_u64 rate) now b)"
  by (auto simp: bucket_inv_def refill_def Let_def
      intro!: f64.rnd_nonneg add_nonneg_nonneg mult_nonneg_nonneg)

lemma consume_inv:
  assumes "bucket_inv rate b" and "0 \<le> amount"
  shows "bucket_inv rate (snd (consume (f64_of_u64 rate) amount now b))"
  using refill_inv [OF assms(1), of now] assms(2)
  by (auto simp: bucket_inv_def consume_def Let_def intro!: f64.rnd_nonneg f64.rnd_le)

lemma refill_upper:
  assumes "bucket_inv rate b"
  shows "tokens (refill (f64_of_u64 rate) now b)
     \<le> tokens b + (1 + f64_eps) ^ 3 * f64_of_u64 rate
                    * (of_nat (now - last_fill b) / of_nat nanos_per_sec)
       + f64_eps * (2 * f64_of_u64 rate)"
proof -
  let ?r = "f64_of_u64 rate" and ?e = "1 + f64_eps"
  let ?d = "now - last_fill b"
  let ?s = "of_nat ?d / of_nat nanos_per_sec :: rat"
  let ?inc = "fl 53 (as_secs_f64 ?d * ?r)"
  have e: "0 \<le> ?e" "0 \<le> f64_eps" using f64.eps_nonneg by simp_all
  have "?inc \<le> ?e * (as_secs_f64 ?d * ?r)" by (intro f64.rnd_upper mult_nonneg_nonneg) simp_all
  also have "\<dots> \<le> ?e * (?e ^ 2 * ?s * ?r)"
    by (intro mult_left_mono mult_right_mono as_secs_upper e) simp_all
  also have "\<dots> = ?e ^ 3 * ?r * ?s" by (simp add: power3_eq_cube power2_eq_square)
  finally have inc: "?inc \<le> ?e ^ 3 * ?r * ?s" .
  have inc0: "0 \<le> ?inc" by (intro f64.rnd_nonneg mult_nonneg_nonneg) simp_all
  have t0: "0 \<le> tokens b" using assms by (simp add: bucket_inv_def)
  have c0: "0 \<le> f64_eps * (2 * ?r)" using e by simp
  have "tokens (refill ?r now b) \<le> tokens b + ?inc + f64_eps * (2 * ?r)"
  proof (cases "tokens b + ?inc \<le> 2 * ?r")
    case True
    then have "fl 53 (tokens b + ?inc) \<le> tokens b + ?inc + f64_eps * (2 * ?r)"
      using t0 inc0 by (intro f64.rnd_upper_cap) simp_all
    then show ?thesis by (auto simp: refill_def Let_def duration_since_def)
  next
    case False
    then show ?thesis using c0 by (auto simp: refill_def Let_def duration_since_def)
  qed
  with inc show ?thesis by linarith
qed

lemma consume_upper:
  assumes "bucket_inv rate b" and "0 \<le> amount"
    and "consume (f64_of_u64 rate) amount now b = (ok, b')"
  shows "(if ok then amount else 0) + tokens b'
     \<le> tokens b + (1 + f64_eps) ^ 3 * f64_of_u64 rate
                    * (of_nat (now - last_fill b) / of_nat nanos_per_sec)
       + 2 * (f64_eps * (2 * f64_of_u64 rate))"
proof -
  let ?b = "refill (f64_of_u64 rate) now b" and ?c = "f64_eps * (2 * f64_of_u64 rate)"
  have c0: "0 \<le> ?c" using f64.eps_nonneg by simp
  have "(if ok then amount else 0) + tokens b' \<le> tokens ?b + ?c"
  proof (cases "amount \<le> tokens ?b")
    case True
    have "fl 53 (tokens ?b - amount) \<le> tokens ?b - amount + ?c"
      using True assms(2) refill_inv [OF assms(1), of now]
      by (intro f64.rnd_upper_cap) (simp_all add: bucket_inv_def)
    with True assms(3) show ?thesis by (auto simp: consume_def Let_def)
  next
    case False
    with assms(3) c0 show ?thesis by (auto simp: consume_def Let_def)
  qed
  with refill_upper [OF assms(1), of now] show ?thesis by linarith
qed

lemma consume_last_fill: "consume rate amount now b = (ok, b') \<Longrightarrow> last_fill b' = now"
  by (auto simp: consume_def refill_def Let_def split: if_splits)

section \<open>Runs of one bucket\<close>

text \<open>Requests to one bucket in the order in which they hold it: the instant and the amount of each.\<close>

fun consume_run :: "rat \<Rightarrow> (instant \<times> rat) list \<Rightarrow> token_bucket \<Rightarrow> rat \<times> token_bucket" where
  "consume_run rate [] b = (0, b)"
| "consume_run rate ((now, amount) # qs) b =
     (case consume rate amount now b of (ok, b') \<Rightarrow>
        (case consume_run rate qs b' of (granted, b'') \<Rightarrow>
           ((if ok then amount else 0) + granted, b'')))"

lemma consume_run_inv:
  "bucket_inv rate b \<Longrightarrow> \<forall>(t, a) \<in> set qs. 0 \<le> a \<Longrightarrow>
     bucket_inv rate (snd (consume_run (f64_of_u64 rate) qs b))"
proof (induction qs arbitrary: b)
  case (Cons q qs)
  obtain t a where "q = (t, a)" by (cases q)
  with Cons consume_inv [OF Cons.prems(1), of a t] show ?case
    by (auto simp: split_beta)
qed simp

lemma consume_run_upper:
  assumes "bucket_inv rate b" and "\<forall>(t, a) \<in> set qs. 0 \<le> a"
    and "sorted (last_fill b # map fst qs)"
  shows "fst (consume_run (f64_of_u64 rate) qs b)
     \<le> tokens b + (1 + f64_eps) ^ 3 * f64_of_u64 rate
           * (of_nat (last (last_fill b # map fst qs) - last_fill b) / of_nat nanos_per_sec)
       + of_nat (length qs) * (2 * (f64_eps * (2 * f64_of_u64 rate)))"
  using assms
proof (induction qs arbitrary: b)
  case Nil
  then show ?case by (simp add: bucket_inv_def)
next
  case (Cons q qs)
  let ?K = "(1 + f64_eps) ^ 3 * f64_of_u64 rate" and ?n = "of_nat nanos_per_sec :: rat"
  let ?c = "2 * (f64_eps * (2 * f64_of_u64 rate))"
  obtain t a where q: "q = (t, a)" by (cases q)
  obtain ok b' where step: "consume (f64_of_u64 rate) a t b = (ok, b')" by fastforce
  have a: "0 \<le> a" and t: "last_fill b \<le> t" "sorted (t # map fst qs)"
    using Cons.prems q by auto
  have b': "bucket_inv rate b'" "last_fill b' = t"
    using consume_inv [OF Cons.prems(1) a, of t] consume_last_fill [OF step] step by auto
  let ?fin = "last (t # map fst qs)"
  have le: "t \<le> ?fin"
    using t(2) by (cases qs rule: rev_cases) (auto simp: sorted_append)
  have IH: "fst (consume_run (f64_of_u64 rate) qs b')
      \<le> tokens b' + ?K * (of_nat (?fin - t) / ?n) + of_nat (length qs) * ?c"
    using Cons.IH [OF b'(1)] Cons.prems(2) t(2) q b'(2) by auto
  have up: "(if ok then a else 0) + tokens b' \<le> tokens b + ?K * (of_nat (t - last_fill b) / ?n) + ?c"
    by (rule consume_upper [OF Cons.prems(1) a step])
  have "of_nat (?fin - last_fill b) = (of_nat (?fin - t) + of_nat (t - last_fill b) :: rat)"
    using le t(1) by (simp flip: of_nat_add)
  then have split: "?K * (of_nat (?fin - last_fill b) / ?n)
      = ?K * (of_nat (?fin - t) / ?n) + ?K * (of_nat (t - last_fill b) / ?n)"
    by (simp only: add_divide_distrib distrib_left)
  have "fst (consume_run (f64_of_u64 rate) (q # qs) b)
      = (if ok then a else 0) + fst (consume_run (f64_of_u64 rate) qs b')"
    by (simp add: q step split: prod.splits)
  also have "\<dots> \<le> tokens b + ?K * (of_nat (?fin - last_fill b) / ?n) + (of_nat (length qs) * ?c + ?c)"
    using IH up split by linarith
  finally show ?case
    using q by (simp add: distrib_right)
qed

section \<open>Waiting for quota\<close>

lemma consume_too_large:
  assumes "bucket_inv rate b" and "2 * f64_of_u64 rate < amount"
  shows "\<not> fst (consume (f64_of_u64 rate) amount now b)"
  using refill_inv [OF assms(1), of now] assms(2)
  by (auto simp: consume_def Let_def bucket_inv_def)

lemma refill_full:
  assumes "bucket_inv rate b" and "last_fill b + 2 * nanos_per_sec \<le> now"
  shows "tokens (refill (f64_of_u64 rate) now b) = 2 * f64_of_u64 rate"
proof -
  let ?r = "f64_of_u64 rate" and ?d = "now - last_fill b"
  have d: "2 * nanos_per_sec \<le> ?d" using assms(2) by linarith
  have "2 \<le> ?d div nanos_per_sec"
    using div_le_mono [OF d, of nanos_per_sec] by simp
  then have "(2 :: rat) \<le> of_nat (?d div nanos_per_sec)" by simp
  then have "fl 53 2 \<le> fl 53 (of_nat (?d div nanos_per_sec))" by (rule f64.rnd_mono)
  moreover have two: "fl 53 2 = (2 :: rat)" using fl_of_nat [of 53 2] by simp
  moreover have "0 \<le> fl 53 (of_nat (?d mod nanos_per_sec) / of_nat nanos_per_sec)"
    by (intro f64.rnd_nonneg) simp
  ultimately have "2 \<le> as_secs_f64 ?d"
    unfolding as_secs_f64_def by (intro f64.rnd_ge) simp_all
  then have "2 * ?r \<le> fl 53 (as_secs_f64 ?d * ?r)"
    by (intro f64.rnd_ge mult_right_mono) simp_all
  then have "2 * ?r \<le> tokens b + fl 53 (as_secs_f64 ?d * ?r)"
    using assms(1) by (simp add: bucket_inv_def)
  then have "2 * ?r \<le> fl 53 (tokens b + fl 53 (as_secs_f64 ?d * ?r))"
    by (intro f64.rnd_ge) simp_all
  then show ?thesis by (auto simp: refill_def Let_def duration_since_def)
qed

lemma consume_after_wait:
  assumes "bucket_inv rate b" and "last_fill b + 2 * nanos_per_sec \<le> now"
    and "amount \<le> 2 * f64_of_u64 rate"
  shows "fst (consume (f64_of_u64 rate) amount now b)"
  using refill_full [OF assms(1,2)] assms(3) by (simp add: consume_def Let_def)

section \<open>The table\<close>

definition limiter_inv :: "u64 \<Rightarrow> bandwidth_limiter \<Rightarrow> bool" where
  "limiter_inv rate lm \<longleftrightarrow> (\<forall>ip b. lm ip = Some b \<longrightarrow> bucket_inv rate b)"

lemma limiter_inv_new [simp]: "limiter_inv rate limiter_new"
  by (simp add: limiter_inv_def limiter_new_def)

lemma limiter_bucket:
  "limiter_inv rate lm \<Longrightarrow>
     bucket_inv rate (case lm ip of Some b \<Rightarrow> b | None \<Rightarrow> bucket_new t)"
  by (auto simp: limiter_inv_def split: option.splits)

lemma try_consume_inv:
  assumes "limiter_inv rate lm" and "try_consume r ip rate amount lm = (ok, lm')"
  shows "limiter_inv rate lm'"
  using assms consume_inv [OF limiter_bucket [OF assms(1)] f64_of_u64_nonneg]
  by (auto simp: try_consume_def Let_def limiter_inv_def split: prod.splits if_splits)
     (metis snd_conv)

lemma try_consume_other:
  "try_consume r ip rate amount lm = (ok, lm') \<Longrightarrow> ip' \<noteq> ip \<Longrightarrow> lm' ip' = lm ip'"
  by (auto simp: try_consume_def Let_def split: prod.splits)

lemma try_consume_too_large:
  assumes "limiter_inv rate lm" and "2 * f64_of_u64 rate < f64_of_u64 amount"
  shows "\<not> fst (try_consume r ip rate amount lm)"
  using consume_too_large [OF limiter_bucket [OF assms(1)] assms(2)]
  by (simp add: try_consume_def Let_def split: prod.splits) (metis fst_conv)

text \<open>What one address is granted in a run of requests of any addresses.\<close>

fun granted_run ::
  "u64 \<Rightarrow> ip_addr \<Rightarrow> (ip_addr \<times> reading \<times> u64) list \<Rightarrow> bandwidth_limiter \<Rightarrow> rat" where
  "granted_run rate ip [] lm = 0"
| "granted_run rate ip ((ip', r, amount) # evs) lm =
     (case try_consume r ip' rate amount lm of (ok, lm') \<Rightarrow>
        (if ok \<and> ip' = ip then f64_of_u64 amount else 0) + granted_run rate ip evs lm')"

definition requests_of :: "ip_addr \<Rightarrow> (ip_addr \<times> reading \<times> u64) list \<Rightarrow> (instant \<times> rat) list" where
  "requests_of ip evs =
     map (\<lambda>(ip', r, amount). (snd r, f64_of_u64 amount)) (filter (\<lambda>ev. fst ev = ip) evs)"

text \<open>The addresses do not share quota: a run of the table is a run of the bucket of the address.\<close>

lemma granted_run_bucket:
  "lm ip = Some b \<Longrightarrow>
     granted_run rate ip evs lm = fst (consume_run (f64_of_u64 rate) (requests_of ip evs) b)"
proof (induction evs arbitrary: lm b)
  case Nil
  then show ?case by (simp add: requests_of_def)
next
  case (Cons ev evs)
  obtain ip' r amount where ev: "ev = (ip', r, amount)" by (cases ev)
  obtain ok lm' where step: "try_consume r ip' rate amount lm = (ok, lm')" by fastforce
  show ?case
  proof (cases "ip' = ip")
    case True
    with step Cons.prems obtain b' where b': "lm' ip = Some b'"
      "consume (f64_of_u64 rate) (f64_of_u64 amount) (snd r) b = (ok, b')"
      by (auto simp: try_consume_def Let_def split: prod.splits)
    with Cons.IH [of lm' b'] ev step True show ?thesis
      by (simp add: requests_of_def split_beta)
  next
    case False
    with Cons.IH [of lm' b] Cons.prems ev step try_consume_other [OF step, of ip] show ?thesis
      by (simp add: requests_of_def)
  qed
qed

section \<open>Facts about the throttled body\<close>

text \<open>The frames that a stream offers up to its end or first error.\<close>

fun stream_frames :: "stream \<Rightarrow> frame list" where
  "stream_frames [] = []"
| "stream_frames (Ready f # xs) = f # stream_frames xs"
| "stream_frames (NotReady # xs) = stream_frames xs"
| "stream_frames (Failed # xs) = []"

fun ends_in :: "stream \<Rightarrow> drive_end" where
  "ends_in [] = Drained"
| "ends_in (Failed # xs) = Broken"
| "ends_in (_ # xs) = ends_in xs"

lemma poll_stream_frames:
  assumes "poll_stream s = (p, rest)"
  shows "stream_frames s =
     (case p of Ready_frame f \<Rightarrow> f # stream_frames rest | Ready_error \<Rightarrow> []
      | Ready_end \<Rightarrow> [] | _ \<Rightarrow> stream_frames rest)"
  using assms by (cases s rule: poll_stream.cases) auto

lemma poll_stream_not_woken [simp]: "poll_stream s \<noteq> (Pending_woken, rest)"
  by (cases s rule: poll_stream.cases) auto

lemma poll_inner_frames:
  assumes "poll_inner r lm b = (p, lm', b')"
  shows "subseq (case p of Ready_frame f \<Rightarrow> f # stream_frames (inner b') | Ready_error \<Rightarrow> []
      | Ready_end \<Rightarrow> [] | _ \<Rightarrow> stream_frames (inner b')) (stream_frames (inner b))"
  using assms poll_stream_frames [of "inner b"]
  by (auto simp: poll_inner_def Let_def split: prod.splits poll.splits frame.splits if_splits)

lemma poll_frame_frames:
  assumes "poll_frame rr lm b = (p, lm', b')"
  shows "subseq (case p of Ready_frame f \<Rightarrow> f # stream_frames (inner b') | Ready_error \<Rightarrow> []
      | Ready_end \<Rightarrow> [] | _ \<Rightarrow> stream_frames (inner b')) (stream_frames (inner b))"
proof (cases "tb_rate b = 0")
  case True
  obtain q rest where s: "poll_stream (inner b) = (q, rest)" by fastforce
  with assms True have "p = q" "b' = b\<lparr>inner := rest\<rparr>" by (auto simp: poll_frame_def)
  with poll_stream_frames [OF s] show ?thesis by (cases q) simp_all
next
  case rate: False
  show ?thesis
  proof (cases "0 < pending_amount b")
    case True
    obtain ok lm1 where q: "try_consume (fst rr) (tb_ip b) (tb_rate b) (pending_amount b) lm = (ok, lm1)"
      by fastforce
    show ?thesis
    proof (cases ok)
      case True
      with q rate \<open>0 < pending_amount b\<close> assms
      have "poll_inner (snd rr) lm1 (b\<lparr>pending_amount := 0\<rparr>) = (p, lm', b')"
        by (simp add: poll_frame_def)
      from poll_inner_frames [OF this] show ?thesis by simp
    next
      case False
      with q rate \<open>0 < pending_amount b\<close> assms have "p = Pending_woken" "b' = b"
        by (auto simp: poll_frame_def)
      then show ?thesis by simp
    qed
  next
    case False
    with rate assms have "poll_inner (snd rr) lm b = (p, lm', b')" by (simp add: poll_frame_def)
    then show ?thesis by (rule poll_inner_frames)
  qed
qed

lemma drive_subseq: "subseq (fst (drive rrs lm b)) (stream_frames (inner b))"
proof (induction rrs arbitrary: lm b)
  case (Cons rr rrs)
  obtain p lm' b' where step: "poll_frame rr lm b = (p, lm', b')" by (cases "poll_frame rr lm b")
  note sub = poll_frame_frames [OF step] and IH = Cons.IH [of lm' b']
  have tr: "subseq (fst (drive rrs lm' b')) (stream_frames (inner b))"
    if "subseq (stream_frames (inner b')) (stream_frames (inner b))"
    by (rule subseq_order.order_trans [OF IH that])
  show ?case
  proof (cases p)
    case (Ready_frame f)
    have "subseq (f # fst (drive rrs lm' b')) (f # stream_frames (inner b'))" using IH by simp
    moreover have "subseq (f # stream_frames (inner b')) (stream_frames (inner b))"
      using sub Ready_frame by simp
    ultimately have "subseq (f # fst (drive rrs lm' b')) (stream_frames (inner b))"
      by (rule subseq_order.order_trans)
    then show ?thesis using step Ready_frame by (simp add: split_beta)
  next
    case Pending_woken
    have "subseq (stream_frames (inner b')) (stream_frames (inner b))"
      using sub unfolding Pending_woken by simp
    from tr [OF this] show ?thesis unfolding drive.simps step Pending_woken by simp
  next
    case Pending_inner
    have "subseq (stream_frames (inner b')) (stream_frames (inner b))"
      using sub unfolding Pending_inner by simp
    from tr [OF this] show ?thesis unfolding drive.simps step Pending_inner by simp
  next
    case Ready_error
    then show ?thesis using step by simp
  next
    case Ready_end
    then show ?thesis using step by simp
  qed
qed simp
text \<open>With quota switched off the stream passes unchanged.\<close>

text \<open>Polling keeps the bounds of every bucket.\<close>

lemma poll_inner_inv:
  assumes "limiter_inv (tb_rate b) lm" and "poll_inner r lm b = (p, lm', b')"
  shows "limiter_inv (tb_rate b) lm' \<and> tb_rate b' = tb_rate b"
  using assms by (auto simp: poll_inner_def Let_def dest: try_consume_inv
      split: prod.splits poll.splits frame.splits if_splits)

lemma poll_frame_inv:
  assumes "limiter_inv (tb_rate b) lm" and "poll_frame rr lm b = (p, lm', b')"
  shows "limiter_inv (tb_rate b) lm' \<and> tb_rate b' = tb_rate b"
proof (cases "tb_rate b = 0 \<or> pending_amount b = 0")
  case True
  with assms poll_inner_inv [OF assms(1)] show ?thesis
    by (auto simp: poll_frame_def split: prod.splits if_splits)
next
  case False
  then have pos: "0 < pending_amount b" by (simp add: word_gt_0)
  obtain ok lm1 where t: "try_consume (fst rr) (tb_ip b) (tb_rate b) (pending_amount b) lm = (ok, lm1)" by fastforce
  from poll_inner_inv [of "b\<lparr>pending_amount := 0\<rparr>" lm1 "snd rr"] try_consume_inv [OF assms(1) t] t assms(2) False pos
  show ?thesis by (auto simp: poll_frame_def split: if_splits)
qed

lemma drive_inv:
  "limiter_inv (tb_rate b) lm \<Longrightarrow> drive rrs lm b = (fs, e, lm', b') \<Longrightarrow> limiter_inv (tb_rate b) lm'"
proof (induction rrs arbitrary: lm b fs)
  case (Cons rr rrs)
  obtain p lm1 b1 where p: "poll_frame rr lm b = (p, lm1, b1)" by (cases "poll_frame rr lm b")
  have i: "limiter_inv (tb_rate b1) lm1" "tb_rate b1 = tb_rate b" using poll_frame_inv [OF Cons.prems(1) p] by auto
  show ?case using Cons.prems(2) Cons.IH [OF i(1)] i p by (auto split: poll.splits prod.splits)
qed simp

lemma drive_unlimited:
  assumes "tb_rate b = 0" and "length (inner b) < length rrs"
  shows "\<exists>rest. drive rrs lm b = (stream_frames (inner b), ends_in (inner b), lm, b\<lparr>inner := rest\<rparr>)"
  using assms
proof (induction rrs arbitrary: b)
  case (Cons rr rrs)
  show ?case
  proof (cases "inner b")
    case Nil
    then show ?thesis using Cons.prems by (auto simp: poll_frame_def)
  next
    case (Cons x xs)
    have "\<exists>rest. drive rrs lm (b\<lparr>inner := xs\<rparr>)
        = (stream_frames xs, ends_in xs, lm, b\<lparr>inner := rest\<rparr>)"
      using Cons.IH [of "b\<lparr>inner := xs\<rparr>"] Cons.prems Cons by simp
    then show ?thesis using Cons Cons.prems by (cases x) (auto simp: poll_frame_def)
  qed
qed simp

text \<open>A pending amount beyond the cap is never granted: every poll leaves the body as it is.\<close>

lemma drive_stuck:
  assumes "limiter_inv (tb_rate b) lm" and "tb_rate b \<noteq> 0" and "0 < pending_amount b"
    and "2 * f64_of_u64 (tb_rate b) < f64_of_u64 (pending_amount b)"
  shows "\<exists>lm'. drive rrs lm b = ([], Waiting, lm', b)"
  using assms
proof (induction rrs arbitrary: lm)
  case (Cons rr rrs)
  obtain ok lm' where q: "try_consume (fst rr) (tb_ip b) (tb_rate b) (pending_amount b) lm = (ok, lm')"
    by fastforce
  have "\<not> ok" using try_consume_too_large [OF Cons.prems(1,4)] q by (metis fst_conv)
  moreover have "limiter_inv (tb_rate b) lm'" by (rule try_consume_inv [OF Cons.prems(1) q])
  ultimately show ?case using Cons q by (simp add: poll_frame_def)
qed simp

lemma poll_refused:
  assumes "tb_rate b \<noteq> 0" and "pending_amount b = 0" and "inner b = Ready (Data d) # rest"
    and "\<not> fst (try_consume (snd rr) (tb_ip b) (tb_rate b) (of_nat (length d)) lm)"
  shows "poll_frame rr lm b =
      (Pending_woken, snd (try_consume (snd rr) (tb_ip b) (tb_rate b) (of_nat (length d)) lm),
       b\<lparr>inner := rest, pending_amount := of_nat (length d)\<rparr>)"
  using assms
  by (simp add: poll_frame_def poll_inner_def split_beta Let_def)

lemma eps_power: "(1 + f64_eps) ^ 4 \<le> 2"
proof -
  have "(1 / 2 :: rat) ^ 53 \<le> (1 / 2) ^ 3" by (rule power_decreasing) simp_all
  then have "f64_eps \<le> 1 / 8" by (simp add: f64_eps_def power_int_def power3_eq_cube)
  moreover have "0 \<le> f64_eps" by (rule f64.eps_nonneg)
  ultimately have "(1 + f64_eps) ^ 4 \<le> (9 / 8) ^ 4" by (intro power_mono) simp_all
  also have "\<dots> \<le> (2 :: rat)" by (simp add: power4_eq_xxxx)
  finally show ?thesis .
qed

text \<open>A fresh bucket starts empty: it grants at most twice what the time since its creation earns.\<close>

lemma refill_fresh_upper:
  "tokens (refill (f64_of_u64 rate) now (bucket_new t))
     \<le> 2 * (of_nat (unat rate) * of_nat (now - t) / of_nat nanos_per_sec)"
proof -
  let ?e = "1 + f64_eps" and ?r = "f64_of_u64 rate" and ?n = "of_nat nanos_per_sec :: rat"
  let ?u = "of_nat (unat rate) :: rat" and ?d = "of_nat (now - t) :: rat"
  have e: "0 \<le> ?e" using f64.eps_nonneg by simp
  have r: "?r \<le> ?e * ?u" unfolding f64_of_u64_def by (rule f64.rnd_upper) (rule of_nat_0_le_iff)
  have "tokens (refill ?r now (bucket_new t)) \<le> fl 53 (as_secs_f64 (now - t) * ?r)"
    by (auto simp: refill_def bucket_new_def Let_def duration_since_def fl_idem)
  also have "\<dots> \<le> ?e * (as_secs_f64 (now - t) * ?r)"
    by (intro f64.rnd_upper mult_nonneg_nonneg) simp_all
  also have "\<dots> \<le> ?e * ((?e ^ 2 * (?d / ?n)) * (?e * ?u))"
    by (intro mult_left_mono mult_mono as_secs_upper r e mult_nonneg_nonneg) (simp_all add: e)
  also have "\<dots> = ?e ^ 4 * (?u * ?d / ?n)"
    by (simp add: power4_eq_xxxx power2_eq_square)
  also have "\<dots> \<le> 2 * (?u * ?d / ?n)"
    by (intro mult_right_mono eps_power divide_nonneg_nonneg mult_nonneg_nonneg of_nat_0_le_iff)
  finally show ?thesis .
qed

lemma fresh_address_refused:
  assumes "lm ip = None" and "2 * unat rate * (now - t) < nanos_per_sec * unat amount"
    and "unat amount \<le> 2 ^ 53"
  shows "\<not> fst (try_consume (t, now) ip rate amount lm)"
proof -
  have "(of_nat (2 * unat rate * (now - t)) :: rat) < of_nat (nanos_per_sec * unat amount)"
    using assms(2) by (simp only: of_nat_less_iff)
  then have "2 * (of_nat (unat rate) * of_nat (now - t) / of_nat nanos_per_sec) < (of_nat (unat amount) :: rat)"
    by (simp add: field_simps)
  with refill_fresh_upper [of rate now t] f64_of_u64_exact [OF assms(3)]
  have "tokens (refill (f64_of_u64 rate) now (bucket_new t)) < f64_of_u64 amount" by simp
  then show ?thesis
    using assms(1) by (simp add: try_consume_def consume_def Let_def)
qed

text \<open>A frame beyond the cap is never delivered.\<close>

lemma drive_oversized:
  assumes "limiter_inv (tb_rate b) lm" and "tb_rate b \<noteq> 0" and "pending_amount b = 0"
    and "inner b = Ready (Data d) # rest"
    and "2 * f64_of_u64 (tb_rate b) < f64_of_u64 (of_nat (length d))"
  shows "\<exists>lm' b'. drive rrs lm b = ([], Waiting, lm', b')"
proof (cases rrs)
  case (Cons rr rrs')
  let ?b = "b\<lparr>inner := rest, pending_amount := of_nat (length d)\<rparr>"
  let ?q = "try_consume (snd rr) (tb_ip b) (tb_rate b) (of_nat (length d)) lm"
  have "\<not> fst ?q" by (rule try_consume_too_large [OF assms(1,5)])
  note p = poll_refused [OF assms(2,3,4) this]
  have inv: "limiter_inv (tb_rate ?b) (snd ?q)"
    using try_consume_inv [OF assms(1) surjective_pairing] by simp
  have "f64_of_u64 (of_nat (length d)) \<noteq> 0"
    using assms(5) f64_of_u64_nonneg [of "tb_rate b"] by linarith
  then have "(of_nat (length d) :: u64) \<noteq> 0" by (auto simp: f64_of_u64_def)
  then have "0 < pending_amount ?b" by (simp add: word_gt_0)
  from drive_stuck [OF inv _ this] assms(2,5) obtain lm'' where
    "drive rrs' (snd ?q) ?b = ([], Waiting, lm'', ?b)" by auto
  then show ?thesis unfolding Cons drive.simps p by simp
qed simp

section \<open>Properties\<close>

text \<open>
  C25: throughput. In any span, whatever other addresses do, the bytes granted to an address are at
  most two seconds of its rate plus the rate times the length of the span, up to the rounding of
  the floating point arithmetic: a relative error of about three units in the last place on the
  refill, and four on the rate for every request.
\<close>

theorem bandwidth_throughput:
  assumes "limiter_inv rate lm" and "lm ip = Some b"
    and "sorted (last_fill b # map fst (requests_of ip evs))"
  shows "granted_run rate ip evs lm
     \<le> 2 * f64_of_u64 rate
       + (1 + f64_eps) ^ 3 * f64_of_u64 rate
           * (of_nat (last (last_fill b # map fst (requests_of ip evs)) - last_fill b)
              / of_nat nanos_per_sec)
       + of_nat (length (requests_of ip evs)) * (4 * f64_eps * f64_of_u64 rate)"
proof -
  have b: "bucket_inv rate b" using assms(1,2) by (simp add: limiter_inv_def)
  have "\<forall>(t, a) \<in> set (requests_of ip evs). 0 \<le> a" by (auto simp: requests_of_def)
  from consume_run_upper [OF b this assms(3)] b granted_run_bucket [of lm ip b rate evs] assms(2)
  show ?thesis by (simp add: bucket_inv_def)
qed

text \<open>
  The buckets of all addresses always hold between nothing and two seconds of the configured
  rate, from the empty table on and over every sequence of requests.
\<close>

theorem bucket_bounds:
  assumes "fold (\<lambda>(ip, r, amount) lm. snd (try_consume r ip rate amount lm)) evs limiter_new ip = Some b"
  shows "0 \<le> tokens b \<and> tokens b \<le> 2 * f64_of_u64 rate"
proof -
  have "limiter_inv rate lm \<Longrightarrow>
      limiter_inv rate (fold (\<lambda>(ip, r, amount) lm. snd (try_consume r ip rate amount lm)) evs lm)" for lm
    by (induction evs arbitrary: lm) (auto intro: try_consume_inv [OF _ surjective_pairing])
  from this [OF limiter_inv_new] assms show ?thesis
    by (simp add: limiter_inv_def bucket_inv_def)
qed

text \<open>
  No starvation for an address on its own: when two seconds have passed since its bucket was
  last used, a request of at most two seconds of the rate is granted.
\<close>

theorem quota_after_wait:
  assumes "limiter_inv rate lm" and "lm ip = Some b" and "last_fill b + 2 * nanos_per_sec \<le> now"
    and "f64_of_u64 amount \<le> 2 * f64_of_u64 rate"
  shows "fst (try_consume (t, now) ip rate amount lm)"
  using consume_after_wait [of rate b now "f64_of_u64 amount"] assms
  by (simp add: try_consume_def Let_def limiter_inv_def split: prod.splits) (metis fst_conv)

text \<open>
  A frame of more than two seconds of the rate never gets through: from the poll that meets
  it on, every poll is pending, whatever the readings of the clock, and nothing is delivered.
\<close>

theorem oversized_frame_stalls:
  assumes "limiter_inv (tb_rate b) lm" and "tb_rate b \<noteq> 0" and "pending_amount b = 0"
    and "inner b = Ready (Data d) # rest"
    and "2 * f64_of_u64 (tb_rate b) < f64_of_u64 (of_nat (length d))"
  shows "\<exists>lm' b'. drive rrs lm b = ([], Waiting, lm', b')"
  by (rule drive_oversized [OF assms])

text \<open>
  A body without a rate limit is handed on unchanged: enough polls deliver every frame of the
  inner body in order, and its end or its error.
\<close>

theorem unlimited_body_transparent:
  assumes "length s < length rrs"
  shows "fst (drive rrs lm (throttled_new s ip 0)) = stream_frames s \<and>
         fst (snd (drive rrs lm (throttled_new s ip 0))) = ends_in s"
  using drive_unlimited [of "throttled_new s ip 0" rrs lm] assms by (auto simp: throttled_new_def)

lemma refused_data_lost:
  assumes "tb_rate b \<noteq> 0" and "pending_amount b = 0" and "inner b = Ready (Data d) # rest"
    and "\<not> fst (try_consume (snd rr) (tb_ip b) (tb_rate b) (of_nat (length d)) lm)"
  shows "subseq (fst (drive (rr # rrs) lm b)) (stream_frames rest)"
proof -
  let ?b = "b\<lparr>inner := rest, pending_amount := of_nat (length d)\<rparr>"
  let ?lm = "snd (try_consume (snd rr) (tb_ip b) (tb_rate b) (of_nat (length d)) lm)"
  have "subseq (fst (drive rrs ?lm ?b)) (stream_frames rest)"
    using drive_subseq [of rrs ?lm ?b] by simp
  then show ?thesis unfolding drive.simps poll_refused [OF assms] by simp
qed

text \<open>
  A data frame that is refused quota is lost: it has left the inner body, only its length is
  kept, and whatever is polled later comes from the rest of the stream.
\<close>

theorem refused_frame_is_lost:
  assumes "tb_rate b \<noteq> 0" and "pending_amount b = 0" and "inner b = Ready (Data d) # rest"
    and "\<not> fst (try_consume (snd rr) (tb_ip b) (tb_rate b) (of_nat (length d)) lm)"
  shows "subseq (fst (drive (rr # rrs) lm b)) (stream_frames rest)"
  by (rule refused_data_lost [OF assms])

text \<open>
  The first data frame for an address that has no bucket yet is lost as a rule: a fresh bucket
  is empty, so unless half the frame's share of the rate has passed between the two readings of
  the clock in that one call, the frame is refused and never delivered.
\<close>

theorem first_frame_lost:
  assumes "lm ip = None" and "rate \<noteq> 0" and "length d \<le> 2 ^ 53"
    and "2 * unat rate * (snd (snd rr) - fst (snd rr)) < nanos_per_sec * length d"
  shows "subseq (fst (drive (rr # rrs) lm (throttled_new (Ready (Data d) # rest) ip rate)))
           (stream_frames rest)"
proof -
  have n: "unat (of_nat (length d) :: u64) = length d"
    using assms(3) by (simp add: unat_of_nat take_bit_nat_eq_self)
  have "\<not> fst (try_consume (fst (snd rr), snd (snd rr)) ip rate (of_nat (length d)) lm)"
    using assms n by (intro fresh_address_refused) simp_all
  then show ?thesis
    using assms(2) by (intro refused_data_lost) (simp_all add: throttled_new_def)
qed

section \<open>Witnesses and an example\<close>

definition demo_stream :: stream where
  "demo_stream = [Ready (Data (blit ''HELO'')), Ready (Data (blit ''world''))]"

definition demo_readings :: "(reading \<times> reading) list" where
  "demo_readings = [((0, 0), (0, 0)), ((5000000000, 5000000000), (5000000000, 5000000000)),
     ((6000000000, 6000000000), (6000000000, 6000000000))]"

definition demo_bucket :: token_bucket where
  "demo_bucket = \<lparr>tokens = 500, last_fill = 1000000000\<rparr>"

lemma demo_last_fill [simp]: "last_fill demo_bucket = 1000000000"
  by (simp add: demo_bucket_def)

abbreviation demo_client :: ip_addr where
  "demo_client \<equiv> V4 10 0 0 1"

abbreviation demo_limiter :: bandwidth_limiter where
  "demo_limiter \<equiv> [demo_client \<mapsto> demo_bucket]"

lemma demo_rate [simp]: "f64_of_u64 1000 = 1000"
  by (subst f64_of_u64_exact) simp_all

lemma demo_limiter_inv [simp]: "limiter_inv 1000 demo_limiter"
  by (auto simp: limiter_inv_def bucket_inv_def demo_bucket_def)

lemmas bandwidth_eval = poll_frame_def poll_inner_def try_consume_def limiter_new_def consume_def
  refill_def bucket_new_def throttled_new_def Let_def f64_of_u64_exact as_secs_f64_def
  duration_since_def nanos_per_sec_def bucket_cap_def demo_stream_def demo_readings_def

text \<open>
  An upstream that sends two chunks to a client at 1000 bytes per second, polled at once, after
  five and after six seconds: the client gets the second chunk only.
\<close>

theorem throttling_drops_a_chunk:
  "fst (drive demo_readings limiter_new (throttled_new demo_stream demo_client 1000))
     = [Data (blit ''world'')]"
  by (simp add: bandwidth_eval)

theorem first_frame_lost_witness:
  "subseq (fst (drive demo_readings limiter_new (throttled_new demo_stream demo_client 1000)))
     (stream_frames [Ready (Data (blit ''world''))])"
  unfolding demo_readings_def demo_stream_def
  by (rule first_frame_lost) (simp_all add: limiter_new_def nanos_per_sec_def)

theorem refused_frame_is_lost_witness:
  "subseq (fst (drive [((0, 0), (0, 0))] limiter_new (throttled_new demo_stream demo_client 1000)))
     (stream_frames [Ready (Data (blit ''world''))])"
  by (rule refused_frame_is_lost [where d = "blit ''HELO''"]) (simp_all add: bandwidth_eval)

theorem unlimited_body_transparent_witness:
  "fst (drive demo_readings limiter_new (throttled_new demo_stream demo_client 0)) = stream_frames demo_stream"
  using unlimited_body_transparent [of demo_stream demo_readings limiter_new demo_client]
  by (simp add: demo_stream_def demo_readings_def)

definition big_chunk :: "byte list" where
  "big_chunk = blit ''forty bytes is more than two seconds''"

lemma small_rates [simp]: "f64_of_u64 10 = 10" "f64_of_u64 36 = 36"
  by (subst f64_of_u64_exact; simp)+

theorem oversized_frame_stalls_witness:
  "\<exists>lm' b'. drive demo_readings limiter_new
      (throttled_new [Ready (Data big_chunk)] demo_client 10) = ([], Waiting, lm', b')"
  by (rule oversized_frame_stalls [where d = big_chunk and rest = "[]"])
    (simp_all add: throttled_new_def big_chunk_def)

theorem quota_after_wait_witness: "fst (try_consume (0, 3000000000) demo_client 1000 36 demo_limiter)"
  by (rule quota_after_wait [where b = demo_bucket, OF demo_limiter_inv])
    (simp_all add: demo_bucket_def nanos_per_sec_def)

theorem bandwidth_throughput_witness:
  "granted_run 1000 demo_client
      [(demo_client, (0, 1500000000), 36), (V4 10 0 0 2, (0, 1), 36), (demo_client, (0, 2000000000), 10)]
      demo_limiter
     \<le> 2 * 1000 + (1 + f64_eps) ^ 3 * 1000 * (of_nat 1000000000 / of_nat nanos_per_sec)
       + of_nat 2 * (4 * f64_eps * 1000)"
  using bandwidth_throughput [of 1000 demo_limiter demo_client demo_bucket
      "[(demo_client, (0, 1500000000), 36), (V4 10 0 0 2, (0, 1), 36), (demo_client, (0, 2000000000), 10)]", OF demo_limiter_inv]
  by (simp add: requests_of_def del: granted_run.simps)

theorem bucket_bounds_witness: "0 \<le> (0 :: rat) \<and> (0 :: rat) \<le> 2 * f64_of_u64 1000"
  using bucket_bounds [of 1000 "[(demo_client, (5, 5), 36)]" demo_client "bucket_new 5"]
  by (simp add: bandwidth_eval)

end
