(* ===== verification/Waf.thy ===== *)
theory Waf
  imports Waf_Core Waf_Path Waf_Structure Waf_File Waf_Dlp Http Bandwidth
begin

text \<open>
  The firewall's three phases (\<open>src/waf/mod.rs\<close>): the inspection of target, query and agent
  before the body is read, the inspection of the buffered body, and the masking of the answer. The
  crates the phases call are collected in the record \<open>waf_lib\<close>; \<open>waf_contracts\<close> is the
  conjunction of their contracts.
\<close>

section \<open>Operations\<close>

record waf_lib =
  w_unicode :: unicode
  w_regex :: rx_engine
  w_ac :: ac_matcher
  w_http :: http_lib

text \<open>\<open>headers.get(name).and_then(|v| v.to_str().ok())\<close>.\<close>

definition header_text :: "http_lib \<Rightarrow> header_map \<Rightarrow> header_name \<Rightarrow> ustr option" where
  "header_text H hs k = (case hdr_get hs k of None \<Rightarrow> None | Some v \<Rightarrow> to_str H v)"

definition waf_header :: "waf_lib \<Rightarrow> uri \<Rightarrow> http_method \<Rightarrow> header_map \<Rightarrow> string + unit" where
  "waf_header L uri method headers =
     (let raw_path = target_of uri;
          normalized_path = normalize_url raw_path
      in if is_traversal (w_ac L) normalized_path then Inl ''Directory Traversal detected''
         else if is_attack (w_regex L) (as_bytes normalized_path)
         then Inl ''Malicious pattern detected in URI''
         else if (case uri_query uri of Some query \<Rightarrow> has_parameter_pollution query | None \<Rightarrow> False)
         then Inl ''HTTP Parameter Pollution detected in URI''
         else if (case header_text (w_http L) headers (lit ''user-agent'') of
                    Some ua \<Rightarrow> is_malicious_bot (w_unicode L) ua | None \<Rightarrow> False)
         then Inl ''Malicious Bot detected''
         else Inr ())"

definition waf_body :: "waf_lib \<Rightarrow> header_map \<Rightarrow> byte list \<Rightarrow> string + unit" where
  "waf_body L headers body_bytes =
     (case check_magic_number body_bytes of
        Inl e \<Rightarrow> Inl e
      | Inr _ \<Rightarrow>
          if (case header_text (w_http L) headers (lit ''content-type'') of
                Some ct \<Rightarrow> \<not> is_allowed_file_type ct body_bytes | None \<Rightarrow> False)
          then Inl ''File signature mismatch with Content-Type''
          else
            (let body_str = from_utf8_lossy body_bytes
             in if \<not> check_json_depth body_str 10 then Inl ''JSON nesting too deep''
                else if is_high_density (w_unicode L) body_str density_threshold
                then Inl ''High payload density detected''
                else if has_parameter_pollution body_str
                then Inl ''Parameter Pollution detected in payload''
                else if is_attack (w_regex L) body_bytes
                then Inl ''Malicious pattern detected in payload''
                else Inr ()))"

text \<open>The boxed bodies that a response can have.\<close>

datatype box_body = Throttled throttled_body | Full "byte list" | Empty

definition is_text_type :: "unicode \<Rightarrow> ustr \<Rightarrow> bool" where
  "is_text_type u ct =
     (let s = u_lowercase u ct
      in contains s (lit ''text/'') \<or> contains s (lit ''json'') \<or> contains s (lit ''xml'')
         \<or> contains s (lit ''javascript''))"

fun frames_data :: "frame list \<Rightarrow> byte list" where
  "frames_data [] = []"
| "frames_data (Data d # fs) = d @ frames_data fs"
| "frames_data (Trailers t # fs) = frames_data fs"

text \<open>
  Collecting polls the body once per pair of clock readings. If the readings run out before the
  body ends, the call has not returned: the result is \<^term>\<open>None\<close>, and the limiter is left as the
  polls so far have made it.
\<close>

definition apply_dlp ::
  "waf_lib \<Rightarrow> (reading \<times> reading) list \<Rightarrow> bandwidth_limiter \<Rightarrow> header_map \<Rightarrow> throttled_body
     \<Rightarrow> box_body option \<times> bandwidth_limiter" where
  "apply_dlp L rrs lm headers body =
     (let is_text = (case header_text (w_http L) headers (lit ''content-type'') of
                       Some ct \<Rightarrow> is_text_type (w_unicode L) ct | None \<Rightarrow> False)
      in if \<not> is_text then (Some (Throttled body), lm)
         else
           (case drive rrs lm body of (fs, outcome, lm', _) \<Rightarrow>
              (case outcome of
                 Drained \<Rightarrow>
                   (let original = from_utf8_lossy (frames_data fs);
                        masked = mask_sensitive_info (w_regex L) original
                    in (Some (Full (as_bytes masked)), lm'))
               | Broken \<Rightarrow> (Some Empty, lm')
               | Waiting \<Rightarrow> (None, lm'))))"

section \<open>Contracts\<close>

definition waf_contracts :: "waf_lib \<Rightarrow> bool" where
  "waf_contracts L \<longleftrightarrow>
     regex_engine (w_unicode L) (w_regex L) \<and> aho_corasick (w_ac L) \<and> http_values (w_http L)"

definition waf_ref :: waf_lib where
  "waf_ref = \<lparr>w_unicode = ascii_tables, w_regex = ref_engine ascii_tables, w_ac = ac_ref,
     w_http = http_ref\<rparr>"

lemma waf_ref_simps [simp]:
  "w_unicode waf_ref = ascii_tables" "w_regex waf_ref = ref_engine ascii_tables"
  "w_ac waf_ref = ac_ref" "w_http waf_ref = http_ref"
  by (simp_all add: waf_ref_def)

lemma waf_ref_contracts: "waf_contracts waf_ref"
  by (simp add: waf_contracts_def ascii_rx.regex_engine_axioms ac_scan.aho_corasick_axioms
      ref_http.http_values_axioms)

lemma waf_contractsD:
  assumes "waf_contracts L"
  shows "regex_engine (w_unicode L) (w_regex L)" "aho_corasick (w_ac L)" "http_values (w_http L)"
    "unicode_tables (w_unicode L)"
  using assms by (auto simp: waf_contracts_def regex_engine_def)

lemma header_text_ascii:
  assumes "waf_contracts L" and "header_text (w_http L) hs k = Some s"
  shows "\<forall>c \<in> set s. is_ascii c"
  using http_values.to_str_ascii [OF waf_contractsD(3) [OF assms(1)]] assms(2)
  by (auto simp: header_text_def split: option.splits)

section \<open>Texts\<close>

lemma normalize_scalar:
  assumes "\<forall>c \<in> set s. is_scalar c"
  shows "\<forall>c \<in> set (normalize_url s). is_scalar c"
  using assms
proof (induction s rule: normalize_url.induct)
  case (2 c s)
  have d: "\<forall>c \<in> set (drop 2 s). is_scalar c" "\<forall>c \<in> set (take 2 s). is_scalar c"
    using 2(4) by (auto dest: in_set_dropD in_set_takeD)
  show ?case
  proof (cases "c = 37")
    case True
    have rest: "\<forall>c \<in> set (normalize_url (drop 2 s)). is_scalar c"
      using "2.IH"(1,2) [OF True refl refl] d(1) by (cases "u8_from_str_radix 16 (take 2 s)") blast+
    have "is_scalar 37" "\<And>b. u8_from_str_radix 16 (take 2 s) = Some b \<Longrightarrow> is_scalar b"
      by (auto simp: is_scalar_def dest: u8_from_str_radix_bound)
    with True rest d(2) show ?thesis by (simp add: Let_def split: option.splits) blast
  next
    case False
    with "2.IH"(3) [OF False] "2.prems" show ?thesis by simp
  qed
qed simp

text \<open>The verdicts in terms of the text.\<close>

definition has_traversal :: "ustr \<Rightarrow> bool" where
  "has_traversal s \<longleftrightarrow> (\<exists>p \<in> set traversal_patterns. occurs_nocase p s)"

definition has_injection :: "ustr \<Rightarrow> bool" where
  "has_injection s \<longleftrightarrow> (\<exists>a w b. s = a @ w @ b \<and> injection w)"

definition ascii_injection :: "ustr \<Rightarrow> bool" where
  "ascii_injection s \<longleftrightarrow> (\<exists>a w b. s = a @ w @ b \<and> injection w \<and> (\<forall>c \<in> set w. is_ascii c))"

definition bot_agent :: "ustr \<Rightarrow> bool" where
  "bot_agent ua \<longleftrightarrow> (\<exists>n \<in> set bot_names. occurs_nocase n ua)"

lemma traversal_spec: "waf_contracts L \<Longrightarrow> is_traversal (w_ac L) s \<longleftrightarrow> has_traversal s"
  unfolding has_traversal_def by (rule aho_corasick.traversal_iff [OF waf_contractsD(2)])

lemma attack_spec:
  "waf_contracts L \<Longrightarrow> \<forall>c \<in> set s. is_scalar c \<Longrightarrow>
     is_attack (w_regex L) (as_bytes s) \<longleftrightarrow> has_injection s"
  unfolding has_injection_def by (rule is_attack_injection [OF waf_contractsD(1)])

lemma bot_spec:
  assumes "waf_contracts L" and "header_text (w_http L) hs k = Some ua"
  shows "is_malicious_bot (w_unicode L) ua \<longleftrightarrow> bot_agent ua"
proof -
  have "u_lowercase (w_unicode L) ua = map ascii_lower ua"
    by (rule unicode_tables.lowercase_ascii [OF waf_contractsD(4) [OF assms(1)] header_text_ascii [OF assms]])
  moreover have "\<forall>n \<in> set bot_names. map ascii_lower n = n" by (simp add: bot_names_def ascii_defs)
  ultimately show ?thesis
    by (simp add: is_malicious_bot_def list_ex_iff occurs_nocase_def to_ascii_lowercase_def bot_agent_def)
qed

text \<open>What becomes of the verdicts when the bytes of a text are read as characters.\<close>

lemma byte_chars_scalar: "\<forall>c \<in> set (byte_chars bs). is_scalar c"
proof -
  have "is_scalar (unat b)" for b :: byte
    using unsigned_less [of b, where ?'a = nat] by (simp add: is_scalar_def)
  then show ?thesis by simp
qed

lemma traversal_read_as_bytes:
  "\<forall>c \<in> set s. is_scalar c \<Longrightarrow> has_traversal (byte_chars (as_bytes s)) \<longleftrightarrow> has_traversal s"
  using traversal_byte_chars by (auto simp: has_traversal_def)

lemma injection_read_as_bytes:
  assumes "\<forall>c \<in> set s. is_scalar c" and "ascii_injection s"
  shows "has_injection (byte_chars (as_bytes s))"
proof -
  from assms(2) obtain w where "sublist w s" "injection w" "\<forall>c \<in> set w. is_ascii c"
    by (auto simp: ascii_injection_def sublist_def)
  with sublist_byte_chars [OF assms(1)] have "sublist w (byte_chars (as_bytes s))" by blast
  with \<open>injection w\<close> show ?thesis by (auto simp: has_injection_def sublist_def)
qed

lemma plain_text_has_none: "\<forall>c \<in> set s. \<not> signature_char c \<Longrightarrow> \<not> has_injection s"
  using injection_signature_char by (fastforce simp: has_injection_def)

lemma header_phase_iff:
  assumes "waf_contracts L" and "\<forall>c \<in> set (target_of uri). is_scalar c"
  shows "waf_header L uri method headers = Inr () \<longleftrightarrow>
     \<not> has_traversal (normalize_url (target_of uri)) \<and>
     \<not> has_injection (normalize_url (target_of uri)) \<and>
     (\<forall>query. uri_query uri = Some query \<longrightarrow> distinct (param_keys query)) \<and>
     (\<forall>ua. header_text (w_http L) headers (lit ''user-agent'') = Some ua \<longrightarrow> \<not> bot_agent ua)"
proof -
  have bot: "(case header_text (w_http L) headers (lit ''user-agent'') of
        Some ua \<Rightarrow> is_malicious_bot (w_unicode L) ua | None \<Rightarrow> False) \<longleftrightarrow>
      (\<exists>ua. header_text (w_http L) headers (lit ''user-agent'') = Some ua \<and> bot_agent ua)"
    using bot_spec [OF assms(1)] by (auto split: option.splits)
  have "waf_header L uri method headers = Inr () \<longleftrightarrow>
      \<not> has_traversal (normalize_url (target_of uri)) \<and>
      \<not> has_injection (normalize_url (target_of uri)) \<and>
      \<not> (case uri_query uri of Some query \<Rightarrow> has_parameter_pollution query | None \<Rightarrow> False) \<and>
      \<not> (\<exists>ua. header_text (w_http L) headers (lit ''user-agent'') = Some ua \<and> bot_agent ua)"
    unfolding waf_header_def Let_def bot traversal_spec [OF assms(1)]
      attack_spec [OF assms(1) normalize_scalar [OF assms(2)]]
    by (simp del: not_ex)
  then show ?thesis by (auto simp: pollution_iff split: option.splits)
qed

section \<open>Properties\<close>

text \<open>
  C3: what the first phase lets through. A request passes exactly when its decoded target contains
  no traversal pattern and no injection signature, the keys of its query are distinct, and its
  agent, if it is text, names no attack tool.
\<close>

theorem header_phase_exact:
  assumes "waf_contracts L" and "\<forall>c \<in> set (target_of uri). is_scalar c"
  shows "waf_header L uri method headers = Inr () \<longleftrightarrow>
     \<not> has_traversal (normalize_url (target_of uri)) \<and>
     \<not> has_injection (normalize_url (target_of uri)) \<and>
     (\<forall>query. uri_query uri = Some query \<longrightarrow> distinct (param_keys query)) \<and>
     (\<forall>ua. header_text (w_http L) headers (lit ''user-agent'') = Some ua \<longrightarrow> \<not> bot_agent ua)"
  by (rule header_phase_iff [OF assms])

definition demo_uri :: uri where
  "demo_uri = \<lparr>uri_path_and_query = Some (lit ''/%7C''), uri_path = lit ''/%7C'', uri_query = None, uri_host = None\<rparr>"

definition path_uri :: "ustr \<Rightarrow> uri" where
  "path_uri p = \<lparr>uri_path_and_query = Some p, uri_path = p, uri_query = None, uri_host = None\<rparr>"

lemma demo_uri_scalar: "\<forall>c \<in> set (target_of demo_uri). is_scalar c"
  by (simp add: target_of_def demo_uri_def is_scalar_def)

theorem header_phase_exact_witness:
  "has_traversal (normalize_url (target_of demo_uri)) \<or> has_injection (normalize_url (target_of demo_uri))"
proof -
  have "waf_header waf_ref demo_uri GET [] \<noteq> Inr ()" by code_simp
  moreover have "uri_query demo_uri = None" "header_text (w_http waf_ref) [] (lit ''user-agent'') = None"
    by (simp_all add: demo_uri_def header_text_def hdr_get_def hdr_get_all_def)
  ultimately show ?thesis
    using header_phase_exact [OF waf_ref_contracts demo_uri_scalar, of GET "[]"]
    by (simp del: lit_simps)
qed

text \<open>
  C4: percent encoding hides no ASCII attack from the first phase. If the target is a percent encoding
  of the UTF-8 bytes of a text, and the text contains a traversal pattern in any letter case, or an
  injection signature that is written in ASCII characters, the request is refused with the matching
  reason, whichever bytes are escaped and whatever else stands in the text. A signature with other
  characters, such as a Unicode space, need not be found (\<open>encoded_space_hides_injection\<close>).
\<close>

theorem encoded_attack_refused:
  assumes "waf_contracts L" and "pct_enc (target_of uri) (as_bytes s)" and "\<forall>c \<in> set s. is_scalar c"
    and "has_traversal s \<or> ascii_injection s"
  shows "waf_header L uri method headers =
     Inl (if has_traversal s then ''Directory Traversal detected'' else ''Malicious pattern detected in URI'')"
proof -
  have n: "normalize_url (target_of uri) = byte_chars (as_bytes s)" by (rule normalize_pct_enc [OF assms(2)])
  show ?thesis
    unfolding waf_header_def Let_def n traversal_spec [OF assms(1)] attack_spec [OF assms(1) byte_chars_scalar]
      traversal_read_as_bytes [OF assms(3)]
    using assms(4) injection_read_as_bytes [OF assms(3)] by auto
qed

theorem encoded_attack_refused_witness:
  "waf_header waf_ref demo_uri GET [] \<noteq> Inr ()"
proof -
  have "pct_enc (47 # 37 # 55 # 67 # []) [byte_of 47, byte_of (16 * 7 + 12)]"
    by (intro enc_plain enc_hex enc_nil) (simp_all add: is_ascii_def to_digit_def is_ascii_digit_def)
  then have e: "pct_enc (target_of demo_uri) (as_bytes (lit ''/|''))"
    by (simp add: target_of_def demo_uri_def utf8_char_def)
  have "injection (lit ''|'')" by (simp add: injection_def)
  moreover have "lit ''/|'' = lit ''/'' @ lit ''|'' @ []" "\<forall>c \<in> set (lit ''|''). is_ascii c"
    by (simp_all add: is_ascii_def)
  ultimately have "ascii_injection (lit ''/|'')" unfolding ascii_injection_def by blast
  moreover have "\<forall>c \<in> set (lit ''/|''). is_scalar c" by (simp add: is_scalar_def)
  ultimately show ?thesis using encoded_attack_refused [OF waf_ref_contracts e] by simp
qed

text \<open>
  A Unicode space hides an injection. The target \<open>/drop%E2%80%83table\<close> is the percent encoding of a
  text with an injection signature, in which the space is the character U+2003. The text itself would
  be refused; its encoding passes, since the three bytes of the space are read as three characters.
\<close>

theorem encoded_space_hides_injection:
  assumes "waf_contracts L"
  shows "pct_enc (target_of (path_uri (lit ''/drop%E2%80%83table''))) (as_bytes (lit ''/drop'' @ [0x2003] @ lit ''table'')) \<and>
     waf_header L (path_uri (lit ''/drop'' @ [0x2003] @ lit ''table'')) GET [] = Inl ''Malicious pattern detected in URI'' \<and>
     waf_header L (path_uri (lit ''/drop%E2%80%83table'')) GET [] = Inr ()"
proof -
  let ?s = "lit ''/drop'' @ [0x2003] @ lit ''table''" and ?e = "lit ''/drop%E2%80%83table''"
  have b: "as_bytes ?s = map byte_of (lit ''/drop'') @ [byte_of (16 * 14 + 2), byte_of (16 * 8 + 0), byte_of (16 * 8 + 3)]
      @ map byte_of (lit ''table'')" by (simp add: utf8_char_def)
  have enc: "pct_enc ?e (as_bytes ?s)"
    unfolding b
    by (simp, intro enc_plain enc_hex [where a = 14 and b = 2, simplified] enc_hex [where a = 8 and b = 0, simplified]
        enc_hex [where a = 8 and b = 3, simplified] enc_nil)
      (simp_all add: is_ascii_def to_digit_def is_ascii_digit_def)
  have "phrase ''drop'' ''table'' (lit ''drop'' @ [0x2003] @ lit ''table'')"
    unfolding phrase_def
    by (intro exI [of _ "lit ''drop''"] exI [of _ "[0x2003]"] exI [of _ "lit ''table''"])
      (simp add: same_word_def fold_char_def ascii_defs blank_def is_whitespace_def)
  then have "injection (lit ''drop'' @ [0x2003] @ lit ''table'')" by (simp only: injection_def simp_thms)
  moreover have "?s = lit ''/'' @ (lit ''drop'' @ [0x2003] @ lit ''table'') @ []" by simp
  ultimately have inj: "has_injection ?s" unfolding has_injection_def by blast
  have "list_all is_scalar ?s" by (simp add: is_scalar_def)
  then have sc: "\<forall>c \<in> set ?s. is_scalar c" by (simp add: list_all_iff)
  have plain: "\<not> has_injection (byte_chars (as_bytes ?s))"
    using plain_text_has_none [of "byte_chars (as_bytes ?s)"]
    by (simp add: utf8_char_def signature_char_def is_whitespace_def)
  have tr: "\<not> has_traversal ?s" by (simp add: has_traversal_def traversal_patterns_def) code_simp
  have n: "normalize_url ?s = ?s" by (rule normalize_plain) simp
  have t: "target_of (path_uri x) = x" "uri_query (path_uri x) = None" for x by (simp_all add: path_uri_def target_of_def)
  have u: "header_text (w_http L) [] (lit ''user-agent'') = None"
    by (simp add: header_text_def hdr_get_def hdr_get_all_def)
  have "waf_header L (path_uri ?s) GET [] = Inl ''Malicious pattern detected in URI''"
    unfolding waf_header_def Let_def t n traversal_spec [OF assms] attack_spec [OF assms sc] using inj tr by simp
  moreover have "waf_header L (path_uri ?e) GET [] = Inr ()"
    unfolding waf_header_def Let_def t u normalize_pct_enc [OF enc] traversal_spec [OF assms]
      attack_spec [OF assms byte_chars_scalar] traversal_read_as_bytes [OF sc] using plain tr by simp
  ultimately show ?thesis using enc t by simp
qed

theorem encoded_space_hides_injection_witness:
  "waf_header waf_ref (path_uri (lit ''/drop%E2%80%83table'')) GET [] = Inr ()"
  using encoded_space_hides_injection [OF waf_ref_contracts] by blast

text \<open>
  C5: what the second phase lets through. The body of a valid text of at most four mebibytes passes
  exactly when it carries no blocked signature, starts with the signature of its declared type if
  that is one of the five known ones, nests at most ten deep, has special characters in at most
  two fifths of its bytes, repeats no key and contains no injection signature.
\<close>

theorem body_phase_exact:
  assumes "waf_contracts L" and "\<forall>c \<in> set s. is_scalar c" and "str_len s \<le> 2 ^ 22"
  shows "waf_body L headers (as_bytes s) = Inr () \<longleftrightarrow>
     (4 \<le> str_len s \<longrightarrow>
        (\<forall>sig \<in> set blocked_signatures. \<not> prefix sig (as_bytes s)) \<and>
        (\<forall>ct sig. header_text (w_http L) headers (lit ''content-type'') = Some ct \<and>
           signature_of ct = Some sig \<longrightarrow> prefix sig (as_bytes s))) \<and>
     (\<forall>b. sublist b s \<longrightarrow> excess b \<le> 10) \<and>
     5 * length (filter (special (w_unicode L)) s) \<le> 2 * str_len s \<and>
     distinct (param_keys s) \<and> \<not> has_injection s"
proof -
  have magic: "(case check_magic_number (as_bytes s) of Inl e \<Rightarrow> Inl e | Inr x \<Rightarrow> r) = Inr () \<longleftrightarrow>
      check_magic_number (as_bytes s) = Inr () \<and> r = Inr ()" for r :: "string + unit"
    by (cases "check_magic_number (as_bytes s)") auto
  have dens: "is_high_density (w_unicode L) s density_threshold \<longleftrightarrow>
      \<not> 5 * length (filter (special (w_unicode L)) s) \<le> 2 * str_len s"
    unfolding high_density_iff [OF assms(3), of "w_unicode L"] not_le ..
  have depth: "check_json_depth s 10 \<longleftrightarrow> (\<forall>b. sublist b s \<longrightarrow> excess b \<le> 10)"
    unfolding check_json_depth_def using depth_loop_iff [of 0 10 s] by auto
  have type: "(case header_text (w_http L) headers (lit ''content-type'') of
        Some ct \<Rightarrow> \<not> is_allowed_file_type ct (as_bytes s) | None \<Rightarrow> False) \<longleftrightarrow>
      \<not> (4 \<le> str_len s \<longrightarrow> (\<forall>ct sig. header_text (w_http L) headers (lit ''content-type'') = Some ct \<and>
           signature_of ct = Some sig \<longrightarrow> prefix sig (as_bytes s)))"
    by (auto simp: allowed_iff str_len_def split: option.splits)
  have "waf_body L headers (as_bytes s) = Inr () \<longleftrightarrow>
     check_magic_number (as_bytes s) = Inr () \<and>
     (4 \<le> str_len s \<longrightarrow> (\<forall>ct sig. header_text (w_http L) headers (lit ''content-type'') = Some ct \<and>
           signature_of ct = Some sig \<longrightarrow> prefix sig (as_bytes s))) \<and>
     (\<forall>b. sublist b s \<longrightarrow> excess b \<le> 10) \<and>
     5 * length (filter (special (w_unicode L)) s) \<le> 2 * str_len s \<and>
     distinct (param_keys s) \<and> \<not> has_injection s"
    unfolding waf_body_def magic type Let_def from_utf8_lossy_as_bytes [OF assms(2)] dens depth
      pollution_iff attack_spec [OF assms(1,2)]
    by (simp only: split: if_splits) blast
  then show ?thesis unfolding magic_iff by (auto simp: str_len_def)
qed

theorem body_phase_exact_witness:
  "5 * length (filter (special ascii_tables) (lit ''name=joe&age=7'')) \<le> 2 * str_len (lit ''name=joe&age=7'')
   \<and> \<not> has_injection (lit ''name=joe&age=7'')"
proof -
  have "check_magic_number (as_bytes (lit ''name=joe&age=7'')) = Inr ()"
    "check_json_depth (lit ''name=joe&age=7'') 10" "\<not> has_parameter_pollution (lit ''name=joe&age=7'')"
    "\<not> is_attack (ref_engine ascii_tables) (as_bytes (lit ''name=joe&age=7''))"
    by code_simp+
  moreover have "from_utf8_lossy (as_bytes (lit ''name=joe&age=7'')) = lit ''name=joe&age=7''"
    by (rule from_utf8_lossy_as_bytes) (simp add: is_scalar_def)
  moreover have len: "str_len (lit ''name=joe&age=7'') = 14"
    "length (filter (special ascii_tables) (lit ''name=joe&age=7'')) = 3"
    by code_simp+
  moreover from len have "\<not> is_high_density ascii_tables (lit ''name=joe&age=7'') density_threshold"
    by (subst high_density_iff) (simp_all only:, simp_all)
  ultimately have "waf_body waf_ref [] (as_bytes (lit ''name=joe&age=7'')) = Inr ()"
    by (simp add: waf_body_def header_text_def hdr_get_def hdr_get_all_def del: lit_simps)
  moreover have "\<forall>c \<in> set (lit ''name=joe&age=7''). is_scalar c" by (simp add: is_scalar_def)
  moreover have "str_len (lit ''name=joe&age=7'') \<le> 2 ^ 22" using len by simp
  ultimately show ?thesis
    using body_phase_exact [OF waf_ref_contracts, of "lit ''name=joe&age=7''" "[]"]
    by (simp only: waf_ref_simps) blast
qed

text \<open>
  C6: the answer phase. A body that is not declared as text is passed on as it is; a text body that
  ends is replaced by the encoding of the masked form of exactly the text that was received, which
  holds no card number and, unless two at signs of the text are joined by domain characters, no
  address; a text body that breaks off becomes empty, so that nothing unmasked is sent.
\<close>

theorem dlp_phase_exact:
  assumes "waf_contracts L" and "apply_dlp L rrs lm headers body = (Some out, lm')"
  shows "case header_text (w_http L) headers (lit ''content-type'') of
       None \<Rightarrow> out = Throttled body
     | Some ct \<Rightarrow>
         if is_text_type (w_unicode L) ct
         then (out = Empty \<and> fst (snd (drive rrs lm body)) = Broken) \<or>
              (\<exists>text masked. fst (snd (drive rrs lm body)) = Drained \<and>
                 text = from_utf8_lossy (frames_data (fst (drive rrs lm body))) \<and>
                 masked = mask_sensitive_info (w_regex L) text \<and>
                 out = Full (as_bytes masked) \<and> free_of (w_unicode L) card_re None masked \<and>
                 (no_at_chain text \<longrightarrow> free_of (w_unicode L) email_re None masked))
         else out = Throttled body"
proof -
  have cards: "free_of (w_unicode L) card_re None (mask_sensitive_info (w_regex L) t)" for t
    unfolding mask_sensitive_info_def Let_def
    by (rule regex_engine.card_pass [OF waf_contractsD(1) [OF assms(1)]])
  have emails: "no_at_chain t \<Longrightarrow> free_of (w_unicode L) email_re None (mask_sensitive_info (w_regex L) t)" for t
    by (rule emails_pass_both [OF waf_contractsD(1) [OF assms(1)]])
  show ?thesis
    using assms(2) cards emails
    by (auto simp: apply_dlp_def Let_def split: option.splits if_splits drive_end.splits prod.splits)
qed

theorem dlp_phase_exact_witness:
  "\<exists>masked. fst (apply_dlp waf_ref demo_readings limiter_new [(lit ''content-type'', blit ''text/html'')]
      (throttled_new demo_stream demo_client 0)) = Some (Full (as_bytes masked))
    \<and> free_of ascii_tables card_re None masked"
proof -
  let ?hs = "[(lit ''content-type'', blit ''text/html'')]"
  have d: "drive demo_readings limiter_new (throttled_new demo_stream demo_client 0)
      = ([Data (blit ''HELO''), Data (blit ''world'')], Drained, limiter_new, throttled_new [] demo_client 0)"
    by (simp add: bandwidth_eval)
  have t: "header_text (w_http waf_ref) ?hs (lit ''content-type'') = Some (lit ''text/html'')"
    by code_simp
  have tt: "is_text_type ascii_tables (lit ''text/html'')" by code_simp
  obtain out where out: "apply_dlp waf_ref demo_readings limiter_new ?hs (throttled_new demo_stream demo_client 0)
      = (Some out, limiter_new)"
    using t tt by (simp add: apply_dlp_def d Let_def del: lit_simps)
  from dlp_phase_exact [OF waf_ref_contracts out]
  obtain masked where "out = Full (as_bytes masked)" "free_of ascii_tables card_re None masked"
    unfolding t option.case d by (auto simp: tt simp del: lit_simps)
  with out show ?thesis by (intro exI [of _ masked]) (simp only: fst_conv)
qed

text \<open>
  C19: a masked answer is well-formed text. Whatever bytes the upstream sent, the bytes of a masked
  body are the UTF-8 encoding of a sequence of scalar values, which decoding gives back.
\<close>

theorem masked_body_is_utf8:
  assumes "waf_contracts L" and "apply_dlp L rrs lm headers body = (Some (Full out), lm')"
  shows "\<exists>text. list_all is_scalar text \<and> out = as_bytes text \<and> from_utf8_lossy out = text"
proof -
  let ?text = "mask_sensitive_info (w_regex L) (from_utf8_lossy (frames_data (fst (drive rrs lm body))))"
  have "out = as_bytes ?text"
    using assms(2) by (auto simp: apply_dlp_def Let_def split: option.splits if_splits drive_end.splits prod.splits)
  moreover have sc: "\<forall>c \<in> set ?text. is_scalar c"
    by (rule mask_scalar [OF waf_contractsD(1) [OF assms(1)]]) (blast intro: from_utf8_lossy_scalar)
  ultimately show ?thesis
    using from_utf8_lossy_as_bytes [OF sc] by (intro exI [of _ ?text]) (simp add: list_all_iff)
qed

theorem masked_body_is_utf8_witness:
  "\<exists>out text. fst (apply_dlp waf_ref demo_readings limiter_new [(lit ''content-type'', blit ''text/html'')]
      (throttled_new [Ready (Data [0xE9])] demo_client 0)) = Some (Full out)
    \<and> list_all is_scalar text \<and> out = as_bytes text"
proof -
  let ?hs = "[(lit ''content-type'', blit ''text/html'')]"
  have d: "drive demo_readings limiter_new (throttled_new [Ready (Data [0xE9])] demo_client 0)
      = ([Data [0xE9]], Drained, limiter_new, throttled_new [] demo_client 0)"
    by (simp add: bandwidth_eval)
  have t: "header_text (w_http waf_ref) ?hs (lit ''content-type'') = Some (lit ''text/html'')" by code_simp
  have tt: "is_text_type ascii_tables (lit ''text/html'')" by code_simp
  obtain out where out: "apply_dlp waf_ref demo_readings limiter_new ?hs (throttled_new [Ready (Data [0xE9])] demo_client 0)
      = (Some (Full out), limiter_new)"
    using t tt by (simp add: apply_dlp_def d Let_def del: lit_simps from_utf8_lossy.simps)
  from masked_body_is_utf8 [OF waf_ref_contracts out] out show ?thesis by (metis fst_conv)
qed

text \<open>
  Text that is not UTF-8 is damaged. A one-byte Latin-1 answer declared as text goes out as the
  three bytes of the replacement character.
\<close>

theorem latin1_answer_damaged:
  "fst (apply_dlp waf_ref demo_readings limiter_new [(lit ''content-type'', blit ''text/html; charset=iso-8859-1'')]
      (throttled_new [Ready (Data [0xE9])] demo_client 0)) = Some (Full [0xEF, 0xBF, 0xBD])"
proof -
  let ?hs = "[(lit ''content-type'', blit ''text/html; charset=iso-8859-1'')]"
  have d: "drive demo_readings limiter_new (throttled_new [Ready (Data [0xE9])] demo_client 0)
      = ([Data [0xE9]], Drained, limiter_new, throttled_new [] demo_client 0)"
    by (simp add: bandwidth_eval)
  have t: "header_text (w_http waf_ref) ?hs (lit ''content-type'') = Some (lit ''text/html; charset=iso-8859-1'')"
    by code_simp
  have tt: "is_text_type ascii_tables (lit ''text/html; charset=iso-8859-1'')" by code_simp
  have "as_bytes (mask_sensitive_info (ref_engine ascii_tables) (from_utf8_lossy [0xE9])) = [0xEF, 0xBF, 0xBD]"
    by code_simp
  with t tt show ?thesis by (simp add: apply_dlp_def d Let_def del: lit_simps from_utf8_lossy.simps)
qed

end
