(* ===== verification/Headers.thy ===== *)
theory Headers
  imports Waf Rust_Net
begin

text \<open>
  The header functions of \<open>src/proxy.rs\<close>: the client's address, the host, the upgrade test, the
  sanitation of response headers and the error response. What sanitation does is proved through
  the contract of the header map (\<open>header_store\<close>), of which the model's maps are an instance.
\<close>

section \<open>Operations\<close>

definition get_real_ip :: "http_lib \<Rightarrow> header_map \<Rightarrow> socket_addr \<Rightarrow> ip_addr" where
  "get_real_ip H headers remote_addr =
     (case header_text H headers (lit ''cf-connecting-ip'') of
        None \<Rightarrow> sock_ip remote_addr
      | Some s \<Rightarrow> (case parse_ip s of Some ip \<Rightarrow> ip | None \<Rightarrow> sock_ip remote_addr))"

definition get_host :: "http_lib \<Rightarrow> uri \<Rightarrow> header_map \<Rightarrow> ustr" where
  "get_host H uri headers =
     (case uri_host uri of
        Some h \<Rightarrow> h
      | None \<Rightarrow>
          (case header_text H headers (lit ''host'') of
             Some s \<Rightarrow> hd (split_on 58 s)
           | None \<Rightarrow> lit ''localhost''))"

definition is_websocket :: "http_lib \<Rightarrow> header_map \<Rightarrow> bool" where
  "is_websocket H headers =
     (case header_text H headers (lit ''upgrade'') of
        Some s \<Rightarrow> contains (to_ascii_lowercase s) (lit ''websocket'')
      | None \<Rightarrow> False)"

definition stripped_headers :: "header_name list" where
  "stripped_headers = [lit ''server'', lit ''x-powered-by'', lit ''x-aspnet-version'', lit ''x-runtime'',
     lit ''content-length'', lit ''transfer-encoding'']"

definition security_headers :: "(header_name \<times> header_value) list" where
  "security_headers =
     [(lit ''strict-transport-security'', blit ''max-age=31536000; includeSubDomains; preload''),
      (lit ''x-frame-options'', blit ''DENY''),
      (lit ''x-content-type-options'', blit ''nosniff''),
      (lit ''x-xss-protection'', blit ''1; mode=block''),
      (lit ''referrer-policy'', blit ''strict-origin-when-cross-origin''),
      (lit ''permissions-policy'', blit ''geolocation=(), microphone=(), camera=()'')]"

definition sanitize_response_headers :: "header_map \<Rightarrow> header_map" where
  "sanitize_response_headers headers =
     fold (\<lambda>(k, v). hdr_insert k v) security_headers (fold hdr_remove stripped_headers headers)"

type_synonym reply = "response \<times> box_body"

definition error_response :: "status_code \<Rightarrow> reply" where
  "error_response status =
     (\<lparr>rs_status = status, rs_version = HTTP_11, rs_headers = sanitize_response_headers []\<rparr>, Empty)"

section \<open>Facts\<close>

lemma security_names_distinct: "distinct (map fst security_headers)"
  by (simp add: security_headers_def)

lemma security_not_stripped: "fst ` set security_headers \<inter> set stripped_headers = {}"
  by (simp add: security_headers_def stripped_headers_def)

lemma sanitized_fields:
  "hdr_get_all (sanitize_response_headers hs) k =
     (if k \<in> set stripped_headers then []
      else if k \<in> fst ` set security_headers then [the (map_of security_headers k)]
      else hdr_get_all hs k)"
proof (cases "k \<in> fst ` set security_headers")
  case True
  then obtain v where v: "(k, v) \<in> set security_headers" by force
  then have "map_of security_headers k = Some v" using security_names_distinct by (simp add: map_of_is_SomeI)
  moreover have "k \<notin> set stripped_headers" using True security_not_stripped by blast
  ultimately show ?thesis
    using True hdrs.fields_put_all [OF security_names_distinct v]
    by (simp add: sanitize_response_headers_def)
next
  case False
  then show ?thesis
    unfolding sanitize_response_headers_def hdrs.fields_put_all_other [OF False] hdrs.fields_remove_all by simp
qed

lemma error_response_status [simp]: "rs_status (fst (error_response st)) = st"
  by (simp add: error_response_def)

lemma get_host_header:
  assumes "uri_host uri = None" and "header_text H headers (lit ''host'') = Some (name @ 58 # port)"
    and "58 \<notin> set name"
  shows "get_host H uri headers = name"
  using assms by (simp add: get_host_def split_on_append del: lit_simps)

section \<open>Properties\<close>

text \<open>
  C31: sanitation is exact. Whatever headers the upstream sent, the sanitised map has no server
  identification and no length header, each of the six security headers exactly once with its
  fixed value, every other header as it was; sanitising again changes nothing.
\<close>

theorem sanitize_exact:
  "(\<forall>k. hdr_get_all (sanitize_response_headers hs) k =
       (if k \<in> set stripped_headers then []
        else case map_of security_headers k of Some v \<Rightarrow> [v] | None \<Rightarrow> hdr_get_all hs k)) \<and>
   (\<forall>k. hdr_get_all (sanitize_response_headers (sanitize_response_headers hs)) k
       = hdr_get_all (sanitize_response_headers hs) k)"
proof -
  have m: "map_of security_headers k = None \<longleftrightarrow> k \<notin> fst ` set security_headers" for k
    by (rule map_of_eq_None_iff)
  have "hdr_get_all (sanitize_response_headers hs) k =
       (if k \<in> set stripped_headers then []
        else case map_of security_headers k of Some v \<Rightarrow> [v] | None \<Rightarrow> hdr_get_all hs k)" for k hs
    using m [of k] by (cases "map_of security_headers k") (simp_all add: sanitized_fields)
  then show ?thesis by (simp split: option.splits)
qed

text \<open>
  The host of a request decides its virtual host. A Host header of a name and a port gives the
  name; but the bracketed literal of an IPv6 address is cut at its first colon, so that the host is
  a single bracket and no such host can be configured.
\<close>

theorem host_of_header:
  assumes "http_values H" and "uri_host uri = None" and "58 \<notin> set name"
    and "\<forall>c \<in> set (name @ 58 # port). 32 \<le> c \<and> c < 127"
  shows "get_host H uri [(lit ''host'', as_bytes (name @ 58 # port))] = name \<and>
     get_host H uri [(lit ''host'', as_bytes (lit ''[::1]:443''))] = lit ''[''"
proof -
  have read: "header_text H [(lit ''host'', as_bytes s)] (lit ''host'') = Some s"
    if "\<forall>c \<in> set s. 32 \<le> c \<and> c < 127" for s
  proof -
    have b: "as_bytes s = map byte_of s"
      using that by (intro as_bytes_ascii) (auto simp: is_ascii_def)
    have "to_str H (map byte_of s) = Some s"
      unfolding http_values.to_str_visible [OF assms(1)]
      using that by (auto simp: visible_ascii_def intro!: map_idI [symmetric])
    then show ?thesis by (simp add: header_text_def hdr_get_def hdr_get_all_def b del: lit_simps)
  qed
  have "header_text H [(lit ''host'', as_bytes (lit ''[::1]:443''))] (lit ''host'') = Some (lit ''['' @ 58 # lit '':1]:443'')"
    using read [of "lit ''[::1]:443''"] by simp
  from get_host_header [OF assms(2) this] get_host_header [OF assms(2) read [OF assms(4)] assms(3)]
  show ?thesis by simp
qed

theorem host_of_header_witness:
  "get_host http_ref demo_uri [(lit ''host'', as_bytes (lit ''ex.org'' @ 58 # lit ''443''))] = lit ''ex.org''"
proof -
  have "uri_host demo_uri = None" by (simp add: demo_uri_def)
  from host_of_header [OF ref_http.http_values_axioms this, of "lit ''ex.org''" "lit ''443''"]
  show ?thesis by simp
qed

end
