(* ===== verification/Protocol.thy ===== *)
theory Protocol
  imports Http
begin

text \<open>
  Protocol integrity (\<open>src/protocol.rs\<close>): control characters in the target, the Host header,
  and the two length headers together. Each check returns an error value or success; the pipeline
  chains them with \<open>and_then\<close>, so the first failing check decides.
\<close>

section \<open>Operations\<close>

datatype protocol_error = InvalidUri ustr | InvalidHost ustr | RequestSmuggling ustr

definition error_text :: "protocol_error \<Rightarrow> string" where
  "error_text err =
     (case err of
        InvalidUri _ \<Rightarrow> ''Invalid characters in URI''
      | InvalidHost _ \<Rightarrow> ''Invalid or duplicate Host header''
      | RequestSmuggling _ \<Rightarrow> ''Request Smuggling detected (CL/TE mixed)'')"

text \<open>The debug form of a control character: four short escapes, the others in hexadecimal.\<close>

definition hex_digit :: "nat \<Rightarrow> uchar" where
  "hex_digit d = (if d < 10 then 48 + d else 87 + d)"

definition debug_control :: "uchar \<Rightarrow> ustr" where
  "debug_control c =
     [39, 92] @
     (if c = 0 then lit ''0'' else if c = 9 then lit ''t'' else if c = 10 then lit ''n''
      else if c = 13 then lit ''r''
      else lit ''u{'' @ (if c < 16 then [hex_digit c] else [hex_digit (c div 16), hex_digit (c mod 16)])
           @ lit ''}'')
     @ [39]"

fun scan_controls :: "ustr \<Rightarrow> protocol_error + unit" where
  "scan_controls [] = Inr ()"
| "scan_controls (c # s) =
     (if is_control c then Inl (InvalidUri (lit ''Control character detected: '' @ debug_control c))
      else scan_controls s)"

definition validate_uri :: "uri \<Rightarrow> protocol_error + unit" where
  "validate_uri uri = scan_controls (target_of uri)"

definition validate_host :: "header_map \<Rightarrow> http_method \<Rightarrow> uri \<Rightarrow> protocol_error + unit" where
  "validate_host headers method uri =
     (if method \<noteq> CONNECT then
        (let hosts = hdr_get_all headers (lit ''host'')
         in if hosts = [] \<and> uri_host uri = None then Inl (InvalidHost (lit ''Missing Host or Authority''))
            else if 1 < length hosts then Inl (InvalidHost (lit ''Duplicate Host header''))
            else Inr ())
      else Inr ())"

definition validate_smuggling :: "header_map \<Rightarrow> protocol_error + unit" where
  "validate_smuggling headers =
     (if hdr_contains headers (lit ''content-length'') \<and> hdr_contains headers (lit ''transfer-encoding'')
      then Inl (RequestSmuggling (lit ''Both CL and TE present''))
      else Inr ())"

text \<open>The chain as the pipeline writes it.\<close>

definition and_then :: "'e + 'a \<Rightarrow> ('a \<Rightarrow> 'e + 'b) \<Rightarrow> 'e + 'b" where
  "and_then r f = (case r of Inl e \<Rightarrow> Inl e | Inr x \<Rightarrow> f x)"

definition protocol_checks :: "request \<Rightarrow> protocol_error + unit" where
  "protocol_checks req =
     and_then (and_then (validate_uri (rq_uri req))
        (\<lambda>_. validate_host (rq_headers req) (rq_method req) (rq_uri req)))
        (\<lambda>_. validate_smuggling (rq_headers req))"

section \<open>Facts\<close>

lemma and_then_simps [simp]:
  "and_then (Inl e) f = Inl e" "and_then (Inr x) f = f x"
  by (simp_all add: and_then_def)

lemma and_then_ok: "and_then r f = Inr y \<longleftrightarrow> (\<exists>x. r = Inr x \<and> f x = Inr y)"
  by (cases r) auto

lemma scan_controls_ok: "scan_controls s = Inr () \<longleftrightarrow> (\<forall>c \<in> set s. \<not> is_control c)"
  by (induction s) auto

lemma validate_host_ok:
  "validate_host hs m u = Inr () \<longleftrightarrow>
     m = CONNECT \<or> (length (hdr_get_all hs (lit ''host'')) \<le> 1 \<and>
       (hdr_get_all hs (lit ''host'') \<noteq> [] \<or> uri_host u \<noteq> None))"
  by (auto simp: validate_host_def Let_def)

definition both_lengths :: "header_map \<Rightarrow> bool" where
  "both_lengths hs \<longleftrightarrow>
     hdr_get_all hs (lit ''content-length'') \<noteq> [] \<and> hdr_get_all hs (lit ''transfer-encoding'') \<noteq> []"

lemma validate_smuggling_ok: "validate_smuggling hs = Inr () \<longleftrightarrow> \<not> both_lengths hs"
  by (simp add: validate_smuggling_def hdr_contains_def both_lengths_def del: lit_simps)

lemma protocol_checks_ok:
  "protocol_checks req = Inr () \<longleftrightarrow>
     (\<forall>c \<in> set (target_of (rq_uri req)). \<not> is_control c) \<and>
     (rq_method req = CONNECT \<or>
       (length (hdr_get_all (rq_headers req) (lit ''host'')) \<le> 1 \<and>
        (hdr_get_all (rq_headers req) (lit ''host'') \<noteq> [] \<or> uri_host (rq_uri req) \<noteq> None))) \<and>
     \<not> both_lengths (rq_headers req)"
  unfolding protocol_checks_def and_then_ok validate_uri_def
  using scan_controls_ok [of "target_of (rq_uri req)"] validate_host_ok [of "rq_headers req" "rq_method req" "rq_uri req"]
    validate_smuggling_ok [of "rq_headers req"]
  by auto

lemma scan_controls_error:
  "scan_controls s = Inl e \<Longrightarrow> \<exists>a c b. s = a @ c # b \<and> is_control c \<and>
      (\<forall>d \<in> set a. \<not> is_control d) \<and> e = InvalidUri (lit ''Control character detected: '' @ debug_control c)"
proof (induction s)
  case (Cons c s)
  show ?case
  proof (cases "is_control c")
    case True
    with Cons.prems show ?thesis by (intro exI [of _ "[]"]) (auto simp del: lit_simps)
  next
    case False
    with Cons obtain a c' b where "s = a @ c' # b" "is_control c'" "\<forall>d \<in> set a. \<not> is_control d"
      "e = InvalidUri (lit ''Control character detected: '' @ debug_control c')" by (auto simp del: lit_simps)
    with False show ?thesis by (intro exI [of _ "c # a"]) (auto simp del: lit_simps)
  qed
qed simp

section \<open>Properties\<close>

text \<open>
  C28: the protocol chain lets a request pass exactly when its target has no control character, it
  has exactly one Host header or none and an authority (a CONNECT needs neither), and it does not
  declare its length twice over.
\<close>

theorem protocol_chain_exact:
  "protocol_checks req = Inr () \<longleftrightarrow>
     (\<forall>c \<in> set (target_of (rq_uri req)). \<not> is_control c) \<and>
     (rq_method req = CONNECT \<or>
       (length (hdr_get_all (rq_headers req) (lit ''host'')) \<le> 1 \<and>
        (hdr_get_all (rq_headers req) (lit ''host'') \<noteq> [] \<or> uri_host (rq_uri req) \<noteq> None))) \<and>
     \<not> both_lengths (rq_headers req)"
  by (rule protocol_checks_ok)

definition demo_request :: request where
  "demo_request = \<lparr>rq_method = POST,
     rq_uri = \<lparr>uri_path_and_query = Some (lit ''/''), uri_path = lit ''/'', uri_query = None, uri_host = None\<rparr>,
     rq_version = HTTP_11,
     rq_headers = [(lit ''host'', blit ''a''), (lit ''content-length'', blit ''3''),
       (lit ''transfer-encoding'', blit ''chunked'')],
     rq_body = []\<rparr>"

lemma demo_smuggling:
  "protocol_checks demo_request = Inl (RequestSmuggling (lit ''Both CL and TE present''))"
  by code_simp

theorem protocol_chain_exact_witness: "both_lengths (rq_headers demo_request)"
proof -
  have "protocol_checks demo_request \<noteq> Inr ()" by code_simp
  moreover have "(\<forall>c \<in> set (target_of (rq_uri demo_request)). \<not> is_control c)"
    "length (hdr_get_all (rq_headers demo_request) (lit ''host'')) = 1"
    by (simp_all add: demo_request_def target_of_def is_control_def hdr_get_all_def)
  ultimately show ?thesis using protocol_chain_exact [of demo_request] by (auto simp del: lit_simps)
qed

text \<open>
  The verdicts are ordered. A control character is reported before a bad Host header and that
  before a double length, and the text of the first names the first control character of the target.
\<close>

theorem protocol_first_error:
  assumes "protocol_checks req = Inl e"
  shows "case e of
     InvalidUri m \<Rightarrow>
       (\<exists>a c b. target_of (rq_uri req) = a @ c # b \<and> is_control c \<and> (\<forall>d \<in> set a. \<not> is_control d) \<and>
          m = lit ''Control character detected: '' @ debug_control c)
   | InvalidHost m \<Rightarrow> validate_uri (rq_uri req) = Inr () \<and> rq_method req \<noteq> CONNECT \<and>
       m = (if hdr_get_all (rq_headers req) (lit ''host'') = [] \<and> uri_host (rq_uri req) = None
            then lit ''Missing Host or Authority'' else lit ''Duplicate Host header'')
   | RequestSmuggling m \<Rightarrow> validate_uri (rq_uri req) = Inr () \<and>
       validate_host (rq_headers req) (rq_method req) (rq_uri req) = Inr () \<and>
       both_lengths (rq_headers req)"
proof (cases "validate_uri (rq_uri req)")
  case (Inl e')
  with assms have "e = e'" by (simp add: protocol_checks_def)
  moreover from Inl have "scan_controls (target_of (rq_uri req)) = Inl e'" by (simp add: validate_uri_def)
  from scan_controls_error [OF this] obtain a c b where "target_of (rq_uri req) = a @ c # b" "is_control c"
    "\<forall>d \<in> set a. \<not> is_control d" "e' = InvalidUri (lit ''Control character detected: '' @ debug_control c)"
    by blast
  ultimately show ?thesis by (simp only: protocol_error.case) blast
next
  case uri: (Inr x)
  show ?thesis
  proof (cases "validate_host (rq_headers req) (rq_method req) (rq_uri req)")
    case (Inl e')
    with assms uri have "e = e'" by (simp add: protocol_checks_def)
    with Inl uri show ?thesis
      by (auto simp: validate_host_def Let_def simp del: lit_simps split: if_splits)
  next
    case (Inr y)
    with assms uri have "validate_smuggling (rq_headers req) = Inl e" by (simp add: protocol_checks_def)
    with Inr uri show ?thesis
      by (auto simp: validate_smuggling_def hdr_contains_def both_lengths_def simp del: lit_simps split: if_splits)
  qed
qed

theorem protocol_first_error_witness:
  "validate_host (rq_headers demo_request) (rq_method demo_request) (rq_uri demo_request) = Inr ()"
  using protocol_first_error [OF demo_smuggling] by simp

end
