(* ===== verification/Config.thy ===== *)
theory Config
  imports Rust_Net "HOL-Library.AList" "HOL-Library.Multiset"
begin

text \<open>
  The configuration (\<open>src/config.rs\<close>): the records that the TOML file is read into, the
  virtual hosts with their routing tables, \<open>Config::load\<close>, the certificate resolver and
  \<open>Config::reload_certs\<close>.

  A hash map whose iteration order matters is an association list with distinct keys, in the
  order in which the map happens to iterate; lookups are \<^const>\<open>map_of\<close>, insertion is
  \<^const>\<open>AList.update\<close>. File access, TOML, PEM and the SNI resolver of rustls are the fields of the
  parameter record \<open>tls_env\<close>; what is assumed of the resolver is the locale
  \<open>sni_resolver\<close>. The round-robin counters (\<open>routers_state\<close>), shared atomics in
  the code, are the field \<open>routers_state\<close> itself, updated by the load balancer.
\<close>

section \<open>Records\<close>

record network_config =
  http_addrs :: "ustr list"
  https_addrs :: "ustr list"
  max_connections :: usize

record timeout_config =
  c_tls_handshake :: u64
  c_header_read :: u64
  c_keep_alive_idle :: u64
  c_keep_alive_timeout :: u64
  c_body_timeout :: u64
  s_connect :: u64
  s_response :: u64
  s_websocket_idle :: u64

record limit_config =
  max_uri_size :: usize
  max_header_size :: usize
  max_header_count :: usize
  max_body_size :: usize
  c_h2_max_streams :: u32
  max_rps :: u32
  max_bandwidth :: u64

record ban_config =
  ban_timeout :: u64
  ban_protocol :: u64
  ban_waf :: u64
  ban_rate_limit :: u64

type_synonym route = "ustr \<times> ustr list"

record vhost_config =
  cert_path :: ustr
  key_path :: ustr
  routers :: "route list"
  routers_state :: "ustr \<rightharpoonup> usize"

type_synonym vhosts = "(ustr \<times> vhost_config) list"

record raw_vhost =
  domain :: ustr
  raw_cert_path :: ustr
  raw_key_path :: ustr
  raw_routers :: "route list"

record raw_config =
  raw_network :: network_config
  raw_timeout :: timeout_config
  raw_limit :: limit_config
  raw_ban :: ban_config
  raw_vhosts :: "raw_vhost list"

section \<open>The outside of loading\<close>

type_synonym cert_chain = "byte list list"

record certified_key =
  chain :: cert_chain
  signing_key :: "byte list"

text \<open>
  \<open>pem_key\<close> distinguishes a parse error (\<^term>\<open>None\<close>) from a file without a key
  (\<^term>\<open>Some None\<close>); \<open>supported_key\<close> is \<open>any_supported_type\<close>. The type
  \<open>'r\<close> is rustls's \<open>ResolvesServerCertUsingSni\<close>.
\<close>

record 'r tls_env =
  fs_read_to_string :: "ustr \<Rightarrow> ustr option"
  fs_read :: "ustr \<Rightarrow> byte list option"
  toml_parse :: "ustr \<Rightarrow> raw_config option"
  pem_certs :: "byte list \<Rightarrow> cert_chain option"
  pem_key :: "byte list \<Rightarrow> byte list option option"
  supported_key :: "byte list \<Rightarrow> byte list option"
  sni_new :: 'r
  sni_add :: "ustr \<Rightarrow> certified_key \<Rightarrow> 'r \<Rightarrow> 'r option"
  sni_resolve :: "'r \<Rightarrow> ustr option \<Rightarrow> certified_key option"

datatype load_error =
    ReadFailed ustr | BadToml | BadCertificate | BadKeyFile | NoPrivateKey | InvalidPrivateKey
  | NameRejected ustr

text \<open>The runtime configuration; the cell of \<open>CertResolver\<close> is the field \<open>cert_resolver\<close>.\<close>

record 'r config =
  network :: network_config
  timeouts :: timeout_config
  limits :: limit_config
  bans :: ban_config
  cfg_vhosts :: vhosts
  alpn_protocols :: "byte list list"
  cert_resolver :: 'r

section \<open>The certificate resolver\<close>

definition resolver_update :: "'r \<Rightarrow> 'r config \<Rightarrow> 'r config" where
  "resolver_update r cfg = cfg\<lparr>cert_resolver := r\<rparr>"

definition resolve :: "'r tls_env \<Rightarrow> 'r config \<Rightarrow> ustr option \<Rightarrow> certified_key option" where
  "resolve env cfg server_name = sni_resolve env (cert_resolver cfg) server_name"

section \<open>Loading\<close>

text \<open>The part of both loops that reads a certificate and its key from disk.\<close>

definition read_certified_key :: "'r tls_env \<Rightarrow> ustr \<Rightarrow> ustr \<Rightarrow> load_error + certified_key" where
  "read_certified_key env certp keyp =
     (case fs_read env certp of
        None \<Rightarrow> Inl (ReadFailed certp)
      | Some cert_bytes \<Rightarrow>
     (case fs_read env keyp of
        None \<Rightarrow> Inl (ReadFailed keyp)
      | Some key_bytes \<Rightarrow>
     (case pem_certs env cert_bytes of
        None \<Rightarrow> Inl BadCertificate
      | Some certs \<Rightarrow>
     (case pem_key env key_bytes of
        None \<Rightarrow> Inl BadKeyFile
      | Some None \<Rightarrow> Inl NoPrivateKey
      | Some (Some private_key) \<Rightarrow>
     (case supported_key env private_key of
        None \<Rightarrow> Inl InvalidPrivateKey
      | Some key \<Rightarrow> Inr \<lparr>chain = certs, signing_key = key\<rparr>)))))"

text \<open>\<open>sort_by(|a, b| b.0.len().cmp(&a.0.len()))\<close>: stable, longest path first.\<close>

definition sort_routers :: "route list \<Rightarrow> route list" where
  "sort_routers rs = sort_key (\<lambda>r. - int (str_len (fst r))) rs"

definition vhost_of_raw :: "raw_vhost \<Rightarrow> vhost_config" where
  "vhost_of_raw rv =
     \<lparr>cert_path = raw_cert_path rv, key_path = raw_key_path rv,
      routers = sort_routers (raw_routers rv),
      routers_state = (\<lambda>p. if p \<in> fst ` set (raw_routers rv) then Some 0 else None)\<rparr>"

fun load_vhosts ::
  "'r tls_env \<Rightarrow> raw_vhost list \<Rightarrow> vhosts \<Rightarrow> 'r \<Rightarrow> load_error + vhosts \<times> 'r" where
  "load_vhosts env [] vs resolver = Inr (vs, resolver)"
| "load_vhosts env (rv # rvs) vs resolver =
     (case read_certified_key env (raw_cert_path rv) (raw_key_path rv) of
        Inl e \<Rightarrow> Inl e
      | Inr ck \<Rightarrow>
          (case sni_add env (domain rv) ck resolver of
             None \<Rightarrow> Inl (NameRejected (domain rv))
           | Some resolver' \<Rightarrow>
               load_vhosts env rvs (AList.update (domain rv) (vhost_of_raw rv) vs) resolver'))"

definition load :: "'r tls_env \<Rightarrow> ustr \<Rightarrow> load_error + 'r config" where
  "load env path =
     (case fs_read_to_string env path of
        None \<Rightarrow> Inl (ReadFailed path)
      | Some content \<Rightarrow>
          (case toml_parse env content of
             None \<Rightarrow> Inl BadToml
           | Some raw \<Rightarrow>
               (case load_vhosts env (raw_vhosts raw) [] (sni_new env) of
                  Inl e \<Rightarrow> Inl e
                | Inr (vs, resolver) \<Rightarrow>
                    Inr \<lparr>network = raw_network raw, timeouts = raw_timeout raw, limits = raw_limit raw,
                         bans = raw_ban raw, cfg_vhosts = vs,
                         alpn_protocols = [blit ''h2'', blit ''http/1.1''],
                         cert_resolver = resolver\<rparr>)))"

section \<open>Hot reload\<close>

fun reload_loop :: "'r tls_env \<Rightarrow> vhosts \<Rightarrow> 'r \<Rightarrow> load_error + 'r" where
  "reload_loop env [] new_resolver = Inr new_resolver"
| "reload_loop env ((d, vh) # vs) new_resolver =
     (case read_certified_key env (cert_path vh) (key_path vh) of
        Inl e \<Rightarrow> Inl e
      | Inr ck \<Rightarrow>
          (case sni_add env d ck new_resolver of
             None \<Rightarrow> Inl (NameRejected d)
           | Some r \<Rightarrow> reload_loop env vs r))"

definition reload_certs :: "'r tls_env \<Rightarrow> 'r config \<Rightarrow> (load_error + unit) \<times> 'r config" where
  "reload_certs env cfg =
     (case reload_loop env (cfg_vhosts cfg) (sni_new env) of
        Inl e \<Rightarrow> (Inl e, cfg)
      | Inr r \<Rightarrow> (Inr (), resolver_update r cfg))"

section \<open>The contract of the resolver\<close>

lemma find_append: "find P (xs @ ys) = (case find P xs of Some x \<Rightarrow> Some x | None \<Rightarrow> find P ys)"
  by (induction xs) auto


locale sni_resolver =
  fixes env :: "'r tls_env"
  assumes resolve_new: "sni_resolve env (sni_new env) n = None"
    and resolve_add: "sni_add env d ck r = Some r' \<Longrightarrow>
          sni_resolve env r' n = (if n = Some (to_ascii_lowercase d) then Some ck else sni_resolve env r n)"
begin

lemma reload_loop_other:
  "reload_loop env vs r = Inr r' \<Longrightarrow> \<forall>(d, vh) \<in> set vs. n \<noteq> Some (to_ascii_lowercase d) \<Longrightarrow>
     sni_resolve env r' n = sni_resolve env r n"
proof (induction vs arbitrary: r)
  case (Cons v vs)
  obtain d vh where v: "v = (d, vh)" by fastforce
  from Cons.prems(1) obtain ck r1 where "sni_add env d ck r = Some r1" "reload_loop env vs r1 = Inr r'"
    by (auto simp: v split: sum.splits option.splits)
  with Cons v show ?case by (simp add: resolve_add)
qed simp

lemma reload_loop_all:
  assumes "reload_loop env vs r = Inr r'" and "(d, vh) \<in> set vs"
    and "distinct (map (\<lambda>(d, _). to_ascii_lowercase d) vs)"
  shows "\<exists>ck. read_certified_key env (cert_path vh) (key_path vh) = Inr ck \<and>
     sni_resolve env r' (Some (to_ascii_lowercase d)) = Some ck"
  using assms
proof (induction vs arbitrary: r)
  case (Cons v vs)
  obtain d' vh' where v: "v = (d', vh')" by fastforce
  from Cons.prems(1) obtain ck r1 where ck: "read_certified_key env (cert_path vh') (key_path vh') = Inr ck"
    "sni_add env d' ck r = Some r1" "reload_loop env vs r1 = Inr r'"
    by (auto simp: v split: sum.splits option.splits)
  show ?case
  proof (cases "(d, vh) = v")
    case True
    with Cons.prems(3) v have "\<forall>(x, y) \<in> set vs. Some (to_ascii_lowercase d) \<noteq> Some (to_ascii_lowercase x)"
      by force
    from reload_loop_other [OF ck(3) this] True v ck show ?thesis by (auto simp: resolve_add)
  next
    case False
    with Cons ck(3) v show ?thesis by auto
  qed
qed simp

text \<open>
  What loading gives: the resolver holds, for every name, the key read for the last entry with
  that name.
\<close>

lemma load_vhosts_resolver:
  assumes "load_vhosts env rvs vs r = Inr (vs', r')"
  shows "sni_resolve env r' (Some n) =
     (case find (\<lambda>rv. to_ascii_lowercase (domain rv) = n) (rev rvs) of
        None \<Rightarrow> sni_resolve env r (Some n)
      | Some rv \<Rightarrow> (case read_certified_key env (raw_cert_path rv) (raw_key_path rv) of
                     Inl e \<Rightarrow> None | Inr ck \<Rightarrow> Some ck))"
  using assms
proof (induction rvs arbitrary: vs r)
  case (Cons rv rvs)
  from Cons.prems obtain ck r1 where ck: "read_certified_key env (raw_cert_path rv) (raw_key_path rv) = Inr ck"
    "sni_add env (domain rv) ck r = Some r1"
    "load_vhosts env rvs (AList.update (domain rv) (vhost_of_raw rv) vs) r1 = Inr (vs', r')"
    by (auto split: sum.splits option.splits)
  from Cons.IH [OF ck(3)] ck(1,2) show ?case
    by (auto simp: resolve_add find_append split: option.splits)
qed simp

end

section \<open>Facts about loading\<close>

lemma load_vhosts_lookup:
  assumes "load_vhosts env rvs vs r = Inr (vs', r')"
  shows "map_of vs' d =
     (case find (\<lambda>rv. domain rv = d) (rev rvs) of None \<Rightarrow> map_of vs d | Some rv \<Rightarrow> Some (vhost_of_raw rv))"
  using assms
proof (induction rvs arbitrary: vs r)
  case (Cons rv rvs)
  from Cons.prems obtain r1 where
    "load_vhosts env rvs (AList.update (domain rv) (vhost_of_raw rv) vs) r1 = Inr (vs', r')"
    by (auto split: sum.splits option.splits)
  from Cons.IH [OF this] show ?case
    by (auto simp: find_append update_conv split: option.splits)
qed simp

lemma load_vhosts_distinct:
  "load_vhosts env rvs vs r = Inr (vs', r') \<Longrightarrow> distinct (map fst vs) \<Longrightarrow> distinct (map fst vs')"
proof (induction rvs arbitrary: vs r)
  case (Cons rv rvs)
  from Cons.prems(1) obtain r1 where
    "load_vhosts env rvs (AList.update (domain rv) (vhost_of_raw rv) vs) r1 = Inr (vs', r')"
    by (auto split: sum.splits option.splits)
  from Cons.IH [OF this distinct_update [OF Cons.prems(2)]] show ?case .
qed simp

lemma load_vhosts_keys:
  "load_vhosts env rvs vs r = Inr (vs', r') \<Longrightarrow> rv \<in> set rvs \<Longrightarrow>
     \<exists>ck. read_certified_key env (raw_cert_path rv) (raw_key_path rv) = Inr ck"
  by (induction rvs arbitrary: vs r) (auto split: sum.splits option.splits)

lemma find_in_set: "find P xs = Some x \<Longrightarrow> x \<in> set xs"
  by (auto simp: find_Some_iff)

lemma load_parts:
  assumes "load env path = Inr cfg"
  obtains content raw where "fs_read_to_string env path = Some content" "toml_parse env content = Some raw"
    "load_vhosts env (raw_vhosts raw) [] (sni_new env) = Inr (cfg_vhosts cfg, cert_resolver cfg)"
    "network cfg = raw_network raw" "timeouts cfg = raw_timeout raw" "limits cfg = raw_limit raw"
    "bans cfg = raw_ban raw"
  using assms by (auto simp: load_def split: option.splits sum.splits prod.splits)

text \<open>A virtual host as the loader builds it: longest path first, a counter for every path.\<close>

definition vhost_wf :: "vhost_config \<Rightarrow> bool" where
  "vhost_wf vh \<longleftrightarrow>
     sorted_wrt (\<lambda>r s. str_len (fst s) \<le> str_len (fst r)) (routers vh) \<and>
     distinct (map fst (routers vh)) \<and> dom (routers_state vh) = fst ` set (routers vh)"

lemma sort_routers_sorted: "sorted_wrt (\<lambda>r s. str_len (fst s) \<le> str_len (fst r)) (sort_routers rs)"
proof -
  have "sorted (map (\<lambda>r. - int (str_len (fst r))) (sort_routers rs))" by (simp add: sort_routers_def)
  then show ?thesis by (simp add: sorted_map)
qed

lemma sort_routers_mset [simp]: "mset (sort_routers rs) = mset rs"
  by (simp add: sort_routers_def)

lemma sort_routers_set [simp]: "set (sort_routers rs) = set rs"
  by (simp add: sort_routers_def)

lemma sort_routers_distinct: "distinct (map fst (sort_routers rs)) = distinct (map fst rs)"
proof -
  have "mset (map fst (sort_routers rs)) = mset (map fst rs)" by simp
  then show ?thesis by (metis mset_eq_imp_distinct_iff)
qed

lemma vhost_of_raw_wf: "distinct (map fst (raw_routers rv)) \<Longrightarrow> vhost_wf (vhost_of_raw rv)"
  by (auto simp: vhost_wf_def vhost_of_raw_def sort_routers_sorted sort_routers_distinct dom_def split: if_splits)

lemma set_update_subset: "set (AList.update k v xs) \<subseteq> insert (k, v) (set xs)"
  by (induction xs) auto

text \<open>What a successful load leaves: distinct domains with well-formed hosts.\<close>

lemma load_vhosts_wf:
  "load_vhosts env rvs vs r = Inr (vs', r') \<Longrightarrow> \<forall>rv \<in> set rvs. distinct (map fst (raw_routers rv)) \<Longrightarrow>
     \<forall>(d, vh) \<in> set vs. vhost_wf vh \<Longrightarrow> \<forall>(d, vh) \<in> set vs'. vhost_wf vh"
proof (induction rvs arbitrary: vs r)
  case (Cons rv rvs)
  from Cons.prems(1) obtain ck r2 where
    l: "load_vhosts env rvs (AList.update (domain rv) (vhost_of_raw rv) vs) r2 = Inr (vs', r')"
    by (auto split: sum.splits option.splits)
  let ?vs = "AList.update (domain rv) (vhost_of_raw rv) vs"
  have wf: "vhost_wf (vhost_of_raw rv)" using Cons.prems(2) by (intro vhost_of_raw_wf) simp
  have "case x of (d, vh) \<Rightarrow> vhost_wf vh" if "x \<in> set ?vs" for x
    using subsetD [OF set_update_subset that] wf Cons.prems(3) by auto
  then have "\<forall>(d, vh) \<in> set ?vs. vhost_wf vh" by simp
  with Cons.IH [OF l] Cons.prems(2) show ?case by simp
qed simp

text \<open>Reloading changes the resolver only.\<close>

lemma reload_certs_keeps:
  assumes "reload_certs env cfg = (res, cfg')"
  shows "limits cfg' = limits cfg" "bans cfg' = bans cfg" "timeouts cfg' = timeouts cfg"
    "network cfg' = network cfg" "cfg_vhosts cfg' = cfg_vhosts cfg"
  using assms by (auto simp: reload_certs_def resolver_update_def split: sum.splits)

section \<open>A reference environment\<close>

text \<open>The resolver as a map from lower-case names, over given files.\<close>

definition ref_env ::
  "(ustr \<Rightarrow> byte list option) \<Rightarrow> (ustr \<Rightarrow> raw_config option) \<Rightarrow> (ustr \<rightharpoonup> certified_key) tls_env" where
  "ref_env files toml =
     \<lparr>fs_read_to_string = (\<lambda>p. map_option (map unat) (files p)), fs_read = files, toml_parse = toml,
      pem_certs = (\<lambda>b. Some [b]), pem_key = (\<lambda>b. Some (if b = [] then None else Some b)),
      supported_key = Some, sni_new = Map.empty,
      sni_add = (\<lambda>d ck r. Some (r(to_ascii_lowercase d \<mapsto> ck))),
      sni_resolve = (\<lambda>r n. case n of None \<Rightarrow> None | Some m \<Rightarrow> r m)\<rparr>"

interpretation ref_sni: sni_resolver "ref_env files toml"
  by unfold_locales (auto simp: ref_env_def split: option.splits)

section \<open>Properties\<close>

text \<open>
  C18: hot reload is all or nothing. If reading any certificate or key fails the resolver in use is
  untouched; otherwise every virtual host answers with the key now on disk, no other name resolves,
  and nothing else of the configuration changes. (Names that differ only in case are excluded.)
\<close>

theorem reload_all_or_nothing:
  assumes "sni_resolver env" and "distinct (map (\<lambda>(d, _). to_ascii_lowercase d) (cfg_vhosts cfg))"
    and "reload_certs env cfg = (res, cfg')"
  shows "case res of
     Inl e \<Rightarrow> cfg' = cfg
   | Inr _ \<Rightarrow> cfg' = cfg\<lparr>cert_resolver := cert_resolver cfg'\<rparr> \<and>
       (\<forall>(d, vh) \<in> set (cfg_vhosts cfg). \<exists>ck.
          read_certified_key env (cert_path vh) (key_path vh) = Inr ck \<and>
          resolve env cfg' (Some (to_ascii_lowercase d)) = Some ck) \<and>
       (\<forall>n. n \<notin> (\<lambda>(d, _). to_ascii_lowercase d) ` set (cfg_vhosts cfg) \<longrightarrow> resolve env cfg' (Some n) = None)"
proof (cases "reload_loop env (cfg_vhosts cfg) (sni_new env)")
  case (Inl e)
  with assms(3) show ?thesis by (auto simp: reload_certs_def)
next
  case (Inr r)
  with assms(3) have res: "res = Inr ()" and cfg': "cfg' = resolver_update r cfg"
    by (auto simp: reload_certs_def)
  have "\<exists>ck. read_certified_key env (cert_path vh) (key_path vh) = Inr ck \<and>
      resolve env cfg' (Some (to_ascii_lowercase d)) = Some ck" if "(d, vh) \<in> set (cfg_vhosts cfg)" for d vh
    using sni_resolver.reload_loop_all [OF assms(1) Inr that assms(2)]
    by (simp add: cfg' resolve_def resolver_update_def)
  moreover have "resolve env cfg' (Some n) = None"
    if "n \<notin> (\<lambda>(d, _). to_ascii_lowercase d) ` set (cfg_vhosts cfg)" for n
    using sni_resolver.reload_loop_other [OF assms(1) Inr, of "Some n"] that
      sni_resolver.resolve_new [OF assms(1)]
    by (force simp: cfg' resolve_def resolver_update_def)
  ultimately show ?thesis by (auto simp: res cfg' resolver_update_def)
qed

definition demo_raw :: raw_config where
  "demo_raw =
     \<lparr>raw_network = \<lparr>http_addrs = [], https_addrs = [], max_connections = 2\<rparr>,
      raw_timeout = \<lparr>c_tls_handshake = 5, c_header_read = 5, c_keep_alive_idle = 5, c_keep_alive_timeout = 5,
        c_body_timeout = 30, s_connect = 5, s_response = 30, s_websocket_idle = 60\<rparr>,
      raw_limit = \<lparr>max_uri_size = 100, max_header_size = 8192, max_header_count = 20, max_body_size = 1000,
        c_h2_max_streams = 10, max_rps = 5, max_bandwidth = 0\<rparr>,
      raw_ban = \<lparr>ban_timeout = 60, ban_protocol = 60, ban_waf = 60, ban_rate_limit = 60\<rparr>,
      raw_vhosts = [\<lparr>domain = lit ''Ex.org'', raw_cert_path = lit ''c'', raw_key_path = lit ''k'',
        raw_routers = [(lit ''/'', [lit ''b:1'']), (lit ''/api/'', [lit ''b:2'', lit ''b:3''])]\<rparr>]\<rparr>"

definition demo_files :: "ustr \<Rightarrow> byte list option" where
  "demo_files p = (if p = lit ''c'' then Some [1] else if p = lit ''k'' then Some [2]
     else if p = lit ''config.toml'' then Some [] else None)"

abbreviation demo_env :: "(ustr \<rightharpoonup> certified_key) tls_env" where
  "demo_env \<equiv> ref_env demo_files (\<lambda>_. Some demo_raw)"

definition demo_config :: "(ustr \<rightharpoonup> certified_key) config" where
  "demo_config = (case load demo_env (lit ''config.toml'') of Inr cfg \<Rightarrow> cfg)"

lemmas load_eval = load_def ref_env_def demo_files_def demo_raw_def read_certified_key_def
  AList.update.simps to_ascii_lowercase_def

lemma demo_load: "load demo_env (lit ''config.toml'') = Inr demo_config"
  by (simp add: demo_config_def load_eval)

lemma demo_vhosts: "cfg_vhosts demo_config = [(lit ''Ex.org'', vhost_of_raw (hd (raw_vhosts demo_raw)))]"
  by (simp add: demo_config_def load_eval)

theorem reload_all_or_nothing_witness:
  "resolve demo_env (snd (reload_certs demo_env demo_config)) (Some (lit ''ex.org'')) \<noteq> None"
proof -
  obtain res cfg' where r: "reload_certs demo_env demo_config = (res, cfg')" by fastforce
  have "res = Inr ()"
    using r by (simp add: reload_certs_def demo_vhosts vhost_of_raw_def load_eval)
  moreover have "distinct (map (\<lambda>(d, _). to_ascii_lowercase d) (cfg_vhosts demo_config))"
    by (simp add: demo_vhosts)
  ultimately show ?thesis
    using reload_all_or_nothing [OF ref_sni.sni_resolver_axioms _ r]
    by (auto simp: demo_vhosts r to_ascii_lowercase_def ascii_defs)
qed

text \<open>
  C20: what loading promises. The loaded table has one entry per domain, built from the last entry of
  the file with that domain: its routes are those of the file, longest path first, every route has
  a counter at zero, and the certificate that the resolver returns for the domain's name is the one
  read for the last entry with that name.
\<close>

theorem load_exact:
  assumes "sni_resolver env" and "load env path = Inr cfg"
    and "\<forall>raw. toml_parse env (the (fs_read_to_string env path)) = Some raw \<longrightarrow>
           (\<forall>rv \<in> set (raw_vhosts raw). distinct (map fst (raw_routers rv)))"
  shows "\<exists>raw. toml_parse env (the (fs_read_to_string env path)) = Some raw \<and>
     distinct (map fst (cfg_vhosts cfg)) \<and>
     (\<forall>d. map_of (cfg_vhosts cfg) d =
        map_option vhost_of_raw (find (\<lambda>rv. domain rv = d) (rev (raw_vhosts raw)))) \<and>
     (\<forall>d vh. map_of (cfg_vhosts cfg) d = Some vh \<longrightarrow> vhost_wf vh) \<and>
     (\<forall>n rv. find (\<lambda>rv. to_ascii_lowercase (domain rv) = n) (rev (raw_vhosts raw)) = Some rv \<longrightarrow>
        (\<exists>ck. read_certified_key env (raw_cert_path rv) (raw_key_path rv) = Inr ck \<and>
           resolve env cfg (Some n) = Some ck))"
proof -
  obtain content raw where p: "fs_read_to_string env path = Some content" "toml_parse env content = Some raw"
    and l: "load_vhosts env (raw_vhosts raw) [] (sni_new env) = Inr (cfg_vhosts cfg, cert_resolver cfg)"
    using load_parts [OF assms(2)] by blast
  have look: "map_of (cfg_vhosts cfg) d = map_option vhost_of_raw (find (\<lambda>rv. domain rv = d) (rev (raw_vhosts raw)))" for d
    using load_vhosts_lookup [OF l, of d] by (simp split: option.splits)
  have wf: "vhost_wf vh" if "map_of (cfg_vhosts cfg) d = Some vh" for d vh
  proof -
    from that look obtain rv where "find (\<lambda>rv. domain rv = d) (rev (raw_vhosts raw)) = Some rv" "vh = vhost_of_raw rv"
      by auto
    moreover from find_in_set [OF this(1)] have "rv \<in> set (raw_vhosts raw)" by simp
    ultimately show ?thesis using assms(3) p vhost_of_raw_wf by simp
  qed
  have "\<exists>ck. read_certified_key env (raw_cert_path rv) (raw_key_path rv) = Inr ck \<and>
      resolve env cfg (Some n) = Some ck"
    if f: "find (\<lambda>rv. to_ascii_lowercase (domain rv) = n) (rev (raw_vhosts raw)) = Some rv" for n rv
  proof -
    from find_in_set [OF f] load_vhosts_keys [OF l] obtain ck where
      "read_certified_key env (raw_cert_path rv) (raw_key_path rv) = Inr ck" by auto
    with sni_resolver.load_vhosts_resolver [OF assms(1) l, of n] f show ?thesis by (simp add: resolve_def)
  qed
  with look wf p load_vhosts_distinct [OF l] show ?thesis by (intro exI [of _ raw]) simp
qed

theorem load_exact_witness:
  "vhost_wf (vhost_of_raw (hd (raw_vhosts demo_raw)))"
proof -
  have "\<forall>raw. toml_parse demo_env (the (fs_read_to_string demo_env (lit ''config.toml''))) = Some raw \<longrightarrow>
      (\<forall>rv \<in> set (raw_vhosts raw). distinct (map fst (raw_routers rv)))"
    by (simp add: load_eval)
  from load_exact [OF ref_sni.sni_resolver_axioms demo_load this] show ?thesis
    by (auto simp: demo_vhosts)
qed

end
