(* ===== verification/Ban.thy ===== *)
theory Ban
  imports Config
begin

text \<open>
  The ban list (\<open>src/ban.rs\<close>): temporary bans of IP addresses, their expiry, the lazy
  removal in \<open>check\<close> and the background sweep. The list sits behind an asynchronous lock;
  one call of \<open>check\<close> holds it twice, so the second half of the theory is the step
  relation of all tasks that work on the list, one step per critical section.
\<close>

section \<open>The ban list\<close>

datatype violation = Timeout | Protocol | Waf | RateLimit

record ban_entry =
  expire_at :: instant

type_synonym ban_list = "ip_addr \<rightharpoonup> ban_entry"

definition ban_new :: ban_list where
  "ban_new = Map.empty"

text \<open>One round of the background task: entries that have not expired stay.\<close>

definition ban_cleanup :: "instant \<Rightarrow> ban_list \<Rightarrow> ban_list" where
  "ban_cleanup now m = map_retain (\<lambda>_ e. now < expire_at e) m"

text \<open>\<open>now\<close> is the instant read in the call; the result is \<^term>\<open>None\<close> if adding the duration panics.\<close>

definition ban :: "ip_addr \<Rightarrow> duration \<Rightarrow> instant \<Rightarrow> ban_list \<Rightarrow> ban_list option" where
  "ban ip d now m =
     (case instant_add now d of
        None \<Rightarrow> None
      | Some e \<Rightarrow> Some (m(ip \<mapsto> \<lparr>expire_at = e\<rparr>)))"

definition violation_secs :: "ban_config \<Rightarrow> violation \<Rightarrow> u64" where
  "violation_secs cfg v =
     (case v of
        Timeout \<Rightarrow> ban_timeout cfg
      | Protocol \<Rightarrow> ban_protocol cfg
      | Waf \<Rightarrow> ban_waf cfg
      | RateLimit \<Rightarrow> ban_rate_limit cfg)"

definition punish :: "ip_addr \<Rightarrow> violation \<Rightarrow> ban_config \<Rightarrow> instant \<Rightarrow> ban_list \<Rightarrow> ban_list option" where
  "punish ip v cfg now m =
     (let duration_sec = unat (violation_secs cfg v)
      in if 0 < duration_sec then ban ip (from_secs duration_sec) now m else Some m)"

text \<open>
  \<open>check\<close> reads the clock once, looks the address up under the read lock and answers if
  it can (\<^term>\<open>Some b\<close>); an expired entry makes it take the write lock and look again.
\<close>

definition ban_check_read :: "instant \<Rightarrow> ip_addr \<Rightarrow> ban_list \<Rightarrow> bool option" where
  "ban_check_read now ip m =
     (case m ip of
        Some e \<Rightarrow> if now \<le> expire_at e then Some True else None
      | None \<Rightarrow> Some False)"

definition ban_check_write :: "instant \<Rightarrow> ip_addr \<Rightarrow> ban_list \<Rightarrow> bool \<times> ban_list" where
  "ban_check_write now ip m =
     (case m ip of
        Some e \<Rightarrow> if expire_at e < now then (False, m(ip := None)) else (True, m)
      | None \<Rightarrow> (False, m))"

definition ban_check :: "instant \<Rightarrow> ip_addr \<Rightarrow> ban_list \<Rightarrow> bool \<times> ban_list" where
  "ban_check now ip m =
     (case ban_check_read now ip m of
        Some b \<Rightarrow> (b, m)
      | None \<Rightarrow> ban_check_write now ip m)"

section \<open>The contract of the ban service\<close>

text \<open>
  What the listeners and the request pipeline need: \<open>until\<close> is the instant up to which an
  address is banned. Its laws are proved for the operations above in the interpretation below.
\<close>

definition banned_until :: "ban_list \<Rightarrow> ip_addr \<Rightarrow> instant option" where
  "banned_until m ip = map_option expire_at (m ip)"

locale ban_service =
  fixes check :: "instant \<Rightarrow> ip_addr \<Rightarrow> 's \<Rightarrow> bool \<times> 's"
    and punish :: "ip_addr \<Rightarrow> 'v \<Rightarrow> instant \<Rightarrow> 's \<Rightarrow> 's option"
    and duration_of :: "'v \<Rightarrow> duration"
    and until :: "'s \<Rightarrow> ip_addr \<Rightarrow> instant option"
  assumes check_iff: "fst (check now ip s) \<longleftrightarrow> (\<exists>e. until s ip = Some e \<and> now \<le> e)"
    and check_keeps: "until s ip' = Some e \<Longrightarrow> now \<le> e \<Longrightarrow> until (snd (check now ip s)) ip' = Some e"
    and check_adds_none: "until (snd (check now ip s)) ip' = Some e \<Longrightarrow> until s ip' = Some e"
    and punish_sets: "punish ip v now s = Some s' \<Longrightarrow> 0 < duration_of v \<Longrightarrow>
          until s' = (until s)(ip \<mapsto> now + duration_of v)"
    and punish_none: "duration_of v = 0 \<Longrightarrow> punish ip v now s = Some s"
begin

text \<open>A run of checks at given instants, as the listeners make them.\<close>

lemma checks_keep:
  "until s ip = Some e \<Longrightarrow> \<forall>(t, ip') \<in> set qs. t \<le> e \<Longrightarrow>
     until (fold (\<lambda>(t, ip') s. snd (check t ip' s)) qs s) ip = Some e"
  by (induction qs arbitrary: s) (auto intro: check_keeps)

lemma punished_is_banned:
  assumes "punish ip v now s = Some s'" and "0 < duration_of v"
    and "\<forall>(t, ip') \<in> set qs. t \<le> now + duration_of v" and "t' \<le> now + duration_of v"
  shows "fst (check t' ip (fold (\<lambda>(t, ip') s. snd (check t ip' s)) qs s'))"
proof -
  have "until s' ip = Some (now + duration_of v)"
    using punish_sets [OF assms(1,2)] by simp
  from checks_keep [OF this assms(3)] show ?thesis
    using assms(4) by (simp add: check_iff)
qed

lemma punish_other:
  assumes "punish ip v now s = Some s'" and "ip' \<noteq> ip"
  shows "fst (check t ip' s') \<longleftrightarrow> fst (check t ip' s)"
  using assms punish_sets [OF assms(1)] punish_none [of v ip now s]
  by (cases "duration_of v = 0") (auto simp: check_iff)

end

lemma ban_check_answer:
  "fst (ban_check now ip m) \<longleftrightarrow> (\<exists>e. banned_until m ip = Some e \<and> now \<le> e)"
  by (auto simp: ban_check_def ban_check_read_def ban_check_write_def banned_until_def
      split: option.splits if_splits)

lemma ban_check_effect:
  "snd (ban_check now ip m) =
     (case m ip of Some e \<Rightarrow> if expire_at e < now then m(ip := None) else m | None \<Rightarrow> m)"
  by (auto simp: ban_check_def ban_check_read_def ban_check_write_def
      split: option.splits if_splits)

lemma banned_until_upd [simp]:
  "banned_until (m(ip \<mapsto> x)) = (banned_until m)(ip \<mapsto> expire_at x)"
  "banned_until (m(ip := None)) = (banned_until m)(ip := None)"
  by (simp_all add: banned_until_def fun_eq_iff)

lemma ban_Some: "ban ip d now m = Some m' \<longleftrightarrow>
    (\<exists>e. instant_add now d = Some e \<and> m' = m(ip \<mapsto> \<lparr>expire_at = e\<rparr>))"
  by (auto simp: ban_def split: option.splits)

lemma punish_Some:
  assumes "punish ip v cfg now m = Some m'"
  shows "banned_until m' =
     (if violation_secs cfg v = 0 then banned_until m
      else (banned_until m)(ip \<mapsto> now + from_secs (unat (violation_secs cfg v))))"
  using assms
  by (auto simp: punish_def Let_def unat_gt_0 ban_Some split: if_splits dest: instant_add_Some)

interpretation bans: ban_service ban_check "\<lambda>ip v. punish ip v cfg"
    "\<lambda>v. from_secs (unat (violation_secs cfg v))" banned_until for cfg
proof
  fix now ip ip' s e
  show "fst (ban_check now ip s) \<longleftrightarrow> (\<exists>e. banned_until s ip = Some e \<and> now \<le> e)"
    by (rule ban_check_answer)
  show "banned_until s ip' = Some e \<Longrightarrow> now \<le> e \<Longrightarrow>
      banned_until (snd (ban_check now ip s)) ip' = Some e"
    by (auto simp: ban_check_effect banned_until_def split: option.splits)
  show "banned_until (snd (ban_check now ip s)) ip' = Some e \<Longrightarrow> banned_until s ip' = Some e"
    by (auto simp: ban_check_effect banned_until_def split: option.splits if_splits)
next
  fix ip v now s s'
  assume "punish ip v cfg now s = Some s'" and "0 < from_secs (unat (violation_secs cfg v))"
  then show "banned_until s' = (banned_until s)(ip \<mapsto> now + from_secs (unat (violation_secs cfg v)))"
    using punish_Some by (auto simp: unat_eq_zero)
next
  fix v ip now s
  assume "from_secs (unat (violation_secs cfg v)) = 0"
  then show "punish ip v cfg now s = Some s" by (simp add: punish_def)
qed

section \<open>Tasks on the ban list\<close>

text \<open>
  The shared list with the clock and the checks that are between their two critical sections
  (each with the instant it read on entry). A step is one critical section of some task, or time
  passing; the label tells what it did. An instant that a task uses was read from the clock at
  some earlier point, so it is at most the current time.
\<close>

record ban_sys =
  bs_list :: ban_list
  bs_clock :: instant
  bs_waiting :: "(ip_addr \<times> instant) list"

datatype ban_label =
    Banned ip_addr instant
  | Answer ip_addr instant bool
  | Silent

inductive ban_step :: "ban_sys \<Rightarrow> ban_label \<Rightarrow> ban_sys \<Rightarrow> bool" where
  tick: "bs_clock s \<le> t \<Longrightarrow> ban_step s Silent (s\<lparr>bs_clock := t\<rparr>)"
| insert: "now \<le> bs_clock s \<Longrightarrow> instant_add now d = Some e \<Longrightarrow>
     ban ip d now (bs_list s) = Some m \<Longrightarrow> ban_step s (Banned ip e) (s\<lparr>bs_list := m\<rparr>)"
| sweep: "now \<le> bs_clock s \<Longrightarrow>
     ban_step s Silent (s\<lparr>bs_list := ban_cleanup now (bs_list s)\<rparr>)"
| answer_read: "now \<le> bs_clock s \<Longrightarrow> ban_check_read now ip (bs_list s) = Some b \<Longrightarrow>
     ban_step s (Answer ip now b) s"
| postpone: "now \<le> bs_clock s \<Longrightarrow> ban_check_read now ip (bs_list s) = None \<Longrightarrow>
     ban_step s Silent (s\<lparr>bs_waiting := (ip, now) # bs_waiting s\<rparr>)"
| answer_write: "(ip, now) \<in> set (bs_waiting s) \<Longrightarrow>
     ban_check_write now ip (bs_list s) = (b, m) \<Longrightarrow>
     ban_step s (Answer ip now b) (s\<lparr>bs_list := m, bs_waiting := remove1 (ip, now) (bs_waiting s)\<rparr>)"

inductive ban_run :: "ban_sys \<Rightarrow> ban_label list \<Rightarrow> ban_sys \<Rightarrow> bool" where
  run_nil: "ban_run s [] s"
| run_cons: "ban_step s l s' \<Longrightarrow> ban_run s' ls s'' \<Longrightarrow> ban_run s (l # ls) s''"

inductive_simps ban_run_Nil [simp]: "ban_run s [] s'"
inductive_simps ban_run_Cons: "ban_run s (l # ls) s'"

interpretation ban_lts: labelled_system ban_step ban_run
  by unfold_locales (auto simp: ban_run_Cons)

definition ban_start :: "instant \<Rightarrow> ban_sys" where
  "ban_start t = \<lparr>bs_list = ban_new, bs_clock = t, bs_waiting = []\<rparr>"

text \<open>A waiting check read the clock in the past.\<close>

definition ban_inv :: "ban_sys \<Rightarrow> bool" where
  "ban_inv s \<longleftrightarrow> (\<forall>(ip, now) \<in> set (bs_waiting s). now \<le> bs_clock s)"

lemma ban_inv_start: "ban_inv (ban_start t)"
  by (simp add: ban_inv_def ban_start_def)

lemma ban_step_inv: "ban_step s l s' \<Longrightarrow> ban_inv s \<Longrightarrow> ban_inv s'"
proof (induction rule: ban_step.induct)
  case (answer_write ip now s b m)
  then show ?case by (auto simp: ban_inv_def dest: notin_set_remove1)
qed (auto simp: ban_inv_def)

lemma ban_run_inv: "ban_run s ls s' \<Longrightarrow> ban_inv s \<Longrightarrow> ban_inv s'"
  by (rule ban_lts.run_keeps [where P = "\<lambda>_. True"]) (auto intro: ban_step_inv simp: list_all_iff)

lemma ban_step_clock: "ban_step s l s' \<Longrightarrow> bs_clock s \<le> bs_clock s'"
  by (induction rule: ban_step.induct) auto

lemma ban_run_clock: "ban_run s ls s' \<Longrightarrow> bs_clock s \<le> bs_clock s'"
  by (induction rule: ban_run.induct) (auto dest: ban_step_clock)

text \<open>While the clock has not reached the expiry, no step but a new ban of the address touches an entry.\<close>

lemma ban_step_holds:
  assumes "ban_step s l s'" and "ban_inv s"
    and "bs_list s ip = Some \<lparr>expire_at = e\<rparr>" and "bs_clock s' < e" and "\<And>e'. l \<noteq> Banned ip e'"
  shows "bs_list s' ip = Some \<lparr>expire_at = e\<rparr> \<and> (\<forall>now b. l = Answer ip now b \<longrightarrow> b)"
  using assms
  by (induction rule: ban_step.induct)
    (auto simp: ban_cleanup_def ban_check_read_def ban_check_write_def ban_inv_def ban_Some
      split: option.splits if_splits)

lemma ban_run_holds:
  assumes "ban_run s ls s'" and "ban_inv s"
    and "bs_list s ip = Some \<lparr>expire_at = e\<rparr>" and "bs_clock s' < e"
    and "\<forall>e'. Banned ip e' \<notin> set ls"
  shows "bs_list s' ip = Some \<lparr>expire_at = e\<rparr> \<and> (\<forall>now b. Answer ip now b \<in> set ls \<longrightarrow> b)"
  using assms
proof (induction rule: ban_run.induct)
  case (run_nil s)
  then show ?case by simp
next
  case (run_cons s l s' ls s'')
  have "bs_clock s' < e"
    using ban_run_clock [OF run_cons.hyps(2)] run_cons.prems(3) by simp
  with ban_step_holds [OF run_cons.hyps(1) run_cons.prems(1,2)] run_cons.prems(4)
  have "bs_list s' ip = Some \<lparr>expire_at = e\<rparr> \<and> (\<forall>now b. l = Answer ip now b \<longrightarrow> b)"
    by auto
  then show ?case
    using run_cons.IH run_cons.prems ban_step_inv [OF run_cons.hyps(1)] by auto
qed

text \<open>Every entry of the list, hence every positive answer, goes back to a ban made in the run.\<close>

lemma ban_step_origin:
  assumes "ban_step s l s'"
  shows "bs_list s' ip = Some x \<Longrightarrow> bs_list s ip = Some x \<or> l = Banned ip (expire_at x)"
    and "l = Answer ip now True \<Longrightarrow> \<exists>x. bs_list s ip = Some x \<and> now \<le> expire_at x"
  using assms
  by (induction rule: ban_step.induct)
    (auto simp: ban_cleanup_def ban_check_read_def ban_check_write_def ban_Some
      split: option.splits if_splits)

lemma ban_run_origin:
  assumes "ban_run s ls s'"
  shows "Answer ip now True \<in> set ls \<Longrightarrow>
     (\<exists>x. bs_list s ip = Some x \<and> now \<le> expire_at x) \<or> (\<exists>e \<ge> now. Banned ip e \<in> set ls)"
  using assms
proof (induction rule: ban_run.induct)
  case (run_cons s l s' ls s'')
  show ?case
  proof (cases "l = Answer ip now True")
    case True
    from ban_step_origin(2) [OF run_cons.hyps(1) this] show ?thesis by blast
  next
    case False
    with run_cons have "(\<exists>x. bs_list s' ip = Some x \<and> now \<le> expire_at x)
        \<or> (\<exists>e \<ge> now. Banned ip e \<in> set ls)" by auto
    then show ?thesis
      using ban_step_origin(1) [OF run_cons.hyps(1)] by fastforce
  qed
qed simp

lemma ban_step_Banned:
  "ban_step s (Banned ip e) s' \<Longrightarrow> bs_list s' ip = Some \<lparr>expire_at = e\<rparr>"
  by (auto elim: ban_step.cases simp: ban_Some)

section \<open>Properties\<close>

text \<open>
  C21: in every interleaving of the tasks, once an address is banned until \<open>e\<close> it stays
  banned: as long as the clock is before \<open>e\<close> and no later ban of that address is made, the
  entry is in the list and every check of the address, also one that was caught between its two
  critical sections, answers that it is banned.
\<close>

theorem ban_holds_until_expiry:
  assumes "ban_run (ban_start t) (ls1 @ Banned ip e # ls2) s"
    and "\<forall>e'. Banned ip e' \<notin> set ls2" and "bs_clock s < e"
  shows "bs_list s ip = Some \<lparr>expire_at = e\<rparr> \<and> (\<forall>now b. Answer ip now b \<in> set ls2 \<longrightarrow> b)"
proof -
  from assms(1) obtain s1 s2 where run: "ban_run (ban_start t) ls1 s1"
    "ban_step s1 (Banned ip e) s2" "ban_run s2 ls2 s"
    by (auto simp: ban_lts.run_append ban_run_Cons)
  then have "ban_inv s2" by (blast intro: ban_run_inv ban_inv_start ban_step_inv)
  from ban_run_holds [OF run(3) this ban_step_Banned [OF run(2)] assms(3,2)] show ?thesis .
qed

definition demo_ip :: ip_addr where
  "demo_ip = V4 203 0 113 9"

lemma ban_demo_run:
  "ban_run (ban_start 0) ([] @ Banned demo_ip 5000000000 # [Silent, Answer demo_ip 3000000000 True])
     \<lparr>bs_list = [demo_ip \<mapsto> \<lparr>expire_at = 5000000000\<rparr>], bs_clock = 4000000000, bs_waiting = []\<rparr>"
proof -
  let ?m = "[demo_ip \<mapsto> \<lparr>expire_at = 5000000000\<rparr>]"
  let ?s1 = "\<lparr>bs_list = ?m, bs_clock = 0, bs_waiting = []\<rparr>"
  let ?s2 = "\<lparr>bs_list = ?m, bs_clock = 4000000000, bs_waiting = []\<rparr>"
  have "ban_step (ban_start 0) (Banned demo_ip 5000000000) ((ban_start 0)\<lparr>bs_list := ?m\<rparr>)"
    by (rule ban_step.insert [where now = 0 and d = 5000000000])
      (simp_all add: ban_start_def ban_def ban_new_def instant_add_def nanos_per_sec_def)
  moreover have "(ban_start 0)\<lparr>bs_list := ?m\<rparr> = ?s1" by (simp add: ban_start_def)
  moreover have "ban_step ?s1 Silent (?s1\<lparr>bs_clock := 4000000000\<rparr>)" by (rule ban_step.tick) simp
  moreover have "ban_step ?s2 (Answer demo_ip 3000000000 True) ?s2"
    by (rule ban_step.answer_read) (simp_all add: ban_check_read_def)
  ultimately show ?thesis by (auto simp: ban_run_Cons)
qed

theorem ban_holds_until_expiry_witness:
  "([demo_ip \<mapsto> \<lparr>expire_at = 5000000000\<rparr>] :: ban_list) demo_ip = Some \<lparr>expire_at = 5000000000\<rparr>"
  using ban_holds_until_expiry [OF ban_demo_run] by simp

text \<open>
  C22: no address is refused without cause: in every interleaving from the empty list, a check
  that read the clock at \<open>now\<close> and answers that the address is banned follows a ban of that
  very address with an expiry not before \<open>now\<close>.
\<close>

theorem ban_answers_justified:
  assumes "ban_run (ban_start t) ls s" and "Answer ip now True \<in> set ls"
  shows "\<exists>e \<ge> now. Banned ip e \<in> set ls"
  using ban_run_origin [OF assms] by (auto simp: ban_start_def ban_new_def)

theorem ban_answers_justified_witness:
  "\<exists>e \<ge> 3000000000. Banned demo_ip e \<in> {Banned demo_ip 5000000000, Silent, Answer demo_ip 3000000000 True}"
  using ban_answers_justified [OF ban_demo_run, of demo_ip 3000000000] by simp

text \<open>
  A punishment for a violation bans the address for the configured number of seconds and no
  other: every check of the address up to that instant is positive, after any number of checks of
  any addresses in between, and the answers for other addresses do not change.
\<close>

theorem punish_bans_for_duration:
  assumes "punish ip v cfg now m = Some m'" and "violation_secs cfg v \<noteq> 0"
    and "\<forall>(t, ip') \<in> set qs. t \<le> now + from_secs (unat (violation_secs cfg v))"
    and "t' \<le> now + from_secs (unat (violation_secs cfg v))" and "other \<noteq> ip"
  shows "fst (ban_check t' ip (fold (\<lambda>(t, ip') m. snd (ban_check t ip' m)) qs m'))"
    and "fst (ban_check t'' other m') = fst (ban_check t'' other m)"
  using bans.punished_is_banned [OF assms(1) _ assms(3,4)] assms(2)
    bans.punish_other [OF assms(1,5)] by (simp_all add: unat_gt_0)

definition demo_ban_config :: ban_config where
  "demo_ban_config =
     \<lparr>ban_timeout = 60, ban_protocol = 300, ban_waf = 3600, ban_rate_limit = 0\<rparr>"

lemma demo_secs [simp]:
  "violation_secs demo_ban_config Timeout = 60"
  "violation_secs demo_ban_config Protocol = 300"
  "violation_secs demo_ban_config Waf = 3600"
  "violation_secs demo_ban_config RateLimit = 0"
  by (simp_all add: violation_secs_def demo_ban_config_def)

theorem punish_bans_for_duration_witness:
  "fst (ban_check 300000000000 demo_ip
     (fold (\<lambda>(t, ip') m. snd (ban_check t ip' m)) [(7, V4 1 2 3 4), (8, demo_ip)]
        [demo_ip \<mapsto> \<lparr>expire_at = 300000000005\<rparr>]))"
proof -
  have p: "punish demo_ip Protocol demo_ban_config 5 ban_new = Some [demo_ip \<mapsto> \<lparr>expire_at = 300000000005\<rparr>]"
    by (simp add: punish_def ban_def ban_new_def instant_add_def from_secs_def nanos_per_sec_def)
  show ?thesis
    by (rule punish_bans_for_duration(1) [OF p, where other = "V4 1 2 3 4"])
      (simp_all add: from_secs_def nanos_per_sec_def demo_ip_def)
qed

text \<open>
  The last punishment decides: it replaces an earlier ban of the address also when it ends
  earlier, so a ban of an hour can be cut to a minute by a lesser violation.
\<close>

theorem last_punishment_wins:
  assumes "punish ip v1 cfg t1 m = Some m1" and "punish ip v2 cfg t2 m1 = Some m2"
    and "violation_secs cfg v2 \<noteq> 0"
  shows "banned_until m2 ip = Some (t2 + from_secs (unat (violation_secs cfg v2)))"
  using punish_Some [OF assms(2)] assms(3) by simp

theorem last_punishment_wins_witness:
  "banned_until [demo_ip \<mapsto> \<lparr>expire_at = 61000000000\<rparr>] demo_ip = Some (1000000000 + from_secs 60)"
proof -
  have p: "punish demo_ip Waf demo_ban_config 0 ban_new = Some [demo_ip \<mapsto> \<lparr>expire_at = 3600000000000\<rparr>]"
    by (simp add: punish_def ban_def ban_new_def instant_add_def from_secs_def nanos_per_sec_def)
  have q: "punish demo_ip Timeout demo_ban_config 1000000000 [demo_ip \<mapsto> \<lparr>expire_at = 3600000000000\<rparr>]
      = Some [demo_ip \<mapsto> \<lparr>expire_at = 61000000000\<rparr>]"
    by (simp add: punish_def ban_def instant_add_def from_secs_def nanos_per_sec_def)
  show ?thesis using last_punishment_wins [OF p q] by simp
qed

text \<open>
  The two expiry tests disagree at the boundary: at the very instant of the expiry a check
  still answers that the address is banned, but if the sweep of that instant comes first it
  removes the entry and the same check answers that it is not.
\<close>

theorem ban_boundary_disagreement:
  assumes "banned_until m ip = Some e"
  shows "fst (ban_check e ip m) \<and> \<not> fst (ban_check e ip (ban_cleanup e m))"
  using assms by (auto simp: ban_check_answer banned_until_def ban_cleanup_def)

theorem ban_boundary_disagreement_witness:
  "\<not> fst (ban_check 7 demo_ip (ban_cleanup 7 [demo_ip \<mapsto> \<lparr>expire_at = 7\<rparr>]))"
  using ban_boundary_disagreement [of "[demo_ip \<mapsto> \<lparr>expire_at = 7\<rparr>]" demo_ip 7]
  by (simp add: banned_until_def)

end
