(* ===== verification/Ratelimit.thy ===== *)
theory Ratelimit
  imports Config
begin

text \<open>
  The per-address request limiter (\<open>src/ratelimit.rs\<close>): a fixed window of one second per
  address, opened by the first request after the previous window has run out, and the background
  task that forgets idle addresses. A call of \<open>check\<close> holds the entry of its address for
  its whole body, so it is one step; the clock is read before the entry is locked, hence the
  instants of successive steps need not be in order.
\<close>

section \<open>The limiter\<close>

record rate_state =
  count :: u32
  last_reset :: instant

type_synonym rate_limiter = "ip_addr \<rightharpoonup> rate_state"

definition rate_new :: rate_limiter where
  "rate_new = Map.empty"

text \<open>One round of the background task.\<close>

definition rate_cleanup :: "instant \<Rightarrow> rate_limiter \<Rightarrow> rate_limiter" where
  "rate_cleanup now m =
     map_retain (\<lambda>_ st. duration_since now (last_reset st) < from_secs 10) m"

definition rate_check :: "u32 \<Rightarrow> instant \<Rightarrow> ip_addr \<Rightarrow> rate_limiter \<Rightarrow> bool \<times> rate_limiter" where
  "rate_check mx now ip m =
     (if mx = 0 then (True, m)
      else
        (let entry = (case m ip of Some st \<Rightarrow> st | None \<Rightarrow> \<lparr>count = 0, last_reset = now\<rparr>)
         in if from_secs 1 \<le> duration_since now (last_reset entry)
            then (True, m(ip \<mapsto> \<lparr>count = 1, last_reset = now\<rparr>))
            else if count entry < mx
            then (True, m(ip \<mapsto> entry\<lparr>count := count entry + 1\<rparr>))
            else (False, m(ip \<mapsto> entry))))"

section \<open>Runs\<close>

text \<open>
  A run is a sequence of steps of any number of requests and of the background task, each with
  the instant it read. The run functions take the two operations as arguments, so that the
  contract below can state laws about runs of any limiter.
\<close>

datatype 'k limit_event = Check 'k instant | Sweep instant

fun event_time :: "'k limit_event \<Rightarrow> instant" where
  "event_time (Check k t) = t"
| "event_time (Sweep t) = t"

fun limit_step ::
  "(instant \<Rightarrow> 'k \<Rightarrow> 's \<Rightarrow> bool \<times> 's) \<Rightarrow> (instant \<Rightarrow> 's \<Rightarrow> 's) \<Rightarrow> 's \<Rightarrow> 'k limit_event \<Rightarrow> 's" where
  "limit_step admit forget s (Check k t) = snd (admit t k s)"
| "limit_step admit forget s (Sweep t) = forget t s"

text \<open>The answers that one address gets in a run.\<close>

fun limit_answers ::
  "(instant \<Rightarrow> 'k \<Rightarrow> 's \<Rightarrow> bool \<times> 's) \<Rightarrow> (instant \<Rightarrow> 's \<Rightarrow> 's) \<Rightarrow> 'k \<Rightarrow> 's \<Rightarrow> 'k limit_event list
     \<Rightarrow> bool list" where
  "limit_answers admit forget k s [] = []"
| "limit_answers admit forget k s (ev # evs) =
     (case ev of
        Check k' t \<Rightarrow> if k' = k then [fst (admit t k s)] else []
      | Sweep t \<Rightarrow> [])
     @ limit_answers admit forget k (limit_step admit forget s ev) evs"

definition admitted :: "bool list \<Rightarrow> nat" where
  "admitted bs = length (filter id bs)"

lemma admitted_simps [simp]:
  "admitted [] = 0"
  "admitted (b # bs) = (if b then Suc (admitted bs) else admitted bs)"
  "admitted (bs @ cs) = admitted bs + admitted cs"
  by (simp_all add: admitted_def)

abbreviation rate_answers :: "u32 \<Rightarrow> ip_addr \<Rightarrow> rate_limiter \<Rightarrow> ip_addr limit_event list \<Rightarrow> bool list" where
  "rate_answers mx \<equiv> limit_answers (rate_check mx) rate_cleanup"

abbreviation rate_step :: "u32 \<Rightarrow> rate_limiter \<Rightarrow> ip_addr limit_event \<Rightarrow> rate_limiter" where
  "rate_step mx \<equiv> limit_step (rate_check mx) rate_cleanup"

section \<open>The contract of a fixed-window limiter\<close>

text \<open>
  \<open>window\<close> gives the start of the current window of an address and the number of requests
  admitted in it. The laws say how a request and a sweep act on the window of one address; the
  sliding-window bound is proved from them.
\<close>

locale window_limiter =
  fixes admit :: "instant \<Rightarrow> 'k \<Rightarrow> 's \<Rightarrow> bool \<times> 's"
    and forget :: "instant \<Rightarrow> 's \<Rightarrow> 's"
    and limit :: nat
    and width :: duration
    and window :: "'s \<Rightarrow> 'k \<Rightarrow> (instant \<times> nat) option"
  assumes width_pos: "0 < width"
    and admit_other: "k' \<noteq> k \<Longrightarrow> window (snd (admit t k s)) k' = window s k'"
    and admit_inside: "0 < limit \<Longrightarrow> window s k = Some (r, n) \<Longrightarrow> t - r < width \<Longrightarrow>
          fst (admit t k s) = (n < limit) \<and>
          window (snd (admit t k s)) k = Some (r, if n < limit then Suc n else n)"
    and admit_fresh: "0 < limit \<Longrightarrow> window s k = None \<Longrightarrow>
          fst (admit t k s) \<and> window (snd (admit t k s)) k = Some (t, 1)"
    and admit_expired: "0 < limit \<Longrightarrow> window s k = Some (r, n) \<Longrightarrow> width \<le> t - r \<Longrightarrow>
          fst (admit t k s) \<and> window (snd (admit t k s)) k = Some (t, 1)"
    and forget_live: "window s k = Some (r, n) \<Longrightarrow> t - r < width \<Longrightarrow>
          window (forget t s) k = Some (r, n)"
    and forget_any: "window (forget t s) k = window s k \<or> window (forget t s) k = None"
begin

text \<open>A run whose instants all lie before the end of the window admits what the window has left.\<close>

lemma answers_inside:
  assumes "0 < limit" and "window s k = Some (r, n)" and "n \<le> limit"
    and "\<forall>ev \<in> set evs. event_time ev < r + width"
  shows "admitted (limit_answers admit forget k s evs) \<le> limit - n"
  using assms
proof (induction evs arbitrary: s n)
  case Nil
  then show ?case by simp
next
  case (Cons ev evs)
  show ?case
  proof (cases ev)
    case (Check k' t)
    have t: "t - r < width" using Cons.prems(4) Check width_pos by auto
    show ?thesis
    proof (cases "k' = k")
      case True
      from admit_inside [OF Cons.prems(1,2) t] Cons.prems Check True
        Cons.IH [of "snd (admit t k s)" "if n < limit then Suc n else n"]
      show ?thesis by (auto split: if_splits)
    next
      case False
      with admit_other [of k k' t s] Cons Check show ?thesis by auto
    qed
  next
    case (Sweep t)
    have "t - r < width" using Cons.prems(4) Sweep width_pos by auto
    with forget_live Cons Sweep show ?thesis by auto
  qed
qed

lemma answers_after_reset:
  assumes "0 < limit" and "window s k = Some (t, 1)" and "a \<le> t"
    and "\<forall>ev \<in> set evs. event_time ev < a + width"
  shows "Suc (admitted (limit_answers admit forget k s evs)) \<le> limit"
proof -
  have "\<forall>ev \<in> set evs. event_time ev < t + width" using assms(3,4) by fastforce
  from answers_inside [OF assms(1,2) _ this] assms(1) show ?thesis by linarith
qed

text \<open>In any span as long as a window: what the current window has left, and one window more.\<close>

lemma answers_in_span:
  assumes "0 < limit" and "\<forall>r n. window s k = Some (r, n) \<longrightarrow> n \<le> limit"
    and "\<forall>ev \<in> set evs. a \<le> event_time ev \<and> event_time ev < a + width"
  shows "admitted (limit_answers admit forget k s evs)
      \<le> (case window s k of Some (r, n) \<Rightarrow> limit - n | None \<Rightarrow> 0) + limit"
  using assms
proof (induction evs arbitrary: s)
  case Nil
  then show ?case by simp
next
  case (Cons ev evs)
  have span: "\<forall>ev \<in> set evs. event_time ev < a + width" using Cons.prems(3) by auto
  show ?case
  proof (cases ev)
    case (Sweep t)
    with Cons.IH [of "forget t s"] Cons.prems forget_any [of t s k] show ?thesis
      by (auto split: option.splits)
  next
    case (Check k' t)
    have t: "a \<le> t" using Cons.prems(3) Check by auto
    consider (other) "k' \<noteq> k" | (reset) "k' = k" "fst (admit t k s)" "window (snd (admit t k s)) k = Some (t, 1)"
      | (inside) r n where "k' = k" "window s k = Some (r, n)" "t - r < width"
      using admit_fresh admit_expired Cons.prems(1)
      by (metis not_less old.prod.exhaust option.exhaust)
    then show ?thesis
    proof cases
      case other
      with admit_other [of k k' t s] Cons.IH [of "snd (admit t k' s)"] Cons.prems Check
      show ?thesis by auto
    next
      case reset
      with answers_after_reset [OF Cons.prems(1) reset(3) t span] Check show ?thesis by simp
    next
      case inside
      with admit_inside [OF Cons.prems(1) inside(2,3)] Cons.prems Check
        Cons.IH [of "snd (admit t k s)"]
      show ?thesis by (auto split: if_splits)
    qed
  qed
qed

end

lemma from_secs_1: "from_secs 1 = nanos_per_sec"
  by (simp add: from_secs_def)

definition rate_window :: "rate_limiter \<Rightarrow> ip_addr \<Rightarrow> (instant \<times> nat) option" where
  "rate_window m ip = map_option (\<lambda>st. (last_reset st, unat (count st))) (m ip)"

lemma rate_window_simps [simp]:
  "rate_window (m(ip \<mapsto> st)) ip' =
     (if ip' = ip then Some (last_reset st, unat (count st)) else rate_window m ip')"
  by (simp add: rate_window_def)

lemma rate_window_Some:
  "rate_window m ip = Some (r, n) \<longleftrightarrow> (\<exists>c. m ip = Some \<lparr>count = c, last_reset = r\<rparr> \<and> n = unat c)"
proof
  assume "rate_window m ip = Some (r, n)"
  then obtain st where "m ip = Some st" "r = last_reset st" "n = unat (count st)"
    by (auto simp: rate_window_def)
  then show "\<exists>c. m ip = Some \<lparr>count = c, last_reset = r\<rparr> \<and> n = unat c"
    by (intro exI [of _ "count st"]) simp
qed (auto simp: rate_window_def)

lemma rate_window_None: "rate_window m ip = None \<longleftrightarrow> m ip = None"
  by (simp add: rate_window_def)

interpretation rates: window_limiter "rate_check mx" rate_cleanup "unat mx" "from_secs 1" rate_window
  for mx
proof
  fix t r n and k k' :: ip_addr and s
  show "0 < from_secs 1" by simp
  show "k' \<noteq> k \<Longrightarrow> rate_window (snd (rate_check mx t k s)) k' = rate_window s k'"
    by (simp add: rate_check_def Let_def)
  show "0 < unat mx \<Longrightarrow> rate_window s k = Some (r, n) \<Longrightarrow> t - r < from_secs 1 \<Longrightarrow>
      fst (rate_check mx t k s) = (n < unat mx) \<and>
      rate_window (snd (rate_check mx t k s)) k = Some (r, if n < unat mx then Suc n else n)"
    by (auto simp: rate_check_def rate_window_Some duration_since_def word_less_nat_alt
        unat_Suc_less)
  show "0 < unat mx \<Longrightarrow> rate_window s k = None \<Longrightarrow>
      fst (rate_check mx t k s) \<and> rate_window (snd (rate_check mx t k s)) k = Some (t, 1)"
    by (auto simp: rate_check_def rate_window_None duration_since_def word_less_nat_alt)
  show "0 < unat mx \<Longrightarrow> rate_window s k = Some (r, n) \<Longrightarrow> from_secs 1 \<le> t - r \<Longrightarrow>
      fst (rate_check mx t k s) \<and> rate_window (snd (rate_check mx t k s)) k = Some (t, 1)"
    by (auto simp: rate_check_def rate_window_Some duration_since_def)
  show "rate_window s k = Some (r, n) \<Longrightarrow> t - r < from_secs 1 \<Longrightarrow>
      rate_window (rate_cleanup t s) k = Some (r, n)"
    by (auto simp: rate_cleanup_def rate_window_Some duration_since_def from_secs_def
        nanos_per_sec_def)
  show "rate_window (rate_cleanup t s) k = rate_window s k \<or> rate_window (rate_cleanup t s) k = None"
    by (auto simp: rate_cleanup_def rate_window_def split: option.splits)
qed

section \<open>Invariant\<close>

text \<open>No window holds more requests than the limit, so the 32-bit count never wraps.\<close>

definition rate_inv :: "u32 \<Rightarrow> rate_limiter \<Rightarrow> bool" where
  "rate_inv mx m \<longleftrightarrow> (\<forall>ip st. m ip = Some st \<longrightarrow> count st \<le> mx)"

lemma rate_invD: "rate_inv mx m \<Longrightarrow> m ip = Some st \<Longrightarrow> unat (count st) \<le> unat mx"
  by (simp add: rate_inv_def word_le_nat_alt)

lemma rate_inv_window: "rate_inv mx m \<Longrightarrow> rate_window m ip = Some (r, n) \<Longrightarrow> n \<le> unat mx"
  by (auto simp: rate_window_def dest: rate_invD)

lemma rate_inv_new [simp]: "rate_inv mx rate_new"
  by (simp add: rate_inv_def rate_new_def)

lemma rate_inv_cleanup [intro]: "rate_inv mx m \<Longrightarrow> rate_inv mx (rate_cleanup now m)"
  by (auto simp: rate_inv_def rate_cleanup_def split: option.splits if_splits)

lemma rate_inv_check [intro]: "rate_inv mx m \<Longrightarrow> rate_inv mx (snd (rate_check mx now ip m))"
  unfolding rate_inv_def rate_check_def Let_def
  by (auto simp: word_le_nat_alt word_less_nat_alt unat_Suc_less unat_gt_0 Suc_le_eq
      split: if_splits option.splits) fastforce?

lemma rate_inv_step: "rate_inv mx m \<Longrightarrow> rate_inv mx (rate_step mx m ev)"
  by (cases ev) auto

lemma rate_inv_run: "rate_inv mx m \<Longrightarrow> rate_inv mx (fold (\<lambda>ev m. rate_step mx m ev) evs m)"
  by (induction evs arbitrary: m) (auto intro: rate_inv_step)

section \<open>The sweep cannot be observed\<close>

fun is_check :: "'k limit_event \<Rightarrow> bool" where
  "is_check (Check k t) = True"
| "is_check (Sweep t) = False"

text \<open>
  The swept table lacks some entries whose window ended long before \<open>c\<close>.
\<close>

definition swept :: "instant \<Rightarrow> rate_limiter \<Rightarrow> rate_limiter \<Rightarrow> bool" where
  "swept c m m' \<longleftrightarrow>
     (\<forall>ip. m' ip = m ip \<or>
           (m' ip = None \<and> (\<exists>st. m ip = Some st \<and> last_reset st + from_secs 10 \<le> c)))"

lemma swept_refl [simp]: "swept c m m"
  by (simp add: swept_def)

lemma swept_mono: "swept c m m' \<Longrightarrow> c \<le> c' \<Longrightarrow> swept c' m m'"
  unfolding swept_def by (meson order_trans)

lemma swept_cleanup: "swept c m m' \<Longrightarrow> c \<le> t \<Longrightarrow> swept t m (rate_cleanup t m')"
  unfolding swept_def
proof
  fix ip
  assume sw: "\<forall>ip. m' ip = m ip \<or>
      (m' ip = None \<and> (\<exists>st. m ip = Some st \<and> last_reset st + from_secs 10 \<le> c))" and "c \<le> t"
  show "rate_cleanup t m' ip = m ip \<or>
      (rate_cleanup t m' ip = None \<and> (\<exists>st. m ip = Some st \<and> last_reset st + from_secs 10 \<le> t))"
    using spec [OF sw, of ip] \<open>c \<le> t\<close>
    by (cases "m ip"; cases "m' ip") (auto simp: rate_cleanup_def duration_since_def from_secs_def nanos_per_sec_def split: if_splits)
qed

lemma long_ago: "r + from_secs 10 \<le> c \<Longrightarrow> c \<le> t \<Longrightarrow> from_secs 1 \<le> t - r"
  by (simp add: from_secs_def)

lemma swept_check:
  assumes "swept c m m'" and "c \<le> t"
  shows "fst (rate_check mx t ip m') = fst (rate_check mx t ip m)"
    and "swept t (snd (rate_check mx t ip m)) (snd (rate_check mx t ip m'))"
proof -
  consider (same) "m' ip = m ip" | (gone) st where "m' ip = None" "m ip = Some st"
    "from_secs 1 \<le> duration_since t (last_reset st)"
    using assms long_ago unfolding swept_def duration_since_def by metis
  then have *: "fst (rate_check mx t ip m') = fst (rate_check mx t ip m) \<and>
      (mx \<noteq> 0 \<longrightarrow> snd (rate_check mx t ip m') ip = snd (rate_check mx t ip m) ip)"
    by cases (auto simp: rate_check_def Let_def duration_since_def word_less_nat_alt
        unat_gt_0 Let_def)
  then show "fst (rate_check mx t ip m') = fst (rate_check mx t ip m)" by simp
  have other: "ip' \<noteq> ip \<Longrightarrow> snd (rate_check mx t ip n) ip' = n ip'" for ip' n
    by (simp add: rate_check_def Let_def)
  have "swept t m m'" using assms by (rule swept_mono)
  with * other show "swept t (snd (rate_check mx t ip m)) (snd (rate_check mx t ip m'))"
    unfolding swept_def by (cases "mx = 0") (simp add: rate_check_def, metis)
qed

lemma answers_swept:
  assumes "swept c m m'" and "sorted (c # map event_time evs)"
  shows "rate_answers mx ip m' evs = rate_answers mx ip m (filter is_check evs)"
  using assms
proof (induction evs arbitrary: c m m')
  case Nil
  then show ?case by simp
next
  case (Cons ev evs)
  show ?case
  proof (cases ev)
    case (Check ip' t)
    with Cons.prems have c: "c \<le> t" "sorted (t # map event_time evs)" by auto
    from swept_check [OF Cons.prems(1) c(1)] Cons.IH [OF _ c(2)] Check show ?thesis by simp
  next
    case (Sweep t)
    with Cons.prems have c: "c \<le> t" "sorted (t # map event_time evs)" by auto
    from swept_cleanup [OF Cons.prems(1) c(1)] Cons.IH [OF _ c(2)] Sweep show ?thesis by simp
  qed
qed

section \<open>Properties\<close>

text \<open>
  C23: at most twice \<open>max_rps\<close> requests of an address are admitted in any span of one
  second, whatever the other addresses and the background task do and in whatever order the
  readings of the clock reach the table.
\<close>

theorem rate_sliding_window:
  assumes "mx \<noteq> 0" and "rate_inv mx m"
    and "\<forall>ev \<in> set evs. a \<le> event_time ev \<and> event_time ev < a + from_secs 1"
  shows "admitted (rate_answers mx ip m evs) \<le> 2 * unat mx"
proof -
  have "admitted (rate_answers mx ip m evs)
      \<le> (case rate_window m ip of Some (r, n) \<Rightarrow> unat mx - n | None \<Rightarrow> 0) + unat mx"
    using assms rate_inv_window by (intro rates.answers_in_span) (auto simp: unat_gt_0)
  also have "\<dots> \<le> 2 * unat mx" by (auto split: option.splits)
  finally show ?thesis .
qed

definition burst_demo :: "ip_addr limit_event list" where
  "burst_demo = [Check (V4 10 0 0 1) 950000000, Check (V4 10 0 0 2) 960000000,
     Sweep 970000000, Check (V4 10 0 0 1) 1000000000, Check (V4 10 0 0 1) 1400000000,
     Check (V4 10 0 0 1) 1500000000]"

theorem rate_sliding_window_witness:
  "admitted (rate_answers 2 (V4 10 0 0 1)
      [V4 10 0 0 1 \<mapsto> \<lparr>count = 1, last_reset = 0\<rparr>] burst_demo) \<le> 2 * unat (2 :: u32)"
  by (rule rate_sliding_window [where a = 900000000])
    (simp_all add: rate_inv_def burst_demo_def from_secs_def nanos_per_sec_def)

text \<open>
  The bound of two windows is reached: with a limit of two, four requests of one address
  within 0.2 seconds are all admitted when they straddle the end of the window.
\<close>

theorem rate_double_burst:
  "rate_answers 2 (V4 10 0 0 1) rate_new
     [Check (V4 10 0 0 1) 0, Check (V4 10 0 0 1) 900000000,
      Check (V4 10 0 0 1) 1000000000, Check (V4 10 0 0 1) 1100000000] = [True, True, True, True]"
  by (simp add: rate_check_def rate_new_def duration_since_def from_secs_def nanos_per_sec_def)

text \<open>
  The counts of the limiter stay within \<open>max_rps\<close> over every run of checks and sweeps
  from the empty table, in any order of the clock readings.
\<close>

theorem rate_counts_bounded:
  assumes "fold (\<lambda>ev m. rate_step mx m ev) evs rate_new ip = Some st"
  shows "unat (count st) \<le> unat mx"
  using assms rate_inv_run [OF rate_inv_new, of mx evs]
  by (auto simp: rate_inv_def word_le_nat_alt)

theorem rate_counts_bounded_witness: "unat (2 :: u32) \<le> unat (2 :: u32)"
  using rate_counts_bounded [of 2 burst_demo "V4 10 0 0 1" "\<lparr>count = 2, last_reset = 1000000000\<rparr>"]
  by simp

text \<open>
  C24: the background sweep cannot be observed when the tasks take the table in the order of their
  clock readings: over any run in clock order, every address gets the answers it would get if the
  sweeps did not happen. Without that order it can be (\<open>rate_sweep_late_reading\<close>).
\<close>

theorem rate_sweep_unobservable:
  assumes "sorted (map event_time evs)"
  shows "rate_answers mx ip m evs = rate_answers mx ip m (filter is_check evs)"
  by (rule answers_swept [where c = 0]) (use assms in auto)

theorem rate_sweep_unobservable_witness:
  "rate_answers 1 (V4 10 0 0 1) rate_new
      [Check (V4 10 0 0 1) 0, Sweep 10000000000, Check (V4 10 0 0 1) 10000000001]
   = rate_answers 1 (V4 10 0 0 1) rate_new [Check (V4 10 0 0 1) 0, Check (V4 10 0 0 1) 10000000001]"
  using rate_sweep_unobservable
    [of "[Check (V4 10 0 0 1) 0, Sweep 10000000000, Check (V4 10 0 0 1) 10000000001]" 1
        "V4 10 0 0 1" rate_new] by simp

text \<open>
  A task that read the clock before a sweep and reaches the table after it finds its entry gone and
  is admitted a second time.
\<close>

theorem rate_sweep_late_reading:
  "rate_answers 1 (V4 10 0 0 1) rate_new
      [Check (V4 10 0 0 1) 0, Sweep 10000000000, Check (V4 10 0 0 1) 500000000] = [True, True] \<and>
   rate_answers 1 (V4 10 0 0 1) rate_new [Check (V4 10 0 0 1) 0, Check (V4 10 0 0 1) 500000000] = [True, False]"
  by (simp add: rate_new_def rate_check_def rate_cleanup_def duration_since_def from_secs_def nanos_per_sec_def)

end
