(* ===== verification/Health.thy ===== *)
theory Health
  imports Config
begin

text \<open>
  The health table (\<open>src/health.rs\<close>): the last known status of every upstream, the list of
  upstreams that the background task collects from the configuration, a probe, and its probe rounds. The
  outcome of a connection attempt is a parameter.
\<close>

type_synonym health_statuses = "ustr \<rightharpoonup> bool"

definition health_new :: health_statuses where
  "health_new = Map.empty"

definition is_healthy :: "health_statuses \<Rightarrow> ustr \<Rightarrow> bool" where
  "is_healthy st addr = (case st addr of Some b \<Rightarrow> b | None \<Rightarrow> True)"

text \<open>What \<open>timeout(2s, TcpStream::connect(addr))\<close> can give.\<close>

datatype connect_outcome = Connected | ConnectError | Elapsed

definition probe_upstream :: "(ustr \<Rightarrow> connect_outcome) \<Rightarrow> ustr \<Rightarrow> bool" where
  "probe_upstream connect addr =
     (case connect addr of Connected \<Rightarrow> True | ConnectError \<Rightarrow> False | Elapsed \<Rightarrow> False)"

text \<open>The three nested loops of the checker, each address pushed unless it is there already.\<close>

definition push_new :: "ustr list \<Rightarrow> ustr \<Rightarrow> ustr list" where
  "push_new ups addr = (if addr \<in> set ups then ups else ups @ [addr])"

definition collect_upstreams :: "vhosts \<Rightarrow> ustr list" where
  "collect_upstreams vs =
     foldl (\<lambda>ups (_, vhost).
       foldl (\<lambda>ups (_, addrs). foldl push_new ups addrs) ups (routers vhost)) [] vs"

datatype transition = NowHealthy ustr | NowUnhealthy ustr

text \<open>One probe: the new status is stored, a change reported.\<close>

definition probe_one ::
  "(ustr \<Rightarrow> connect_outcome) \<Rightarrow> ustr \<Rightarrow> health_statuses \<Rightarrow> transition list \<times> health_statuses" where
  "probe_one connect addr st =
     (let healthy = probe_upstream connect addr;
          old_status = st addr
      in (if Some healthy \<noteq> old_status
          then [if healthy then NowHealthy addr else NowUnhealthy addr] else [], st(addr \<mapsto> healthy)))"

text \<open>One tick: every upstream is probed in turn.\<close>

fun health_round ::
  "(ustr \<Rightarrow> connect_outcome) \<Rightarrow> ustr list \<Rightarrow> health_statuses \<Rightarrow> transition list \<times> health_statuses" where
  "health_round connect [] st = ([], st)"
| "health_round connect (addr # addrs) st =
     (case probe_one connect addr st of (reported, st1) \<Rightarrow>
        (case health_round connect addrs st1 of (rest, st2) \<Rightarrow> (reported @ rest, st2)))"

section \<open>Facts\<close>

lemma push_new_facts:
  "set (push_new ups a) = insert a (set ups)"
  "distinct ups \<Longrightarrow> distinct (push_new ups a)"
  by (auto simp: push_new_def)

lemma push_all_facts:
  "set (foldl push_new ups as) = set ups \<union> set as"
  "distinct ups \<Longrightarrow> distinct (foldl push_new ups as)"
  by (induction as arbitrary: ups) (auto simp: push_new_facts)

lemma push_routes_facts:
  "set (foldl (\<lambda>ups (_, addrs). foldl push_new ups addrs) ups rs) = set ups \<union> (\<Union>r \<in> set rs. set (snd r))"
  "distinct ups \<Longrightarrow> distinct (foldl (\<lambda>ups (_, addrs). foldl push_new ups addrs) ups rs)"
  by (induction rs arbitrary: ups) (auto simp: push_all_facts)

lemma push_vhosts_facts:
  "set (foldl (\<lambda>ups (_, vhost).
       foldl (\<lambda>ups (_, addrs). foldl push_new ups addrs) ups (routers vhost)) ups vs)
     = set ups \<union> (\<Union>v \<in> set vs. \<Union>r \<in> set (routers (snd v)). set (snd r))"
  "distinct ups \<Longrightarrow> distinct (foldl (\<lambda>ups (_, vhost).
       foldl (\<lambda>ups (_, addrs). foldl push_new ups addrs) ups (routers vhost)) ups vs)"
  by (induction vs arbitrary: ups) (force simp: push_routes_facts split_beta)+

lemma health_round_table:
  "snd (health_round connect addrs st) =
     (\<lambda>a. if a \<in> set addrs then Some (probe_upstream connect a) else st a)"
  by (induction addrs arbitrary: st) (auto simp: probe_one_def Let_def split_beta)

lemma health_round_reports:
  assumes "distinct addrs"
  shows "fst (health_round connect addrs st) =
     map (\<lambda>a. if probe_upstream connect a then NowHealthy a else NowUnhealthy a)
         (filter (\<lambda>a. st a \<noteq> Some (probe_upstream connect a)) addrs)"
  using assms
proof (induction addrs arbitrary: st)
  case (Cons a addrs)
  have "filter (\<lambda>x. (st(a \<mapsto> probe_upstream connect a)) x \<noteq> Some (probe_upstream connect x)) addrs
      = filter (\<lambda>x. st x \<noteq> Some (probe_upstream connect x)) addrs"
    using Cons.prems by (intro filter_cong) auto
  with Cons show ?case by (simp add: probe_one_def Let_def split_beta)
qed simp

section \<open>Properties\<close>

text \<open>
  The checker probes every configured upstream exactly once per round and nothing else: the
  collected list is free of duplicates and holds the addresses of all routes of all hosts.
\<close>

theorem collect_upstreams_exact:
  "distinct (collect_upstreams vs) \<and>
   set (collect_upstreams vs) = {a. \<exists>(d, vh) \<in> set vs. \<exists>(p, addrs) \<in> set (routers vh). a \<in> set addrs}"
  unfolding collect_upstreams_def
  using push_vhosts_facts(1) [of "[]" vs] push_vhosts_facts(2) [of "[]" vs]
  by (fastforce simp: split_beta)

text \<open>
  C40: after a round an upstream of the configuration is healthy exactly if its probe connected in
  that round, every other address keeps its status (healthy by default), and a status change is
  reported exactly for the upstreams whose recorded status differs from the probe.
\<close>

theorem health_round_exact:
  "(\<forall>a. is_healthy (snd (health_round connect (collect_upstreams vs) st)) a =
      (if a \<in> set (collect_upstreams vs) then connect a = Connected else is_healthy st a)) \<and>
   fst (health_round connect (collect_upstreams vs) st) =
     map (\<lambda>a. if connect a = Connected then NowHealthy a else NowUnhealthy a)
       (filter (\<lambda>a. st a \<noteq> Some (connect a = Connected)) (collect_upstreams vs))"
proof -
  have p: "probe_upstream connect = (\<lambda>a. connect a = Connected)"
    by (rule ext) (simp add: probe_upstream_def split: connect_outcome.splits)
  have "distinct (collect_upstreams vs)"
    unfolding collect_upstreams_def by (rule push_vhosts_facts(2)) simp
  from health_round_reports [OF this, of connect st] show ?thesis
    by (simp add: is_healthy_def health_round_table p)
qed

end
