(* ===== verification/Routing.thy ===== *)
theory Routing
  imports Health
begin

text \<open>
  Routing (\<open>select_upstream\<close> and the route loop of \<open>https_proxy\<close> in \<open>src/proxy.rs\<close>): the
  first route of the sorted table whose path is a prefix of the request path, and the round-robin
  choice among its healthy upstreams. The counter is a 64-bit atomic that wraps, and so does the
  sum of the counter and the loop variable.
\<close>

section \<open>Operations\<close>

text \<open>The loop from \<open>i\<close> on, with \<open>n\<close> rounds left.\<close>

fun select_from_index ::
  "ustr list \<Rightarrow> usize \<Rightarrow> health_statuses \<Rightarrow> usize \<Rightarrow> nat \<Rightarrow> ustr option" where
  "select_from_index upstreams start_idx st i 0 = None"
| "select_from_index upstreams start_idx st i (Suc n) =
     (let idx = unat ((start_idx + i) mod of_nat (length upstreams));
          addr = upstreams ! idx
      in if is_healthy st addr then Some addr
         else select_from_index upstreams start_idx st (i + 1) n)"

definition select_upstream :: "ustr list \<Rightarrow> usize \<Rightarrow> health_statuses \<Rightarrow> ustr option \<times> usize" where
  "select_upstream upstreams counter st =
     (select_from_index upstreams counter st 0 (length upstreams), counter + 1)"

fun find_route :: "(ustr \<rightharpoonup> usize) \<Rightarrow> ustr \<Rightarrow> route list \<Rightarrow> (ustr \<times> ustr list \<times> usize) option" where
  "find_route state path [] = None"
| "find_route state path ((route_path, upstreams) # rs) =
     (if prefix route_path path then
        (case state route_path of
           Some counter \<Rightarrow> Some (route_path, upstreams, counter)
         | None \<Rightarrow> find_route state path rs)
      else find_route state path rs)"

section \<open>Longest prefix\<close>

text \<open>The specification: the longest configured path that is a prefix of the request path.\<close>

definition longest_route :: "route list \<Rightarrow> ustr \<Rightarrow> route \<Rightarrow> bool" where
  "longest_route rs path r \<longleftrightarrow>
     r \<in> set rs \<and> prefix (fst r) path \<and>
     (\<forall>r' \<in> set rs. prefix (fst r') path \<longrightarrow> str_len (fst r') \<le> str_len (fst r))"

lemma prefix_str_len: "prefix a s \<Longrightarrow> prefix b s \<Longrightarrow> str_len a = str_len b \<Longrightarrow> a = b"
proof -
  have le: "prefix a b \<Longrightarrow> str_len a = str_len b \<Longrightarrow> a = b" for a b
    using length_le_str_len by (auto simp: prefix_def str_len_def as_bytes_def)
  assume "prefix a s" "prefix b s" "str_len a = str_len b"
  moreover from this have "prefix a b \<or> prefix b a" by (blast dest: prefix_same_cases)
  ultimately show ?thesis using le [of a b] le [of b a] by auto
qed

lemma longest_route_unique:
  assumes "distinct (map fst rs)" and "longest_route rs path r" and "longest_route rs path r'"
  shows "r = r'"
proof -
  have "fst r = fst r'"
    using assms(2,3) by (intro prefix_str_len [of _ path]) (auto simp: longest_route_def intro: order.antisym)
  with assms show ?thesis
    by (auto simp: longest_route_def distinct_map inj_on_def)
qed

lemma find_route_longest:
  assumes "sorted_wrt (\<lambda>r s. str_len (fst s) \<le> str_len (fst r)) rs" and "fst ` set rs \<subseteq> dom state"
  shows "case find_route state path rs of
     None \<Rightarrow> (\<forall>r \<in> set rs. \<not> prefix (fst r) path)
   | Some (p, ups, c) \<Rightarrow> longest_route rs path (p, ups) \<and> state p = Some c"
  using assms
proof (induction rs)
  case (Cons r rs)
  obtain p ups where r: "r = (p, ups)" by fastforce
  show ?case
  proof (cases "prefix p path")
    case True
    with Cons.prems r show ?thesis by (auto simp: longest_route_def)
  next
    case False
    with Cons r show ?thesis by (auto simp: longest_route_def split: option.splits)
  qed
qed simp

lemma find_route_iff:
  assumes "vhost_wf vh"
  shows "find_route (routers_state vh) path (routers vh) = Some (p, ups, c) \<longleftrightarrow>
     longest_route (routers vh) path (p, ups) \<and> routers_state vh p = Some c"
proof -
  have d: "distinct (map fst (routers vh))" using assms by (simp add: vhost_wf_def)
  have f: "case find_route (routers_state vh) path (routers vh) of
     None \<Rightarrow> (\<forall>r \<in> set (routers vh). \<not> prefix (fst r) path)
   | Some (p, ups, c) \<Rightarrow> longest_route (routers vh) path (p, ups) \<and> routers_state vh p = Some c"
    using assms by (intro find_route_longest) (auto simp: vhost_wf_def)
  show ?thesis
  proof (cases "find_route (routers_state vh) path (routers vh)")
    case None
    with f show ?thesis by (auto simp: longest_route_def)
  next
    case (Some x)
    obtain p' ups' c' where x: "x = (p', ups', c')" by (cases x)
    with f Some have "longest_route (routers vh) path (p', ups')" "routers_state vh p' = Some c'" by auto
    with Some x longest_route_unique [OF d, of path "(p, ups)" "(p', ups')"] show ?thesis by auto
  qed
qed

section \<open>Round robin\<close>

text \<open>Without a wrap the loop looks at the upstreams in cyclic order.\<close>

lemma cyclic_index:
  assumes "0 < length ups" and "unat start + k < 2 ^ 64"
  shows "unat ((start + of_nat k :: usize) mod of_nat (length ups)) = (unat start + k) mod length ups \<or>
     2 ^ 64 \<le> length ups"
proof (cases "length ups < 2 ^ 64")
  case True
  have "unat (of_nat k :: usize) = k" using assms(2) by (simp add: unat_of_nat take_bit_nat_eq_self)
  then have "unat (start + of_nat k :: usize) = unat start + k"
    using assms(2) by (simp add: unat_word_ariths)
  moreover have "unat (of_nat (length ups) :: usize) = length ups"
    using True by (simp add: unat_of_nat take_bit_nat_eq_self)
  ultimately show ?thesis by (simp add: unat_mod)
qed simp

lemma select_from_index_find:
  assumes "0 < length ups" and "unat start + length ups \<le> 2 ^ 64" and "k + n \<le> length ups"
    and "length ups < 2 ^ 64"
  shows "select_from_index ups start st (of_nat k) n =
     find (is_healthy st) (map (\<lambda>j. ups ! ((unat start + j) mod length ups)) [k..<k + n])"
  using assms(3)
proof (induction n arbitrary: k)
  case (Suc n)
  have "unat start + k < 2 ^ 64" using Suc.prems assms(2) by linarith
  then have idx: "unat ((start + of_nat k :: usize) mod of_nat (length ups)) = (unat start + k) mod length ups"
    using cyclic_index [OF assms(1)] assms(4) by fastforce
  have "(of_nat k :: usize) + 1 = of_nat (Suc k)" by simp
  moreover have "[k..<k + Suc n] = k # [Suc k..<Suc k + n]" by (simp add: upt_rec)
  ultimately show ?case using Suc.IH [of "Suc k"] Suc.prems by (simp add: Let_def idx add.commute)
qed simp

lemma rotate_as_map: "map (\<lambda>j. xs ! ((n + j) mod length xs)) [0..<length xs] = rotate n xs"
  by (rule nth_equalityI) (simp_all add: nth_rotate add.commute)

lemma select_upstream_rotate:
  assumes "unat counter + length ups \<le> 2 ^ 64" and "length ups < 2 ^ 64"
  shows "select_upstream ups counter st = (find (is_healthy st) (rotate (unat counter) ups), counter + 1)"
  using select_from_index_find [of ups counter 0 "length ups" st] assms
  by (cases "ups = []") (simp_all add: select_upstream_def rotate_as_map)

text \<open>Successive requests on one route.\<close>

fun select_run :: "ustr list \<Rightarrow> health_statuses \<Rightarrow> usize \<Rightarrow> nat \<Rightarrow> ustr option list" where
  "select_run ups st c 0 = []"
| "select_run ups st c (Suc n) =
     (case select_upstream ups c st of (r, c') \<Rightarrow> r # select_run ups st c' n)"

lemma find_all_healthy: "xs \<noteq> [] \<Longrightarrow> \<forall>x \<in> set xs. P x \<Longrightarrow> find P xs = Some (hd xs)"
  by (cases xs) auto

lemma select_run_cyclic:
  assumes "ups \<noteq> []" and "\<forall>a \<in> set ups. is_healthy st a" and "unat c + n + length ups \<le> 2 ^ 64"
  shows "select_run ups st c n = map (\<lambda>j. Some (ups ! ((unat c + j) mod length ups))) [0..<n]"
  using assms(3)
proof (induction n arbitrary: c)
  case (Suc n)
  have c: "unat c + length ups \<le> 2 ^ 64" "length ups < 2 ^ 64"
    using Suc.prems by linarith+
  have "0 < length ups" using assms(1) by simp
  then have "unat c < 2 ^ 64 - 1" using Suc.prems by linarith
  then have s: "unat (c + 1) = Suc (unat c)" by (simp add: unat_word_ariths)
  have "hd (rotate (unat c) ups) = ups ! (unat c mod length ups)"
    using assms(1) by (simp add: hd_rotate_conv_nth)
  moreover have "select_run ups st (c + 1) n = map (\<lambda>j. Some (ups ! ((unat c + Suc j) mod length ups))) [0..<n]"
    using Suc.IH [of "c + 1"] Suc.prems s by simp
  ultimately show ?case
    using assms(1,2) by (simp add: select_upstream_rotate [OF c] find_all_healthy map_upt_Suc del: upt_Suc)
qed simp

lemma mset_rotated: "mset (rotate n xs) = mset xs"
  by (metis append_take_drop_id mset_append union_commute rotate_drop_take)

lemma cyclic_blocks:
  "mset (map (\<lambda>j. ups ! ((c + j) mod length ups)) [0..<n * length ups]) = repeat_mset n (mset ups)"
proof (induction n)
  case (Suc n)
  have "[0..<Suc n * length ups] = [0..<n * length ups] @ map (\<lambda>j. j + n * length ups) [0..<length ups]"
    using upt_add_eq_append [of 0 "n * length ups" "length ups"] map_add_upt [of "n * length ups" "length ups"]
    by (simp add: add.commute)
  moreover have "map (\<lambda>j. ups ! ((c + (j + n * length ups)) mod length ups)) [0..<length ups] = rotate c ups"
    unfolding rotate_as_map [of ups c, symmetric] by (simp add: add.assoc [symmetric])
  ultimately show ?case using Suc by (simp add: comp_def mset_rotated)
qed simp

lemma image_repeat: "image_mset f (repeat_mset n M) = repeat_mset n (image_mset f M)"
  by (induction n) simp_all

section \<open>Properties\<close>

text \<open>
  C26: routing is longest-prefix matching and does not depend on the order in which the hash map of
  the configuration was iterated. For a table as the loader builds it, the loop returns a route
  exactly when it is the longest path that is a prefix of the request path; two tables loaded from
  the same routes in different orders give the same route.
\<close>

theorem routing_longest_prefix:
  assumes "vhost_of_raw rv = vh" and "distinct (map fst (raw_routers rv))"
    and "mset (raw_routers rv') = mset (raw_routers rv)"
  shows "(\<forall>p ups c. find_route (routers_state vh) path (routers vh) = Some (p, ups, c) \<longleftrightarrow>
       longest_route (raw_routers rv) path (p, ups) \<and> c = 0) \<and>
     find_route (routers_state (vhost_of_raw rv')) path (routers (vhost_of_raw rv'))
       = find_route (routers_state vh) path (routers vh)"
proof -
  have fi: "find_route (routers_state (vhost_of_raw rv)) path (routers (vhost_of_raw rv)) = Some (p, ups, c) \<longleftrightarrow>
      longest_route (raw_routers rv) path (p, ups) \<and> c = 0" if "distinct (map fst (raw_routers rv))" for rv p ups c
    unfolding find_route_iff [OF vhost_of_raw_wf [OF that]]
    by (force simp: vhost_of_raw_def longest_route_def)
  have d': "distinct (map fst (raw_routers rv'))"
    using assms(2,3) by (metis mset_map mset_eq_imp_distinct_iff)
  have "longest_route (raw_routers rv') path = longest_route (raw_routers rv) path"
    using mset_eq_setD [OF assms(3)] by (auto simp: longest_route_def fun_eq_iff)
  then have "find_route (routers_state (vhost_of_raw rv')) path (routers (vhost_of_raw rv')) = Some x \<longleftrightarrow>
      find_route (routers_state (vhost_of_raw rv)) path (routers (vhost_of_raw rv)) = Some x" for x
    by (cases x) (simp add: fi [OF d'] fi [OF assms(2)])
  then have "find_route (routers_state (vhost_of_raw rv')) path (routers (vhost_of_raw rv')) =
      find_route (routers_state (vhost_of_raw rv)) path (routers (vhost_of_raw rv))"
    by (metis option.exhaust)
  with fi [OF assms(2)] assms(1) show ?thesis by blast
qed

definition demo_vhost :: raw_vhost where
  "demo_vhost = \<lparr>domain = lit ''d'', raw_cert_path = [], raw_key_path = [],
     raw_routers = [(lit ''/'', [lit ''a'']), (lit ''/api/'', [lit ''b''])]\<rparr>"

definition demo_vhost_swapped :: raw_vhost where
  "demo_vhost_swapped = demo_vhost\<lparr>raw_routers := rev (raw_routers demo_vhost)\<rparr>"

theorem routing_longest_prefix_witness:
  "find_route (routers_state (vhost_of_raw demo_vhost_swapped)) (lit ''/api/x'') (routers (vhost_of_raw demo_vhost_swapped))
     = Some (lit ''/api/'', [lit ''b''], 0)"
proof -
  have "mset (raw_routers demo_vhost_swapped) = mset (raw_routers demo_vhost)"
    "distinct (map fst (raw_routers demo_vhost))"
    by (simp_all add: demo_vhost_swapped_def demo_vhost_def)
  note r = routing_longest_prefix [OF refl this(2,1), of "lit ''/api/x''"]
  have "longest_route (raw_routers demo_vhost) (lit ''/api/x'') (lit ''/api/'', [lit ''b''])"
    by (simp add: longest_route_def demo_vhost_def utf8_char_def)
  with r show ?thesis by metis
qed

text \<open>
  Load balancing picks the first healthy upstream in cyclic order from the counter, and nothing
  only if all are down, as long as the counter is not within one round of its wrap.
\<close>

theorem select_first_healthy:
  assumes "unat counter + length upstreams \<le> 2 ^ 64" and "length upstreams < 2 ^ 64"
  shows "select_upstream upstreams counter st =
       (find (is_healthy st) (rotate (unat counter) upstreams), counter + 1) \<and>
     (fst (select_upstream upstreams counter st) = None \<longleftrightarrow> (\<forall>a \<in> set upstreams. \<not> is_healthy st a))"
  using select_upstream_rotate [OF assms] by (auto simp: find_None_iff)

theorem select_first_healthy_witness:
  "select_upstream [lit ''a'', lit ''b'', lit ''c''] 4 [lit ''b'' \<mapsto> False] = (Some (lit ''c''), 5)"
proof -
  have "find (is_healthy [lit ''b'' \<mapsto> False]) (rotate (unat (4 :: usize)) [lit ''a'', lit ''b'', lit ''c''])
      = Some (lit ''c'')" by code_simp
  moreover have "unat (4 :: usize) + length [lit ''a'', lit ''b'', lit ''c''] \<le> 2 ^ 64"
    "length [lit ''a'', lit ''b'', lit ''c''] < 2 ^ 64" "(4 :: usize) + 1 = 5" by simp_all
  ultimately show ?thesis using select_first_healthy by metis
qed

text \<open>
  C27: round robin is fair as long as nothing is down. While all upstreams of a route are healthy and
  the counter stays below the wrap of \<open>usize\<close>, any number of full rounds of successive requests goes
  to every upstream equally often.
\<close>

theorem round_robin_fair:
  assumes "upstreams \<noteq> []" and "\<forall>a \<in> set upstreams. is_healthy st a"
    and "unat counter + (n + 1) * length upstreams \<le> 2 ^ 64"
  shows "mset (select_run upstreams st counter (n * length upstreams)) = repeat_mset n (mset (map Some upstreams))"
proof -
  have c: "unat counter + n * length upstreams + length upstreams \<le> 2 ^ 64" using assms(3) by simp
  have "mset (select_run upstreams st counter (n * length upstreams)) =
      image_mset Some (mset (map (\<lambda>j. upstreams ! ((unat counter + j) mod length upstreams)) [0..<n * length upstreams]))"
    unfolding select_run_cyclic [OF assms(1,2) c] by (simp add: comp_def flip: mset_map)
  then show ?thesis unfolding cyclic_blocks by (simp add: image_repeat)
qed

theorem round_robin_fair_witness:
  "mset (select_run [lit ''a'', lit ''b''] health_new 7 (3 * length [lit ''a'', lit ''b'']))
     = repeat_mset 3 (mset (map Some [lit ''a'', lit ''b'']))"
  by (rule round_robin_fair) (simp_all add: is_healthy_def health_new_def)

text \<open>
  When an upstream is down its share is not spread: every request that its turn would have been goes
  to the next upstream, which then serves two of three requests.
\<close>

theorem down_upstream_skews:
  "select_run [lit ''a'', lit ''b'', lit ''c''] [lit ''b'' \<mapsto> False] 0 6 =
     map Some [lit ''a'', lit ''c'', lit ''c'', lit ''a'', lit ''c'', lit ''c'']"
  by code_simp

text \<open>
  At the wrap of the counter an upstream is skipped. With three upstreams of which the last
  alone is healthy and the counter at its largest value the sum wraps in the middle of the round,
  the last upstream is never looked at and the request fails although an upstream is up.
\<close>

theorem wrap_skips_an_upstream:
  "fst (select_upstream [lit ''a'', lit ''b'', lit ''c''] (- 1) [lit ''a'' \<mapsto> False, lit ''b'' \<mapsto> False]) = None
   \<and> is_healthy [lit ''a'' \<mapsto> False, lit ''b'' \<mapsto> False] (lit ''c'')"
  by code_simp

end
