(* ===== verification/Pipeline.thy ===== *)
theory Pipeline
  imports Headers Protocol Ban Ratelimit Routing
begin

text \<open>
  The security pipeline and the plain HTTP handler (\<open>verify_request\<close> and \<open>http_proxy\<close> in
  \<open>src/proxy.rs\<close>). The shared tables are the record \<open>proxy_state\<close>; a handler takes the state and
  returns the new one. Every reading of the clock is an argument. A result \<^term>\<open>None\<close> is a panic,
  which ends the process.
\<close>

section \<open>State\<close>

record proxy_state =
  st_bans :: ban_list
  st_rates :: rate_limiter
  st_buckets :: bandwidth_limiter
  st_vhosts :: vhosts
  st_health :: health_statuses

text \<open>The two readings of one call: in the rate limiter, and in a punishment if there is one.\<close>

type_synonym clock = "instant \<times> instant"

section \<open>Verification\<close>

definition allowed_method :: "http_method \<Rightarrow> bool" where
  "allowed_method m \<longleftrightarrow> m \<in> {GET, POST, PUT, DELETE, PATCH, HEAD, OPTIONS}"

definition uri_len :: "uri \<Rightarrow> nat" where
  "uri_len uri = str_len (uri_path uri) + (case uri_query uri of Some q \<Rightarrow> str_len q + 1 | None \<Rightarrow> 0)"

text \<open>Punish the address and answer with an error.\<close>

definition refuse ::
  "'r config \<Rightarrow> ip_addr \<Rightarrow> violation \<Rightarrow> status_code \<Rightarrow> instant \<Rightarrow> proxy_state
     \<Rightarrow> ((reply + unit) \<times> proxy_state) option" where
  "refuse cfg ip v status now st =
     (case punish ip v (bans cfg) now (st_bans st) of
        None \<Rightarrow> None
      | Some m \<Rightarrow> Some (Inl (error_response status), st\<lparr>st_bans := m\<rparr>))"

definition verify_request ::
  "waf_lib \<Rightarrow> 'r config \<Rightarrow> clock \<Rightarrow> request \<Rightarrow> socket_addr \<Rightarrow> proxy_state
     \<Rightarrow> ((reply + unit) \<times> proxy_state) option" where
  "verify_request L cfg now req remote_addr st =
     (let ip = get_real_ip (w_http L) (rq_headers req) remote_addr;
          (admit, rates) = rate_check (max_rps (limits cfg)) (fst now) ip (st_rates st);
          st1 = st\<lparr>st_rates := rates\<rparr>
      in if \<not> admit then refuse cfg ip RateLimit TOO_MANY_REQUESTS (snd now) st1
         else case protocol_checks req of
           Inl e \<Rightarrow> refuse cfg ip Protocol BAD_REQUEST (snd now) st1
         | Inr _ \<Rightarrow>
           if unat (max_header_count (limits cfg)) < hdr_len (rq_headers req)
           then refuse cfg ip Protocol BAD_REQUEST (snd now) st1
           else if unat (max_uri_size (limits cfg)) < uri_len (rq_uri req)
           then refuse cfg ip Protocol URI_TOO_LONG (snd now) st1
           else if \<not> allowed_method (rq_method req)
           then refuse cfg ip Protocol METHOD_NOT_ALLOWED (snd now) st1
           else case waf_header L (rq_uri req) (rq_method req) (rq_headers req) of
             Inl reason \<Rightarrow> refuse cfg ip Waf FORBIDDEN (snd now) st1
           | Inr _ \<Rightarrow> Some (Inr (), st1))"

section \<open>The plain handler\<close>

definition redirect_target :: "http_lib \<Rightarrow> request \<Rightarrow> ustr" where
  "redirect_target H req =
     (let host = (case header_text H (rq_headers req) (lit ''host'') of Some h \<Rightarrow> h | None \<Rightarrow> lit ''localhost'')
      in lit ''https://'' @ host @ target_of (rq_uri req))"

definition redirect_response :: "http_lib \<Rightarrow> request \<Rightarrow> reply" where
  "redirect_response H req =
     (case value_of_str H (redirect_target H req) of
        Some v \<Rightarrow> (\<lparr>rs_status = PERMANENT_REDIRECT, rs_version = HTTP_11,
                    rs_headers = [(lit ''location'', v)]\<rparr>, Empty)
      | None \<Rightarrow> error_response INTERNAL_SERVER_ERROR)"

definition http_proxy ::
  "waf_lib \<Rightarrow> 'r config \<Rightarrow> clock \<Rightarrow> request \<Rightarrow> socket_addr \<Rightarrow> proxy_state
     \<Rightarrow> (reply \<times> proxy_state) option" where
  "http_proxy L cfg now req remote_addr st =
     (case verify_request L cfg now req remote_addr st of
        None \<Rightarrow> None
      | Some (Inl err_res, st') \<Rightarrow> Some (err_res, st')
      | Some (Inr _, st') \<Rightarrow> Some (redirect_response (w_http L) req, st'))"

section \<open>The pipeline as a table\<close>

text \<open>
  The specification: the conditions in order, each with the violation and the status that its
  failure means. The first that fails decides.
\<close>

definition verify_table ::
  "waf_lib \<Rightarrow> 'r config \<Rightarrow> bool \<Rightarrow> request \<Rightarrow> (bool \<times> violation \<times> status_code) list" where
  "verify_table L cfg admit req =
     [(admit, RateLimit, TOO_MANY_REQUESTS),
      (protocol_checks req = Inr (), Protocol, BAD_REQUEST),
      (hdr_len (rq_headers req) \<le> unat (max_header_count (limits cfg)), Protocol, BAD_REQUEST),
      (uri_len (rq_uri req) \<le> unat (max_uri_size (limits cfg)), Protocol, URI_TOO_LONG),
      (allowed_method (rq_method req), Protocol, METHOD_NOT_ALLOWED),
      (waf_header L (rq_uri req) (rq_method req) (rq_headers req) = Inr (), Waf, FORBIDDEN)]"

definition client_of :: "waf_lib \<Rightarrow> request \<Rightarrow> socket_addr \<Rightarrow> ip_addr" where
  "client_of L req remote_addr = get_real_ip (w_http L) (rq_headers req) remote_addr"

definition count_request :: "waf_lib \<Rightarrow> 'r config \<Rightarrow> instant \<Rightarrow> request \<Rightarrow> socket_addr \<Rightarrow> proxy_state \<Rightarrow> bool \<times> rate_limiter" where
  "count_request L cfg t req remote_addr st =
     rate_check (max_rps (limits cfg)) t (client_of L req remote_addr) (st_rates st)"

lemma sum_unit_cases: "(case r of Inl e \<Rightarrow> a | Inr u \<Rightarrow> b) = (if r = Inr () then b else a)"
  by (cases r) auto

lemma verify_request_table:
  "verify_request L cfg now req remote_addr st =
     (let (admit, rates) = count_request L cfg (fst now) req remote_addr st; st1 = st\<lparr>st_rates := rates\<rparr>
      in case find (\<lambda>(ok, _). \<not> ok) (verify_table L cfg admit req) of
           None \<Rightarrow> Some (Inr (), st1)
         | Some (_, v, status) \<Rightarrow> refuse cfg (client_of L req remote_addr) v status (snd now) st1)"
proof -
  obtain admit rates where r: "count_request L cfg (fst now) req remote_addr st = (admit, rates)" by fastforce
  show ?thesis
    using r unfolding verify_request_def count_request_def client_of_def
    by (simp add: Let_def sum_unit_cases verify_table_def not_less [symmetric])
qed

lemma verify_accepts:
  "verify_request L cfg now req remote_addr st = Some (Inr (), st') \<longleftrightarrow>
     list_all fst (verify_table L cfg (fst (count_request L cfg (fst now) req remote_addr st)) req) \<and>
     st' = st\<lparr>st_rates := snd (count_request L cfg (fst now) req remote_addr st)\<rparr>"
proof -
  obtain admit rates where r: "count_request L cfg (fst now) req remote_addr st = (admit, rates)" by fastforce
  have f: "find (\<lambda>(ok, _). \<not> ok) xs = None \<longleftrightarrow> list_all fst xs" for xs :: "(bool \<times> violation \<times> status_code) list"
    by (induction xs) auto
  show ?thesis
  proof (cases "find (\<lambda>(ok, _). \<not> ok) (verify_table L cfg admit req)")
    case None
    moreover from None have "list_all fst (verify_table L cfg admit req)" using f by blast
    ultimately show ?thesis by (auto simp: verify_request_table r Let_def)
  next
    case (Some x)
    then have "\<not> list_all fst (verify_table L cfg admit req)" using f by (metis option.distinct(1))
    with Some show ?thesis
      by (auto simp: verify_request_table r Let_def refuse_def split: option.splits prod.splits)
  qed
qed

lemma verify_refuses:
  assumes "verify_request L cfg now req remote_addr st = Some (Inl r, st')"
  obtains v status m where
    "find (\<lambda>(ok, _). \<not> ok) (verify_table L cfg (fst (count_request L cfg (fst now) req remote_addr st)) req)
       = Some (False, v, status)"
    "r = error_response status"
    "punish (client_of L req remote_addr) v (bans cfg) (snd now) (st_bans st) = Some m"
    "st' = st\<lparr>st_rates := snd (count_request L cfg (fst now) req remote_addr st), st_bans := m\<rparr>"
proof -
  obtain admit rates where r: "count_request L cfg (fst now) req remote_addr st = (admit, rates)" by fastforce
  have no: "find (\<lambda>(ok, _). \<not> ok) xs = Some (ok, x) \<Longrightarrow> \<not> ok" for xs :: "(bool \<times> violation \<times> status_code) list" and ok x
    by (auto simp: find_Some_iff)
  from assms obtain ok v status m where
    "find (\<lambda>(ok, _). \<not> ok) (verify_table L cfg admit req) = Some (ok, v, status)" "r = error_response status"
    "punish (client_of L req remote_addr) v (bans cfg) (snd now) (st_bans st) = Some m"
    "st' = st\<lparr>st_rates := rates, st_bans := m\<rparr>"
    by (auto simp: verify_request_table r Let_def refuse_def split: option.splits)
  moreover from no [OF this(1)] have "ok = False" by simp
  ultimately show ?thesis using that r by simp
qed

section \<open>Properties\<close>

text \<open>
  C7: the pipeline is the table of its conditions. Verification counts the request against its
  client's rate, and then the first condition of the table that fails decides: its violation is
  punished and its status answered; if none fails the request passes. Nothing but the rate table
  and the ban list changes.
\<close>

theorem verify_pipeline_exact:
  "verify_request L cfg now req remote_addr st =
     (let (admit, rates) = rate_check (max_rps (limits cfg)) (fst now) (client_of L req remote_addr) (st_rates st);
          st1 = st\<lparr>st_rates := rates\<rparr>
      in case find (\<lambda>(ok, _). \<not> ok) (verify_table L cfg admit req) of
           None \<Rightarrow> Some (Inr (), st1)
         | Some (_, v, status) \<Rightarrow>
             map_option (\<lambda>m. (Inl (error_response status), st1\<lparr>st_bans := m\<rparr>))
               (punish (client_of L req remote_addr) v (bans cfg) (snd now) (st_bans st1)))"
  unfolding verify_request_table count_request_def
  by (auto simp: Let_def refuse_def split: option.splits prod.splits)

text \<open>
  C37: a refusal bans. If verification answers with an error, the client's address is answered as
  banned at every instant up to the end of that time, through any number of checks of any
  addresses in between, and no other address is affected. The time is at least the shortest of the
  four configured ones.
\<close>

theorem refusal_bans_client:
  assumes "verify_request L cfg now req remote_addr st = Some (Inl r, st')"
    and "\<forall>v. secs \<le> unat (violation_secs (bans cfg) v)" and "0 < secs"
    and "\<forall>(t, ip) \<in> set qs. t \<le> snd now + from_secs secs" and "t' \<le> snd now + from_secs secs"
  shows "fst (ban_check t' (client_of L req remote_addr)
           (fold (\<lambda>(t, ip) m. snd (ban_check t ip m)) qs (st_bans st'))) \<and>
     (\<forall>ip t. ip \<noteq> client_of L req remote_addr \<longrightarrow> fst (ban_check t ip (st_bans st')) = fst (ban_check t ip (st_bans st)))"
proof -
  obtain v status m where
    p: "punish (client_of L req remote_addr) v (bans cfg) (snd now) (st_bans st) = Some m"
    and "st' = st\<lparr>st_rates := snd (count_request L cfg (fst now) req remote_addr st), st_bans := m\<rparr>"
    by (rule verify_refuses [OF assms(1)])
  then have st': "st_bans st' = m" by simp
  have d: "from_secs secs \<le> from_secs (unat (violation_secs (bans cfg) v))" "0 < from_secs secs"
    using assms(2,3) by simp_all
  have "\<forall>(t, ip) \<in> set qs. t \<le> snd now + from_secs (unat (violation_secs (bans cfg) v))"
    using assms(4) order_trans [OF _ add_left_mono [OF d(1)]] by blast
  moreover have "t' \<le> snd now + from_secs (unat (violation_secs (bans cfg) v))"
    using assms(5) d(1) by linarith
  ultimately have times: "\<forall>(t, ip) \<in> set qs. t \<le> snd now + from_secs (unat (violation_secs (bans cfg) v))"
    "t' \<le> snd now + from_secs (unat (violation_secs (bans cfg) v))" .
  have "0 < from_secs (unat (violation_secs (bans cfg) v))" using d by linarith
  from bans.punished_is_banned [OF p this times] bans.punish_other [OF p] st' show ?thesis by simp
qed

definition demo_peer :: socket_addr where
  "demo_peer = (V4 203 0 113 9, 40000)"

definition demo_state :: proxy_state where
  "demo_state = \<lparr>st_bans = ban_new, st_rates = rate_new, st_buckets = limiter_new,
     st_vhosts = cfg_vhosts demo_config, st_health = health_new\<rparr>"

lemma demo_limits [simp]:
  "limits demo_config = raw_limit demo_raw" "bans demo_config = raw_ban demo_raw"
  by (simp_all add: demo_config_def load_eval)

definition demo_now :: clock where
  "demo_now = (1000000000, 1000000000)"

lemma demo_smuggling_refused:
  "\<exists>st'. verify_request waf_ref demo_config demo_now demo_request demo_peer demo_state
     = Some (Inl (error_response BAD_REQUEST), st')"
  by (simp add: verify_request_def Let_def rate_check_def demo_raw_def demo_state_def rate_new_def
      refuse_def punish_def violation_secs_def ban_def instant_add_def from_secs_def nanos_per_sec_def
      duration_since_def demo_now_def demo_smuggling)

lemma demo_secs_60: "\<forall>v. violation_secs (bans demo_config) v = 60"
  by (simp add: violation_secs_def demo_raw_def split: violation.splits)

theorem refusal_bans_client_witness:
  "\<exists>st'. verify_request waf_ref demo_config demo_now demo_request demo_peer demo_state
        = Some (Inl (error_response BAD_REQUEST), st')
    \<and> fst (ban_check 30000000000 (V4 203 0 113 9) (st_bans st'))"
proof -
  obtain st' where v: "verify_request waf_ref demo_config demo_now demo_request demo_peer demo_state
      = Some (Inl (error_response BAD_REQUEST), st')" using demo_smuggling_refused by blast
  have c: "client_of waf_ref demo_request demo_peer = V4 203 0 113 9" by code_simp
  have "fst (ban_check 30000000000 (V4 203 0 113 9) (st_bans st'))"
    using refusal_bans_client [OF v, of 60 "[]" 30000000000] demo_secs_60
    by (simp add: c demo_now_def from_secs_def nanos_per_sec_def)
  with v show ?thesis by blast
qed

text \<open>
  C39: the ban follows the header, not the connection. A client that names another address in
  \<open>CF-Connecting-IP\<close> has its violation punished on that address: the named address is banned, and
  its own address, which the listener checks for the next connection, is as free as before.
\<close>

theorem spoofed_header_bans_victim:
  assumes "http_values (w_http L)" and "hdr_get (rq_headers req) (lit ''cf-connecting-ip'') = Some v"
    and "\<forall>b \<in> set v. visible_ascii b" and "parse_ip (map unat v) = Some victim"
    and "victim \<noteq> sock_ip remote_addr"
    and "verify_request L cfg now req remote_addr st = Some (Inl r, st')"
  shows "client_of L req remote_addr = victim \<and>
     (\<forall>t. fst (ban_check t (sock_ip remote_addr) (st_bans st')) = fst (ban_check t (sock_ip remote_addr) (st_bans st))) \<and>
     ((\<forall>w. violation_secs (bans cfg) w \<noteq> 0) \<longrightarrow> fst (ban_check (snd now) victim (st_bans st')))"
proof -
  have "to_str (w_http L) v = Some (map unat v)"
    using http_values.to_str_visible [OF assms(1)] assms(3) by blast
  with assms(2,4) have c: "client_of L req remote_addr = victim"
    by (simp add: client_of_def get_real_ip_def header_text_def del: lit_simps)
  obtain w status m where
    p: "punish (client_of L req remote_addr) w (bans cfg) (snd now) (st_bans st) = Some m"
    and "st' = st\<lparr>st_rates := snd (count_request L cfg (fst now) req remote_addr st), st_bans := m\<rparr>"
    by (rule verify_refuses [OF assms(6)])
  then have st': "st_bans st' = m" by simp
  show ?thesis
    using bans.punish_other [OF p] bans.punished_is_banned [OF p, of "[]" "snd now"] assms(5) st' c
    by (auto simp: unat_gt_0)
qed

definition spoofing_request :: request where
  "spoofing_request = demo_request\<lparr>rq_headers := (lit ''cf-connecting-ip'', blit ''198.51.100.7'') # rq_headers demo_request\<rparr>"

lemma spoofing_refused:
  "\<exists>st'. verify_request waf_ref demo_config demo_now spoofing_request demo_peer demo_state
     = Some (Inl (error_response BAD_REQUEST), st')"
proof -
  have "protocol_checks spoofing_request = Inl (RequestSmuggling (lit ''Both CL and TE present''))" by code_simp
  then show ?thesis
    by (simp add: verify_request_def Let_def rate_check_def demo_raw_def demo_state_def rate_new_def
        refuse_def punish_def violation_secs_def ban_def instant_add_def from_secs_def nanos_per_sec_def
        duration_since_def demo_now_def del: lit_simps)
qed

theorem spoofed_header_bans_victim_witness:
  "\<exists>st'. verify_request waf_ref demo_config demo_now spoofing_request demo_peer demo_state
       = Some (Inl (error_response BAD_REQUEST), st')
     \<and> fst (ban_check 1000000000 (V4 198 51 100 7) (st_bans st'))
     \<and> \<not> fst (ban_check 1000000000 (V4 203 0 113 9) (st_bans st'))"
proof -
  obtain st' where v: "verify_request waf_ref demo_config demo_now spoofing_request demo_peer demo_state
      = Some (Inl (error_response BAD_REQUEST), st')" using spoofing_refused by blast
  have h: "hdr_get (rq_headers spoofing_request) (lit ''cf-connecting-ip'') = Some (blit ''198.51.100.7'')"
    by code_simp
  have a: "\<forall>b \<in> set (blit ''198.51.100.7''). visible_ascii b" by (simp add: visible_ascii_def)
  have p: "parse_ip (map unat (blit ''198.51.100.7'')) = Some (V4 198 51 100 7)" by code_simp
  have "V4 198 51 100 7 \<noteq> sock_ip demo_peer" by (simp add: demo_peer_def)
  from spoofed_header_bans_victim [OF _ h a p this v] demo_secs_60
  have "fst (ban_check (snd demo_now) (V4 198 51 100 7) (st_bans st'))"
    "fst (ban_check 1000000000 (sock_ip demo_peer) (st_bans st'))
      = fst (ban_check 1000000000 (sock_ip demo_peer) (st_bans demo_state))"
    by (simp_all add: ref_http.http_values_axioms)
  moreover have "\<not> fst (ban_check 1000000000 (sock_ip demo_peer) (st_bans demo_state))" by code_simp
  ultimately have "fst (ban_check 1000000000 (V4 198 51 100 7) (st_bans st'))"
    "\<not> fst (ban_check 1000000000 (V4 203 0 113 9) (st_bans st'))"
    by (simp_all add: demo_now_def demo_peer_def)
  with v show ?thesis by blast
qed

text \<open>
  The redirect. An accepted request is answered with a permanent redirect to the HTTPS form of
  the Host header and the target; a request that names its host in the target only (as HTTP/2 does)
  is sent to \<open>localhost\<close>.
\<close>

theorem redirect_exact:
  assumes "http_values (w_http L)"
    and "verify_request L cfg now req remote_addr st = Some (Inr (), st')"
    and "host = (case header_text (w_http L) (rq_headers req) (lit ''host'') of Some h \<Rightarrow> h | None \<Rightarrow> lit ''localhost'')"
    and "\<forall>c \<in> set (host @ target_of (rq_uri req)). 32 \<le> c \<and> c < 127"
  shows "http_proxy L cfg now req remote_addr st =
     Some ((\<lparr>rs_status = PERMANENT_REDIRECT, rs_version = HTTP_11,
             rs_headers = [(lit ''location'', as_bytes (lit ''https://'' @ host @ target_of (rq_uri req)))]\<rparr>, Empty), st')"
proof -
  have "value_of_str (w_http L) (lit ''https://'' @ host @ target_of (rq_uri req)) =
      Some (as_bytes (lit ''https://'' @ host @ target_of (rq_uri req)))"
    using assms(4) by (intro http_values.value_of_ascii [OF assms(1)]) auto
  then show ?thesis
    using assms(2,3) by (simp add: http_proxy_def redirect_response_def redirect_target_def Let_def del: lit_simps)
qed

definition plain_request :: request where
  "plain_request = \<lparr>rq_method = GET,
     rq_uri = \<lparr>uri_path_and_query = Some (lit ''/a''), uri_path = lit ''/a'', uri_query = None, uri_host = Some (lit ''ex.org'')\<rparr>,
     rq_version = HTTP_2, rq_headers = [], rq_body = []\<rparr>"

lemma plain_accepted:
  "\<exists>st'. verify_request waf_ref demo_config demo_now plain_request demo_peer demo_state = Some (Inr (), st')"
proof -
  have "protocol_checks plain_request = Inr ()"
    "waf_header waf_ref (rq_uri plain_request) (rq_method plain_request) (rq_headers plain_request) = Inr ()"
    "hdr_len (rq_headers plain_request) = 0" "uri_len (rq_uri plain_request) = 2" "allowed_method (rq_method plain_request)"
    by code_simp+
  then show ?thesis
    by (simp add: verify_request_def Let_def rate_check_def demo_raw_def demo_state_def rate_new_def
        duration_since_def demo_now_def)
qed

theorem redirect_exact_witness:
  "\<exists>st'. http_proxy waf_ref demo_config demo_now plain_request demo_peer demo_state =
     Some ((\<lparr>rs_status = PERMANENT_REDIRECT, rs_version = HTTP_11,
             rs_headers = [(lit ''location'', as_bytes (lit ''https://localhost/a''))]\<rparr>, Empty), st')"
proof -
  obtain st' where v: "verify_request waf_ref demo_config demo_now plain_request demo_peer demo_state = Some (Inr (), st')"
    using plain_accepted by blast
  have h: "lit ''localhost'' = (case header_text (w_http waf_ref) (rq_headers plain_request) (lit ''host'') of
      Some h \<Rightarrow> h | None \<Rightarrow> lit ''localhost'')" by code_simp
  have t: "target_of (rq_uri plain_request) = lit ''/a''" by code_simp
  have "http_values (w_http waf_ref)" by (simp add: ref_http.http_values_axioms)
  from redirect_exact [OF this v h] show ?thesis unfolding t by (intro exI [of _ st']) simp
qed

text \<open>
  The redirect is not sanitised: unlike every answer of the HTTPS handler outside an upgrade it
  carries none of the security headers.
\<close>

theorem redirect_bare:
  assumes "verify_request L cfg now req remote_addr st = Some (Inr (), st')"
    and "value_of_str (w_http L) (redirect_target (w_http L) req) = Some v" and "k \<in> fst ` set security_headers"
  shows "\<exists>r. http_proxy L cfg now req remote_addr st = Some (r, st') \<and> hdr_get_all (rs_headers (fst r)) k = []"
proof -
  have "k \<noteq> lit ''location''" using assms(3) by (auto simp: security_headers_def)
  then show ?thesis using assms(1,2) by (simp add: http_proxy_def redirect_response_def hdr_get_all_def)
qed

theorem redirect_bare_witness:
  "\<exists>r st'. http_proxy waf_ref demo_config demo_now plain_request demo_peer demo_state = Some (r, st') \<and>
     hdr_get_all (rs_headers (fst r)) (lit ''strict-transport-security'') = []"
proof -
  obtain st' where v: "verify_request waf_ref demo_config demo_now plain_request demo_peer demo_state = Some (Inr (), st')"
    using plain_accepted by blast
  have "value_of_str (w_http waf_ref) (redirect_target (w_http waf_ref) plain_request) = Some (blit ''https://localhost/a'')"
    by code_simp
  moreover have "lit ''strict-transport-security'' \<in> fst ` set security_headers" by code_simp
  ultimately show ?thesis using redirect_bare [OF v] by blast
qed

end
