(* ===== verification/Relay.thy ===== *)
theory Relay
  imports Bandwidth
begin

text \<open>
  One direction of the WebSocket relay (the loops \<open>c2b\<close> and \<open>b2c\<close> of \<open>handle_websocket\<close> in
  \<open>src/proxy.rs\<close>, which are the same code with the ends swapped): read a chunk, wait for quota,
  write it, until the peer closes, a read or write fails, or the connection is idle too long. The
  wait for quota is a loop that may never end; it takes one clock reading per attempt, and running
  out of readings means that it is still waiting.
\<close>

section \<open>Operations\<close>

datatype read_result = Got "byte list" | ReadFailed | IdleTimeout

text \<open>
  What \<open>write_all\<close> can give: everything is written; it fails after the first \<open>k\<close> bytes; or it is still
  waiting for the peer after the first \<open>k\<close> bytes. There is no deadline on a write.
\<close>

datatype write_result = Written | WriteFailed nat | WritePending nat

text \<open>One round: what the read gives, the readings of the quota attempts, what the write gives.\<close>

type_synonym relay_round = "read_result \<times> reading list \<times> write_result"

datatype relay_end = Closed | StillOpen

fun await_quota :: "u64 \<Rightarrow> ip_addr \<Rightarrow> u64 \<Rightarrow> reading list \<Rightarrow> bandwidth_limiter \<Rightarrow> bool \<times> bandwidth_limiter" where
  "await_quota max_bw ip n [] lm = (max_bw = 0, lm)"
| "await_quota max_bw ip n (r # rs) lm =
     (if max_bw = 0 then (True, lm)
      else case try_consume r ip max_bw n lm of (ok, lm') \<Rightarrow>
        if ok then (True, lm') else await_quota max_bw ip n rs lm')"

fun relay ::
  "u64 \<Rightarrow> ip_addr \<Rightarrow> relay_round list \<Rightarrow> bandwidth_limiter \<Rightarrow> byte list \<times> relay_end \<times> bandwidth_limiter" where
  "relay max_bw ip [] lm = ([], StillOpen, lm)"
| "relay max_bw ip ((rd, rs, wr) # rounds) lm =
     (case rd of
        Got d \<Rightarrow>
          if d = [] then ([], Closed, lm)
          else (case await_quota max_bw ip (of_nat (length d)) rs lm of (ok, lm') \<Rightarrow>
            if \<not> ok then ([], StillOpen, lm')
            else (case wr of
                WriteFailed k \<Rightarrow> (take k d, Closed, lm')
              | WritePending k \<Rightarrow> (take k d, StillOpen, lm')
              | Written \<Rightarrow> (case relay max_bw ip rounds lm' of (out, e, lm'') \<Rightarrow> (d @ out, e, lm''))))
      | ReadFailed \<Rightarrow> ([], Closed, lm)
      | IdleTimeout \<Rightarrow> ([], Closed, lm))"

section \<open>Facts\<close>

fun received :: "relay_round list \<Rightarrow> byte list" where
  "received [] = []"
| "received ((Got d, _) # rounds) = d @ received rounds"
| "received (_ # rounds) = received rounds"

lemma relay_prefix: "prefix (fst (relay max_bw ip rounds lm)) (received rounds)"
proof (induction rounds arbitrary: lm)
  case (Cons r rounds)
  obtain rd rs wr where r: "r = (rd, rs, wr)" by (cases r)
  show ?case
  proof (cases rd)
    case (Got d)
    obtain q lm' where "await_quota max_bw ip (of_nat (length d)) rs lm = (q, lm')" by fastforce
    moreover have "prefix (take k d) (d @ received rounds)" for k
      by (rule prefix_order.trans [OF take_is_prefix]) simp
    ultimately show ?thesis
      using Got r Cons [of lm'] by (auto split: prod.splits write_result.splits)
  qed (simp_all add: r)
qed simp

lemma relay_unlimited:
  "\<forall>(rd, rs, wr) \<in> set rounds. wr = Written \<and> (\<exists>d. rd = Got d \<and> d \<noteq> []) \<Longrightarrow>
     relay 0 ip rounds lm = (received rounds, StillOpen, lm)"
proof (induction rounds)
  case (Cons r rounds)
  obtain d rs where "r = (Got d, rs, Written)" "d \<noteq> []" using Cons.prems by (cases r) auto
  with Cons show ?case by (cases rs) auto
qed simp

lemma await_quota_stuck:
  assumes "max_bw \<noteq> 0" and "2 * f64_of_u64 max_bw < f64_of_u64 n"
  shows "limiter_inv max_bw lm \<Longrightarrow> \<not> fst (await_quota max_bw ip n rs lm)"
proof (induction rs arbitrary: lm)
  case (Cons r rs)
  obtain ok lm' where t: "try_consume r ip max_bw n lm = (ok, lm')" by fastforce
  have "\<not> ok" using try_consume_too_large [OF Cons.prems assms(2), of r ip] t by simp
  with Cons.IH [OF try_consume_inv [OF Cons.prems t]] t assms(1) show ?case by simp
qed (simp add: assms(1))

section \<open>How fast a waiting bucket fills\<close>

abbreviation lo :: rat where
  "lo \<equiv> 1 - f64_eps"

lemma eps_le_1 [simp]: "f64_eps \<le> 1" "0 \<le> f64_eps"
  using power_le_one [of "1 / 2 :: rat" 53] by (simp_all add: f64_eps_def power_int_def)

lemma as_secs_lower: "lo ^ 2 * (of_nat d / of_nat nanos_per_sec) \<le> as_secs_f64 d"
proof -
  let ?n = "of_nat nanos_per_sec :: rat"
  let ?s = "of_nat (d div nanos_per_sec) :: rat" and ?m = "of_nat (d mod nanos_per_sec) / ?n"
  have n: "0 < ?n" by simp
  have "(of_nat d :: rat) = of_nat (d div nanos_per_sec * nanos_per_sec + d mod nanos_per_sec)" by simp
  also have "\<dots> = ?s * ?n + of_nat (d mod nanos_per_sec)" by (simp only: of_nat_add of_nat_mult)
  finally have "of_nat d / ?n = ?s + ?m" using n by (simp add: field_simps)
  then have "lo ^ 2 * (of_nat d / ?n) = lo * (lo * ?s + lo * ?m)"
    by (simp only: power2_eq_square distrib_left mult.assoc)
  also have "\<dots> \<le> lo * (fl 53 ?s + fl 53 ?m)"
    by (intro mult_left_mono add_mono f64.rnd_lower) simp_all
  also have "\<dots> \<le> as_secs_f64 d"
    unfolding as_secs_f64_def by (intro f64.rnd_lower add_nonneg_nonneg f64.rnd_nonneg) simp_all
  finally show ?thesis .
qed

lemma refill_lower:
  assumes "0 \<le> tokens b"
  shows "tokens (refill (f64_of_u64 rate) now b) = 2 * f64_of_u64 rate \<or>
     lo * (tokens b + lo ^ 3 * f64_of_u64 rate * (of_nat (now - last_fill b) / of_nat nanos_per_sec))
       \<le> tokens (refill (f64_of_u64 rate) now b)"
proof -
  let ?r = "f64_of_u64 rate" and ?d = "now - last_fill b"
  let ?s = "of_nat ?d / of_nat nanos_per_sec :: rat"
  let ?inc = "fl 53 (as_secs_f64 ?d * ?r)"
  have "lo ^ 3 * ?r * ?s = lo * (lo ^ 2 * ?s * ?r)" by (simp add: power3_eq_cube power2_eq_square)
  also have "\<dots> \<le> lo * (as_secs_f64 ?d * ?r)"
    by (intro mult_left_mono mult_right_mono as_secs_lower) simp_all
  also have "\<dots> \<le> ?inc" by (intro f64.rnd_lower mult_nonneg_nonneg) simp_all
  finally have inc: "lo ^ 3 * ?r * ?s \<le> ?inc" .
  have "lo * (tokens b + lo ^ 3 * ?r * ?s) \<le> lo * (tokens b + ?inc)"
    using inc by (intro mult_left_mono add_left_mono) simp_all
  also have "\<dots> \<le> fl 53 (tokens b + ?inc)"
    using assms by (intro f64.rnd_lower add_nonneg_nonneg f64.rnd_nonneg mult_nonneg_nonneg) simp_all
  finally show ?thesis by (auto simp: refill_def Let_def duration_since_def)
qed

text \<open>Attempts that all fail leave the bucket with the share of the time that has passed.\<close>

lemma await_quota_fills:
  assumes "max_bw \<noteq> 0" and "f64_of_u64 n \<le> 2 * f64_of_u64 max_bw"
  shows "limiter_inv max_bw lm \<Longrightarrow> lm ip = Some b \<Longrightarrow> rs \<noteq> [] \<Longrightarrow> sorted (last_fill b # map snd rs) \<Longrightarrow>
     f64_of_u64 n \<le> lo ^ length rs * (tokens b + lo ^ 3 * f64_of_u64 max_bw *
        (of_nat (snd (last rs) - last_fill b) / of_nat nanos_per_sec)) \<Longrightarrow>
     fst (await_quota max_bw ip n rs lm)"
proof (induction rs arbitrary: lm b)
  case (Cons r rs)
  let ?r = "f64_of_u64 max_bw" and ?N = "of_nat nanos_per_sec :: rat"
  let ?b = "refill ?r (snd r) b"
  have b: "bucket_inv max_bw b" using Cons.prems(1,2) by (auto simp: limiter_inv_def)
  have t0: "0 \<le> tokens b" using b by (simp add: bucket_inv_def)
  show ?case
  proof (cases "f64_of_u64 n \<le> tokens ?b")
    case True
    then show ?thesis using Cons.prems(2) assms(1) by (simp add: try_consume_def consume_def Let_def)
  next
    case False
    then have step: "try_consume r ip max_bw n lm = (False, lm(ip \<mapsto> ?b))"
      using Cons.prems(2) by (simp add: try_consume_def consume_def Let_def)
    have fill: "lo * (tokens b + lo ^ 3 * ?r * (of_nat (snd r - last_fill b) / ?N)) \<le> tokens ?b"
      using refill_lower [OF t0, of max_bw "snd r"] False assms(2) by auto
    have lf: "last_fill ?b = snd r" by (simp add: refill_def Let_def)
    let ?D1 = "of_nat (snd r - last_fill b) / ?N" and ?D2 = "of_nat (snd (last (r # rs)) - snd r) / ?N"
    have le: "last_fill b \<le> snd r" "snd r \<le> snd (last (r # rs))"
      using Cons.prems(4) by (cases rs rule: rev_cases, auto)
    then have "of_nat (snd (last (r # rs)) - last_fill b) / ?N = ?D1 + ?D2"
      by (simp add: of_nat_diff diff_divide_distrib)
    then have "f64_of_u64 n \<le> lo ^ Suc (length rs) * (tokens b + lo ^ 3 * ?r * (?D1 + ?D2))"
      using Cons.prems(5) by simp
    also have "\<dots> = lo ^ length rs * (lo * (tokens b + lo ^ 3 * ?r * ?D1) + lo * (lo ^ 3 * ?r * ?D2))"
      by (simp only: power_Suc distrib_left mult_ac)
    also have "\<dots> \<le> lo ^ length rs * (tokens ?b + lo ^ 3 * ?r * ?D2)"
    proof (intro mult_left_mono add_mono fill)
      show "lo * (lo ^ 3 * ?r * ?D2) \<le> lo ^ 3 * ?r * ?D2"
        by (intro mult_left_le_one_le mult_nonneg_nonneg) simp_all
    qed simp
    finally have n: "f64_of_u64 n \<le> lo ^ length rs * (tokens ?b + lo ^ 3 * ?r * ?D2)" .
    show ?thesis
    proof (cases "rs = []")
      case True
      with n False show ?thesis by simp
    next
      case rs: False
      have "fst (await_quota max_bw ip n rs (lm(ip \<mapsto> ?b)))"
      proof (rule Cons.IH)
        show "limiter_inv max_bw (lm(ip \<mapsto> ?b))" by (rule try_consume_inv [OF Cons.prems(1) step])
        show "sorted (last_fill ?b # map snd rs)" using Cons.prems(4) lf by simp
      qed (use n rs lf in simp_all)
      with step assms(1) show ?thesis by simp
    qed
  qed
qed simp

section \<open>Properties\<close>

text \<open>
  C32: the relay neither loses, reorders nor invents bytes. What one direction has written at any
  time, also by a write that fails or waits half way, is a prefix of what it has read; with no limit
  configured and no failure it is all of it.
\<close>

theorem relay_in_order:
  "prefix (fst (relay max_bw ip rounds lm)) (received rounds) \<and>
   (list_all (\<lambda>(rd, rs, wr). wr = Written \<and> (case rd of Got d \<Rightarrow> d \<noteq> [] | _ \<Rightarrow> False)) rounds \<longrightarrow>
      relay 0 ip rounds lm = (received rounds, StillOpen, lm))"
proof -
  have "relay 0 ip rounds lm = (received rounds, StillOpen, lm)"
    if "list_all (\<lambda>(rd, rs, wr). wr = Written \<and> (case rd of Got d \<Rightarrow> d \<noteq> [] | _ \<Rightarrow> False)) rounds"
    using that by (intro relay_unlimited) (force simp: list_all_iff split: read_result.splits)
  with relay_prefix show ?thesis by blast
qed

theorem relay_in_order_witness:
  "relay 0 demo_client [(Got [1, 2], [], Written), (Got [3], [], Written)] limiter_new = ([1, 2, 3], StillOpen, limiter_new)"
  using relay_in_order [of 0 demo_client "[(Got [1, 2], [], Written), (Got [3], [], Written)]" limiter_new] by simp

text \<open>
  Waiting for quota ends. If a chunk is no larger than two seconds of the rate and the attempts
  are made one after another with nothing else consuming, then by the time the share of the rate
  since the bucket was last filled (less a relative rounding error of \<open>2\<^sup>-\<^sup>5\<^sup>3\<close> per attempt) reaches
  the chunk, one of the attempts has been granted.
\<close>

theorem quota_wait_ends:
  assumes "limiter_inv max_bw lm" and "lm ip = Some b" and "max_bw \<noteq> 0"
    and "f64_of_u64 n \<le> 2 * f64_of_u64 max_bw"
    and "rs \<noteq> []" and "sorted (last_fill b # map snd rs)"
    and "f64_of_u64 n \<le> (1 - f64_eps) ^ length rs * (tokens b + (1 - f64_eps) ^ 3 * f64_of_u64 max_bw *
           (of_nat (snd (last rs) - last_fill b) / of_nat nanos_per_sec))"
  shows "fst (await_quota max_bw ip n rs lm)"
  by (rule await_quota_fills [OF assms(3,4,1,2,5-7)])

theorem quota_wait_ends_witness:
  "fst (await_quota 1000 demo_client 400 [(0, 1000000001), (0, 1000000002)] demo_limiter)"
proof (rule quota_wait_ends [OF demo_limiter_inv])
  have e: "(1 / 2 :: rat) \<le> 1 - f64_eps" "f64_of_u64 400 = 400"
    by (simp_all add: f64_eps_def power_int_def power_one_over f64_of_u64_exact)
  have q: "(9 / 10 :: rat) \<le> (1 - f64_eps) ^ 2"
    by (simp add: f64_eps_def power_int_def power_one_over power2_eq_square)
  have "(400 :: rat) \<le> 9 / 10 * 500" by simp
  also have "\<dots> \<le> (1 - f64_eps) ^ 2 * 500" using q by simp
  also have "\<dots> \<le> (1 - f64_eps) ^ 2 * (tokens demo_bucket + (1 - f64_eps) ^ 3 * f64_of_u64 1000 *
      (of_nat (1000000002 - last_fill demo_bucket) / of_nat nanos_per_sec))"
    by (intro mult_left_mono) (simp_all add: demo_bucket_def)
  finally show "f64_of_u64 400 \<le> (1 - f64_eps) ^ length [(0 :: nat, 1000000001 :: nat), (0, 1000000002)] *
      (tokens demo_bucket + (1 - f64_eps) ^ 3 * f64_of_u64 1000 *
      (of_nat (snd (last [(0 :: nat, 1000000001 :: nat), (0, 1000000002)]) - last_fill demo_bucket) / of_nat nanos_per_sec))"
    by (simp add: e numeral_2_eq_2)
  show "f64_of_u64 400 \<le> 2 * f64_of_u64 1000" by (simp add: e)
qed (simp_all add: demo_bucket_def)

text \<open>
  A chunk of more than two seconds of the rate blocks the direction for good. The read buffer
  holds 8192 bytes, so with a limit below 4096 bytes per second a full buffer is never written and
  nothing after it is read, however long the connection lives.
\<close>

theorem full_buffer_stalls:
  assumes "limiter_inv max_bw lm" and "0 < unat max_bw" and "unat max_bw < 4096" and "length d = 8192"
  shows "\<exists>lm'. relay max_bw ip ((Got d, rs, wr) # rounds) lm = ([], StillOpen, lm')"
proof -
  have "f64_of_u64 (of_nat (length d)) = 8192"
    using assms(4) by (subst f64_of_u64_exact) simp_all
  moreover have "f64_of_u64 max_bw = of_nat (unat max_bw)" using assms(3) by (intro f64_of_u64_exact) simp
  moreover have "(of_nat (unat max_bw) :: rat) < 4096" using assms(3) of_nat_less_iff [of "unat max_bw" 4096, where 'a = rat] by simp
  ultimately have "2 * f64_of_u64 max_bw < f64_of_u64 (of_nat (length d))" by simp
  moreover have "max_bw \<noteq> 0" using assms(2) by auto
  ultimately have "\<not> fst (await_quota max_bw ip (of_nat (length d)) rs lm)"
    using await_quota_stuck assms(1) by blast
  moreover have "d \<noteq> []" using assms(4) by auto
  ultimately show ?thesis by (auto split: prod.splits)
qed

theorem full_buffer_stalls_witness:
  "\<exists>lm'. relay 1000 demo_client [(Got (replicate 8192 0), [(0, 9000000000)], Written)] demo_limiter = ([], StillOpen, lm')"
  by (rule full_buffer_stalls [OF demo_limiter_inv]) simp_all

end
