(* ===== verification/Proxy.thy ===== *)
theory Proxy
  imports Pipeline Relay
begin

text \<open>
  The HTTPS handler (\<open>https_proxy\<close>, \<open>handle_http\<close> and \<open>handle_websocket\<close> in \<open>src/proxy.rs\<close>):
  verification, buffering and inspection of the body, routing, forwarding, and the treatment of the
  answer. What the network does is the parameter record \<open>upstream_env\<close>: the outcome of each
  awaited operation. A field that returns \<^term>\<open>None\<close> says that the deadline of the whole
  request (\<open>c_body_timeout\<close>) passes before the operation is finished; the timeouts inside the
  deadline are outcomes of the operation itself. The collection of the request's body is under no
  deadline and may never be finished; then the handler has no result (\<^term>\<open>Unfinished\<close>).
\<close>

section \<open>The network\<close>

datatype upstream_outcome = Answered response stream | NoAnswer

text \<open>
  What collecting a body gives: its bytes, an error, or nothing at all, when the client stops sending.
  No deadline covers the collection.
\<close>

datatype collected = Collected "byte list" | CollectFailed | CollectPending

record upstream_env =
  collect_limited :: "usize \<Rightarrow> stream \<Rightarrow> collected"  \<comment> \<open>\<open>Limited::new(body, n).collect()\<close>\<close>
  tcp_connect :: "ustr \<Rightarrow> connect_outcome option"
  client_request :: "request \<Rightarrow> upstream_outcome option"
  ws_handshake :: "ustr \<Rightarrow> bool option"
  ws_request :: "request \<Rightarrow> upstream_outcome option"
  dlp_readings :: "(reading \<times> reading) list"

text \<open>
  The handler's result is a reply or a \<open>hyper::Error\<close>. \<^term>\<open>Unfinished\<close> says that it has none, since it
  waits for the body of the request.
\<close>

datatype outcome = Reply reply | HyperError | Unfinished

text \<open>What a forwarding function did: its result (if it was in time), the requests it sent.\<close>

record handled =
  result :: "outcome option"
  forwarded :: "request list"
  upgraded :: bool

section \<open>Standard requests\<close>

definition upstream_request :: "http_lib \<Rightarrow> ustr \<Rightarrow> request \<Rightarrow> request" where
  "upstream_request H upstream_addr req =
     (let req1 = (if rq_version req = HTTP_2 then req\<lparr>rq_version := HTTP_11\<rparr> else req);
          uri_str = lit ''http://'' @ upstream_addr @ target_of (rq_uri req1)
      in case uri_of_str H uri_str of Some uri \<Rightarrow> req1\<lparr>rq_uri := uri\<rparr> | None \<Rightarrow> req1)"

definition handle_http ::
  "waf_lib \<Rightarrow> upstream_env \<Rightarrow> request \<Rightarrow> ustr \<Rightarrow> ip_addr \<Rightarrow> u64 \<Rightarrow> bandwidth_limiter
     \<Rightarrow> handled \<times> bandwidth_limiter" where
  "handle_http L env req upstream_addr remote_ip max_bw lm =
     (let req' = upstream_request (w_http L) upstream_addr req;
          done = (\<lambda>r. \<lparr>result = r, forwarded = [req'], upgraded = False\<rparr>)
      in case client_request env req' of
           None \<Rightarrow> (done None, lm)
         | Some NoAnswer \<Rightarrow> (done (Some (Reply (error_response GATEWAY_TIMEOUT))), lm)
         | Some (Answered parts body) \<Rightarrow>
             (let headers = sanitize_response_headers (rs_headers parts);
                  throttled = throttled_new body remote_ip max_bw
              in case apply_dlp L (dlp_readings env) lm headers throttled of
                   (None, lm') \<Rightarrow> (done None, lm')
                 | (Some final_body, lm') \<Rightarrow>
                     (done (Some (Reply (\<lparr>rs_status = rs_status parts, rs_version = rs_version parts,
                        rs_headers = headers\<rparr>, final_body))), lm')))"

section \<open>WebSockets\<close>

definition ws_upstream_request :: "request \<Rightarrow> request" where
  "ws_upstream_request req =
     \<lparr>rq_method = rq_method req, rq_uri = rq_uri req, rq_version = rq_version req,
      rq_headers = rq_headers req, rq_body = []\<rparr>"

definition handle_websocket ::
  "upstream_env \<Rightarrow> request \<Rightarrow> ustr \<Rightarrow> ip_addr \<Rightarrow> u64 \<Rightarrow> handled" where
  "handle_websocket env req addr remote_ip max_bw =
     (case ws_handshake env addr of
        None \<Rightarrow> \<lparr>result = None, forwarded = [], upgraded = False\<rparr>
      | Some False \<Rightarrow> \<lparr>result = Some HyperError, forwarded = [], upgraded = False\<rparr>
      | Some True \<Rightarrow>
          (let req' = ws_upstream_request req
           in case ws_request env req' of
                None \<Rightarrow> \<lparr>result = None, forwarded = [req'], upgraded = False\<rparr>
              | Some NoAnswer \<Rightarrow>
                  \<lparr>result = Some (Reply (error_response GATEWAY_TIMEOUT)), forwarded = [req'], upgraded = False\<rparr>
              | Some (Answered parts body) \<Rightarrow>
                  if rs_status parts = SWITCHING_PROTOCOLS
                  then \<lparr>result = Some (Reply (\<lparr>rs_status = SWITCHING_PROTOCOLS, rs_version = HTTP_11,
                          rs_headers = sanitize_response_headers (rs_headers parts)\<rparr>, Empty)),
                        forwarded = [req'], upgraded = True\<rparr>
                  else \<lparr>result = Some (Reply (parts, Throttled (throttled_new body remote_ip max_bw))),
                        forwarded = [req'], upgraded = False\<rparr>))"

section \<open>Routing and dispatch\<close>

text \<open>
  The future under the deadline. \<^term>\<open>NoRoute\<close> is its result \<open>None\<close>, \<^term>\<open>Deadline\<close> that it was
  still running when the deadline passed. The counter of the route is advanced in every case in
  which a route is found.
\<close>

datatype dispatched = NoRoute | Finished outcome | Deadline

definition bump_counter :: "ustr \<Rightarrow> ustr \<Rightarrow> usize \<Rightarrow> vhosts \<Rightarrow> vhosts" where
  "bump_counter dmn route_path c vs =
     (case map_of vs dmn of
        None \<Rightarrow> vs
      | Some vh \<Rightarrow> AList.update dmn (vh\<lparr>routers_state := (routers_state vh)(route_path \<mapsto> c)\<rparr>) vs)"

definition of_handled :: "handled \<Rightarrow> dispatched" where
  "of_handled h = (case result h of None \<Rightarrow> Deadline | Some r \<Rightarrow> Finished r)"

definition dispatch ::
  "waf_lib \<Rightarrow> upstream_env \<Rightarrow> request \<Rightarrow> ip_addr \<Rightarrow> u64 \<Rightarrow> proxy_state
     \<Rightarrow> dispatched \<times> request list \<times> proxy_state" where
  "dispatch L env req remote_ip max_bw st =
     (let dmn = get_host (w_http L) (rq_uri req) (rq_headers req);
          path = uri_path (rq_uri req)
      in case map_of (st_vhosts st) dmn of
           None \<Rightarrow> (NoRoute, [], st)
         | Some vhost \<Rightarrow>
             (case find_route (routers_state vhost) path (routers vhost) of
                None \<Rightarrow> (NoRoute, [], st)
              | Some (route_path, upstreams, counter) \<Rightarrow>
                  (case select_upstream upstreams counter (st_health st) of (choice, counter') \<Rightarrow>
                    let st1 = st\<lparr>st_vhosts := bump_counter dmn route_path counter' (st_vhosts st)\<rparr>
                    in case choice of
                         None \<Rightarrow> (NoRoute, [], st1)
                       | Some addr \<Rightarrow>
                           if is_websocket (w_http L) (rq_headers req) then
                             (case tcp_connect env addr of
                                None \<Rightarrow> (Deadline, [], st1)
                              | Some Connected \<Rightarrow>
                                  (let h = handle_websocket env req addr remote_ip max_bw
                                   in (of_handled h, forwarded h, st1))
                              | Some _ \<Rightarrow> (NoRoute, [], st1))
                           else
                             (case handle_http L env req addr remote_ip max_bw (st_buckets st1) of (h, lm) \<Rightarrow>
                                (of_handled h, forwarded h, st1\<lparr>st_buckets := lm\<rparr>)))))"

section \<open>The handler\<close>

definition buffers_body :: "http_method \<Rightarrow> bool" where
  "buffers_body m \<longleftrightarrow> m \<in> {POST, PUT, PATCH}"

text \<open>\<open>Full::new(bytes)\<close> as a stream.\<close>

definition full_stream :: "byte list \<Rightarrow> stream" where
  "full_stream bs = (if bs = [] then [] else [Ready (Data bs)])"

text \<open>Step two: the request to forward, the reply that ends the handling, or a wait for the body.\<close>

datatype inspection = Refused reply | Passed request | Stalled

definition inspect_body ::
  "waf_lib \<Rightarrow> 'r config \<Rightarrow> upstream_env \<Rightarrow> instant \<Rightarrow> request \<Rightarrow> ip_addr \<Rightarrow> proxy_state
     \<Rightarrow> (inspection \<times> proxy_state) option" where
  "inspect_body L cfg env now req remote_ip st =
     (if buffers_body (rq_method req) then
        (case collect_limited env (max_body_size (limits cfg)) (rq_body req) of
           CollectPending \<Rightarrow> Some (Stalled, st)
         | CollectFailed \<Rightarrow>
             (case punish remote_ip Protocol (bans cfg) now (st_bans st) of
                None \<Rightarrow> None
              | Some m \<Rightarrow> Some (Refused (error_response PAYLOAD_TOO_LARGE), st\<lparr>st_bans := m\<rparr>))
         | Collected body_bytes \<Rightarrow>
             (case waf_body L (rq_headers req) body_bytes of
                Inl reason \<Rightarrow>
                  (case punish remote_ip Waf (bans cfg) now (st_bans st) of
                     None \<Rightarrow> None
                   | Some m \<Rightarrow> Some (Refused (error_response FORBIDDEN), st\<lparr>st_bans := m\<rparr>))
              | Inr _ \<Rightarrow> Some (Passed (req\<lparr>rq_body := full_stream body_bytes\<rparr>), st)))
      else Some (Passed req, st))"

definition https_proxy ::
  "waf_lib \<Rightarrow> 'r config \<Rightarrow> upstream_env \<Rightarrow> clock \<Rightarrow> instant \<Rightarrow> request \<Rightarrow> socket_addr \<Rightarrow> proxy_state
     \<Rightarrow> (outcome \<times> request list \<times> proxy_state) option" where
  "https_proxy L cfg env now late req remote_addr st =
     (case verify_request L cfg now req remote_addr st of
        None \<Rightarrow> None
      | Some (Inl err_res, st1) \<Rightarrow> Some (Reply err_res, [], st1)
      | Some (Inr _, st1) \<Rightarrow>
          (let remote_ip = get_real_ip (w_http L) (rq_headers req) remote_addr;
               max_bw = max_bandwidth (limits cfg)
           in case inspect_body L cfg env late req remote_ip st1 of
                None \<Rightarrow> None
              | Some (Refused err_res, st2) \<Rightarrow> Some (Reply err_res, [], st2)
              | Some (Stalled, st2) \<Rightarrow> Some (Unfinished, [], st2)
              | Some (Passed final_req, st2) \<Rightarrow>
                  (case dispatch L env final_req remote_ip max_bw st2 of (d, sent, st3) \<Rightarrow>
                     (case d of
                        Finished res \<Rightarrow> Some (res, sent, st3)
                      | NoRoute \<Rightarrow> Some (Reply (error_response BAD_GATEWAY), sent, st3)
                      | Deadline \<Rightarrow>
                          (case punish remote_ip Timeout (bans cfg) late (st_bans st3) of
                             None \<Rightarrow> None
                           | Some m \<Rightarrow> Some (Reply (error_response GATEWAY_TIMEOUT), sent, st3\<lparr>st_bans := m\<rparr>))))))"

section \<open>Collecting a body\<close>

text \<open>
  The documented behaviour of the limited collection: if it completes it gives the data of the body,
  unless the body fails or has more bytes than the limit. The reference collects frame by frame with
  a shrinking budget and always completes.
\<close>

locale body_collector =
  fixes collect :: "usize \<Rightarrow> stream \<Rightarrow> collected"
  assumes collect_spec: "collect n s \<noteq> CollectPending \<Longrightarrow> collect n s =
    (if stream_fails s \<or> unat n < length (stream_data s) then CollectFailed else Collected (stream_data s))"
begin

lemma collect_data: "collect n s = Collected bs \<Longrightarrow> bs = stream_data s \<and> length bs \<le> unat n"
  using collect_spec [of n s] by (auto split: if_splits)

lemma collect_fails: "collect n s = CollectFailed \<Longrightarrow> stream_fails s \<or> unat n < length (stream_data s)"
  using collect_spec [of n s] by (auto split: if_splits)

end

fun collect_frames :: "nat \<Rightarrow> stream \<Rightarrow> collected" where
  "collect_frames n [] = Collected []"
| "collect_frames n (Ready (Data d) # xs) =
     (if n < length d then CollectFailed
      else case collect_frames (n - length d) xs of Collected bs \<Rightarrow> Collected (d @ bs) | c \<Rightarrow> c)"
| "collect_frames n (Ready (Trailers t) # xs) = collect_frames n xs"
| "collect_frames n (NotReady # xs) = collect_frames n xs"
| "collect_frames n (Failed # xs) = CollectFailed"

lemma collect_frames_spec:
  "collect_frames n s =
     (if stream_fails s \<or> n < length (stream_data s) then CollectFailed else Collected (stream_data s))"
  by (induction n s rule: collect_frames.induct) auto

interpretation ref_collect: body_collector "\<lambda>n. collect_frames (unat n)"
  by unfold_locales (rule collect_frames_spec)

section \<open>Facts\<close>

lemma select_from_index_healthy:
  "select_from_index ups start h i n = Some a \<Longrightarrow> is_healthy h a"
  by (induction n arbitrary: i) (auto simp: Let_def split: if_splits)

lemma select_from_index_member:
  "select_from_index ups start h i n = Some a \<Longrightarrow> ups \<noteq> [] \<Longrightarrow> length ups < 2 ^ 64 \<Longrightarrow> a \<in> set ups"
proof (induction n arbitrary: i)
  case (Suc n)
  let ?l = "of_nat (length ups) :: usize"
  have l: "unat ?l = length ups" using Suc.prems(3) by (simp add: unat_of_nat take_bit_nat_eq_self)
  have "unat ((start + i) mod ?l) < length ups"
    using Suc.prems(2) by (simp add: unat_mod l)
  then show ?case using Suc by (auto simp: Let_def split: if_splits)
qed simp

lemma select_upstream_Some:
  assumes "select_upstream ups c h = (Some a, c')"
  shows "is_healthy h a \<and> (length ups < 2 ^ 64 \<longrightarrow> a \<in> set ups)"
proof -
  have s: "select_from_index ups c h 0 (length ups) = Some a" using assms by (simp add: select_upstream_def)
  then have "ups \<noteq> []" by auto
  with s select_from_index_healthy select_from_index_member show ?thesis by blast
qed

text \<open>What the two forwarding functions send.\<close>

lemma handle_http_sent:
  "handle_http L env req addr ip bw lm = (h, lm') \<Longrightarrow> forwarded h = [upstream_request (w_http L) addr req]"
  by (auto simp: handle_http_def Let_def split: option.splits upstream_outcome.splits prod.splits)

lemma handle_websocket_sent: "set (forwarded (handle_websocket env req addr ip bw)) \<subseteq> {ws_upstream_request req}"
  by (simp add: handle_websocket_def Let_def split: option.splits upstream_outcome.splits bool.splits)

definition sent_to :: "http_lib \<Rightarrow> ustr \<Rightarrow> request \<Rightarrow> request" where
  "sent_to H addr req =
     (if is_websocket H (rq_headers req) then ws_upstream_request req else upstream_request H addr req)"

lemma dispatch_sent:
  assumes "dispatch L env req ip bw st = (d, sent, st')" and "r \<in> set sent"
  obtains vh p ups c addr where
    "map_of (st_vhosts st) (get_host (w_http L) (rq_uri req) (rq_headers req)) = Some vh"
    "find_route (routers_state vh) (uri_path (rq_uri req)) (routers vh) = Some (p, ups, c)"
    "fst (select_upstream ups c (st_health st)) = Some addr"
    "r = sent_to (w_http L) addr req"
proof -
  let ?dmn = "get_host (w_http L) (rq_uri req) (rq_headers req)"
  from assms obtain vh where vh: "map_of (st_vhosts st) ?dmn = Some vh"
    by (auto simp: dispatch_def Let_def split: option.splits)
  with assms obtain p ups c where route: "find_route (routers_state vh) (uri_path (rq_uri req)) (routers vh) = Some (p, ups, c)"
    by (auto simp: dispatch_def Let_def split: option.splits)
  with assms vh obtain addr where a: "fst (select_upstream ups c (st_health st)) = Some addr"
    by (auto simp: dispatch_def Let_def split: option.splits prod.splits)
  have "r = sent_to (w_http L) addr req"
  proof (cases "is_websocket (w_http L) (rq_headers req)")
    case True
    with assms vh route a handle_websocket_sent [of env req addr ip bw] show ?thesis
      by (auto simp: dispatch_def Let_def sent_to_def split: option.splits prod.splits connect_outcome.splits)
  next
    case False
    with assms vh route a show ?thesis
      by (auto simp: dispatch_def Let_def sent_to_def dest!: handle_http_sent split: option.splits prod.splits)
  qed
  with that vh route a show ?thesis by blast
qed

text \<open>The handler reaches the dispatch only through the two earlier stages.\<close>

lemma inspect_body_passed:
  assumes "inspect_body L cfg env late req ip st = Some (Passed final, st')"
  shows "st' = st \<and>
     (if buffers_body (rq_method req)
      then \<exists>bs. collect_limited env (max_body_size (limits cfg)) (rq_body req) = Collected bs \<and>
             waf_body L (rq_headers req) bs = Inr () \<and> final = req\<lparr>rq_body := full_stream bs\<rparr>
      else final = req)"
  using assms by (auto simp: inspect_body_def split: if_splits option.splits sum.splits collected.splits)

lemma inspect_body_stalled:
  assumes "inspect_body L cfg env late req ip st = Some (Stalled, st')"
  shows "st' = st \<and> buffers_body (rq_method req) \<and>
     collect_limited env (max_body_size (limits cfg)) (rq_body req) = CollectPending"
  using assms by (auto simp: inspect_body_def split: if_splits option.splits sum.splits collected.splits)

lemma https_proxy_stages:
  assumes "https_proxy L cfg env now late req peer st = Some (out, sent, st')"
  obtains (refused) r where
    "verify_request L cfg now req peer st = Some (Inl r, st')" "out = Reply r" "sent = []"
  | (blocked) st1 r where
    "verify_request L cfg now req peer st = Some (Inr (), st1)"
    "inspect_body L cfg env late req (client_of L req peer) st1 = Some (Refused r, st')" "out = Reply r" "sent = []"
  | (stalled)
    "verify_request L cfg now req peer st = Some (Inr (), st')" "buffers_body (rq_method req)"
    "collect_limited env (max_body_size (limits cfg)) (rq_body req) = CollectPending" "out = Unfinished" "sent = []"
  | (routed) st1 final d st3 where
    "verify_request L cfg now req peer st = Some (Inr (), st1)"
    "inspect_body L cfg env late req (client_of L req peer) st1 = Some (Passed final, st1)"
    "dispatch L env final (client_of L req peer) (max_bandwidth (limits cfg)) st1 = (d, sent, st3)"
    "(case d of Finished res \<Rightarrow> out = res \<and> st' = st3
      | NoRoute \<Rightarrow> out = Reply (error_response BAD_GATEWAY) \<and> st' = st3
      | Deadline \<Rightarrow> out = Reply (error_response GATEWAY_TIMEOUT) \<and>
          (\<exists>m. punish (client_of L req peer) Timeout (bans cfg) late (st_bans st3) = Some m \<and>
             st' = st3\<lparr>st_bans := m\<rparr>))"
proof -
  from assms obtain v st1 where v: "verify_request L cfg now req peer st = Some (v, st1)"
    by (auto simp: https_proxy_def split: option.splits)
  show ?thesis
  proof (cases v)
    case (Inl r)
    with v assms show ?thesis by (intro refused) (auto simp: https_proxy_def)
  next
    case (Inr u)
    with v assms obtain b st2 where b: "inspect_body L cfg env late req (client_of L req peer) st1 = Some (b, st2)"
      by (auto simp: https_proxy_def client_of_def Let_def split: option.splits)
    show ?thesis
    proof (cases b)
      case Stalled
      from inspect_body_stalled [OF b [unfolded this]] v \<open>v = Inr u\<close> b Stalled assms show ?thesis
        by (intro stalled) (auto simp: https_proxy_def client_of_def Let_def)
    next
      case (Refused r)
      with v \<open>v = Inr u\<close> b assms show ?thesis
        by (intro blocked) (auto simp: https_proxy_def client_of_def Let_def)
    next
      case final: (Passed final)
      then have "st2 = st1" using inspect_body_passed b by blast
      obtain d s st3 where d: "dispatch L env final (client_of L req peer) (max_bandwidth (limits cfg)) st1 = (d, s, st3)"
        by (cases "dispatch L env final (client_of L req peer) (max_bandwidth (limits cfg)) st1") auto
      have "sent = s \<and> (case d of Finished res \<Rightarrow> out = res \<and> st' = st3
      | NoRoute \<Rightarrow> out = Reply (error_response BAD_GATEWAY) \<and> st' = st3
      | Deadline \<Rightarrow> out = Reply (error_response GATEWAY_TIMEOUT) \<and>
          (\<exists>m. punish (client_of L req peer) Timeout (bans cfg) late (st_bans st3) = Some m \<and>
             st' = st3\<lparr>st_bans := m\<rparr>))"
        using assms v \<open>v = Inr u\<close> b final \<open>st2 = st1\<close> d unfolding https_proxy_def client_of_def
        by (auto simp: Let_def split: dispatched.splits option.splits)
      with v \<open>v = Inr u\<close> b final \<open>st2 = st1\<close> d show ?thesis by (intro routed) auto
    qed
  qed
qed

section \<open>The invariant of the shared tables\<close>

text \<open>
  No window counts more than the limit, every bucket is within its bounds, and every virtual host is
  as the loader builds it. The routes never change; only the counters do.
\<close>

definition proxy_inv :: "'r config \<Rightarrow> proxy_state \<Rightarrow> bool" where
  "proxy_inv cfg st \<longleftrightarrow>
     rate_inv (max_rps (limits cfg)) (st_rates st) \<and>
     limiter_inv (max_bandwidth (limits cfg)) (st_buckets st) \<and>
     distinct (map fst (st_vhosts st)) \<and> (\<forall>(d, vh) \<in> set (st_vhosts st). vhost_wf vh)"

definition route_tables :: "proxy_state \<Rightarrow> (ustr \<times> route list) list" where
  "route_tables st = map (\<lambda>(d, vh). (d, routers vh)) (st_vhosts st)"

text \<open>What a handler may not touch, and what it keeps.\<close>

definition keeps :: "'r config \<Rightarrow> proxy_state \<Rightarrow> proxy_state \<Rightarrow> bool" where
  "keeps cfg st st' \<longleftrightarrow>
     (proxy_inv cfg st \<longrightarrow> proxy_inv cfg st') \<and> route_tables st' = route_tables st \<and> st_health st' = st_health st"

lemma keeps_trans: "keeps cfg a b \<Longrightarrow> keeps cfg b c \<Longrightarrow> keeps cfg a c"
  by (simp add: keeps_def)

lemma keeps_bans [simp]: "keeps cfg st (st'\<lparr>st_bans := m\<rparr>) = keeps cfg st st'"
  by (simp add: keeps_def proxy_inv_def route_tables_def)

lemma keeps_refl [simp]: "keeps cfg st st"
  by (simp add: keeps_def)

lemma verify_keeps:
  assumes "verify_request L cfg now req peer st = Some (v, st')"
  shows "keeps cfg st st'"
proof -
  let ?rates = "snd (count_request L cfg (fst now) req peer st)"
  have "st' = st\<lparr>st_rates := ?rates\<rparr> \<or> (\<exists>m. st' = st\<lparr>st_rates := ?rates, st_bans := m\<rparr>)"
    using assms by (auto simp: verify_request_table refuse_def Let_def split: prod.splits option.splits)
  moreover have "keeps cfg st (st\<lparr>st_rates := ?rates\<rparr>)"
    by (auto simp: keeps_def proxy_inv_def route_tables_def count_request_def)
  ultimately show ?thesis by auto
qed

lemma inspect_body_keeps:
  "inspect_body L cfg env late req ip st = Some (v, st') \<Longrightarrow> keeps cfg st st'"
  by (auto simp: inspect_body_def split: if_splits option.splits sum.splits collected.splits)

lemma update_same_routes:
  assumes "map_of vs d = Some vh" and "routers vh' = routers vh"
  shows "map (\<lambda>(d, vh). (d, routers vh)) (AList.update d vh' vs) = map (\<lambda>(d, vh). (d, routers vh)) vs"
  using assms by (induction vs) (auto split: if_splits)

lemma bump_counter_keeps:
  assumes "map_of (st_vhosts st) dmn = Some vh"
    and "find_route (routers_state vh) path (routers vh) = Some (p, ups, c)"
  shows "keeps cfg st (st\<lparr>st_vhosts := bump_counter dmn p c' (st_vhosts st)\<rparr>)"
proof -
  let ?vh = "vh\<lparr>routers_state := (routers_state vh)(p \<mapsto> c')\<rparr>"
  have b: "bump_counter dmn p c' (st_vhosts st) = AList.update dmn ?vh (st_vhosts st)"
    using assms(1) by (simp add: bump_counter_def)
  have route: "vhost_wf ?vh" if "vhost_wf vh"
  proof -
    have "(p, ups) \<in> set (routers vh)"
      using assms(2) unfolding find_route_iff [OF that] by (simp add: longest_route_def)
    then have "p \<in> fst ` set (routers vh)" by (rule image_eqI [rotated]) simp
    with that show ?thesis by (simp add: vhost_wf_def insert_absorb)
  qed
  have wf: "vhost_wf x" if "(d, x) \<in> set (AList.update dmn ?vh (st_vhosts st))"
    "\<forall>(d, vh) \<in> set (st_vhosts st). vhost_wf vh" for d x
  proof -
    have "(d, x) \<in> insert (dmn, ?vh) (set (st_vhosts st))"
      by (rule subsetD [OF set_update_subset that(1)])
    moreover have "vhost_wf ?vh" using bspec [OF that(2) map_of_SomeD [OF assms(1)]] by (intro route) simp
    moreover have "vhost_wf y" if "(e, y) \<in> set (st_vhosts st)" for e y
      using bspec [OF \<open>\<forall>(d, vh) \<in> set (st_vhosts st). vhost_wf vh\<close> that] by simp
    ultimately show ?thesis by (elim insertE) simp_all
  qed
  have r: "route_tables (st\<lparr>st_vhosts := bump_counter dmn p c' (st_vhosts st)\<rparr>) = route_tables st"
    using update_same_routes [OF assms(1), of ?vh] by (simp add: route_tables_def b)
  have "proxy_inv cfg (st\<lparr>st_vhosts := bump_counter dmn p c' (st_vhosts st)\<rparr>)" if "proxy_inv cfg st"
    unfolding proxy_inv_def b
  proof (intro conjI ballI)
    show "distinct (map fst (st_vhosts (st\<lparr>st_vhosts := AList.update dmn ?vh (st_vhosts st)\<rparr>)))"
      using that by (auto simp: proxy_inv_def intro: distinct_update)
  next
    fix x assume "x \<in> set (st_vhosts (st\<lparr>st_vhosts := AList.update dmn ?vh (st_vhosts st)\<rparr>))"
    moreover have "\<forall>(d, vh) \<in> set (st_vhosts st). vhost_wf vh" using that by (simp add: proxy_inv_def)
    ultimately show "case x of (d, vh) \<Rightarrow> vhost_wf vh" using wf [of "fst x" "snd x"] by (simp add: split_beta)
  qed (use that in \<open>simp_all add: proxy_inv_def\<close>)
  with r show ?thesis by (simp add: keeps_def)
qed

lemma handle_http_keeps:
  assumes "handle_http L env req addr ip bw lm = (h, lm')" and "limiter_inv bw lm"
  shows "limiter_inv bw lm'"
proof -
  have "limiter_inv bw lm2" if "apply_dlp L rrs lm hs (throttled_new body ip bw) = (x, lm2)" for rrs hs body x lm2
    using that drive_inv [of "throttled_new body ip bw" lm] assms(2)
    by (auto simp: apply_dlp_def throttled_new_def Let_def split: if_splits prod.splits drive_end.splits)
  with assms show ?thesis
    by (auto simp: handle_http_def Let_def split: option.splits upstream_outcome.splits prod.splits)
qed

lemma dispatch_keeps:
  assumes "dispatch L env req ip (max_bandwidth (limits cfg)) st = (d, sent, st')"
  shows "keeps cfg st st'"
proof (cases "map_of (st_vhosts st) (get_host (w_http L) (rq_uri req) (rq_headers req))")
  case None
  with assms show ?thesis by (simp add: dispatch_def)
next
  case (Some vh)
  show ?thesis
  proof (cases "find_route (routers_state vh) (uri_path (rq_uri req)) (routers vh)")
    case None
    with assms Some show ?thesis by (simp add: dispatch_def)
  next
    case route: (Some x)
    obtain p ups c where x: "x = (p, ups, c)" by (cases x)
    let ?st1 = "st\<lparr>st_vhosts := bump_counter (get_host (w_http L) (rq_uri req) (rq_headers req)) p (c + 1) (st_vhosts st)\<rparr>"
    have k: "keeps cfg st ?st1" using bump_counter_keeps Some route x by blast
    have "st' = ?st1 \<or> (\<exists>addr h lm. handle_http L env req addr ip (max_bandwidth (limits cfg)) (st_buckets ?st1) = (h, lm)
        \<and> st' = ?st1\<lparr>st_buckets := lm\<rparr>)"
      using assms Some route x
      by (auto simp: dispatch_def select_upstream_def Let_def split: option.splits if_splits prod.splits connect_outcome.splits)
    then have "keeps cfg ?st1 st'"
      using handle_http_keeps by (auto simp: keeps_def proxy_inv_def route_tables_def)
    with k show ?thesis by (rule keeps_trans)
  qed
qed

lemma http_proxy_keeps: "http_proxy L cfg now req peer st = Some (r, st') \<Longrightarrow> keeps cfg st st'"
  by (auto simp: http_proxy_def dest!: verify_keeps split: option.splits sum.splits)

lemma https_proxy_keeps:
  assumes "https_proxy L cfg env now late req peer st = Some (out, sent, st')"
  shows "keeps cfg st st'"
  using assms
proof (cases rule: https_proxy_stages)
  case (refused r)
  then show ?thesis by (blast intro: verify_keeps)
next
  case (blocked st1 r)
  then show ?thesis by (blast intro: verify_keeps inspect_body_keeps keeps_trans)
next
  case stalled
  then show ?thesis by (blast intro: verify_keeps)
next
  case (routed st1 final d st3)
  have "keeps cfg st st3" using routed(1,3) by (blast intro: verify_keeps dispatch_keeps keeps_trans)
  with routed(4) show ?thesis by (auto split: dispatched.splits)
qed

end
