(* ===== verification/Serving.thy ===== *)
theory Serving
  imports Proxy
begin

text \<open>
  What the HTTPS handler promises: what it sends upstream, what it answers, what it leaves of the
  shared tables, and when it does not return. The proofs rest on the three stages of the handler
  (\<open>https_proxy_stages\<close>) and on the lemmas of the components that the stages call.
\<close>

section \<open>Stages\<close>

lemma verified_state:
  assumes "verify_request L cfg now req peer st = Some (Inr (), st1)"
  shows "st_vhosts st1 = st_vhosts st" "st_health st1 = st_health st" "st_buckets st1 = st_buckets st"
    "st_bans st1 = st_bans st"
  using assms unfolding verify_accepts by auto

lemma verified_conditions:
  assumes "verify_request L cfg now req peer st = Some (Inr (), st1)"
  shows "protocol_checks req = Inr ()" "allowed_method (rq_method req)"
    "hdr_len (rq_headers req) \<le> unat (max_header_count (limits cfg))"
    "uri_len (rq_uri req) \<le> unat (max_uri_size (limits cfg))"
    "waf_header L (rq_uri req) (rq_method req) (rq_headers req) = Inr ()"
  using assms unfolding verify_accepts by (simp_all add: verify_table_def)

lemma sent_ignores_body: "ws_upstream_request (req\<lparr>rq_body := b\<rparr>) = ws_upstream_request req"
  by (simp add: ws_upstream_request_def)

text \<open>The request that leaves the inspection: the same but for the buffered body.\<close>

definition inspected :: "waf_lib \<Rightarrow> 'r config \<Rightarrow> upstream_env \<Rightarrow> request \<Rightarrow> request \<Rightarrow> bool" where
  "inspected L cfg env req final \<longleftrightarrow>
     (if buffers_body (rq_method req)
      then \<exists>bs. collect_limited env (max_body_size (limits cfg)) (rq_body req) = Collected bs \<and>
             waf_body L (rq_headers req) bs = Inr () \<and> final = req\<lparr>rq_body := full_stream bs\<rparr>
      else final = req)"

lemma inspected_same:
  "inspected L cfg env req final \<Longrightarrow> rq_uri final = rq_uri req \<and> rq_headers final = rq_headers req"
  by (auto simp: inspected_def split: if_splits)

text \<open>What every answer outside an upgrade looks like.\<close>

definition masked_body :: "waf_lib \<Rightarrow> box_body \<Rightarrow> bool" where
  "masked_body L body \<longleftrightarrow> body = Empty \<or>
     (\<exists>original masked. body = Full (as_bytes masked) \<and> free_of (w_unicode L) card_re None masked \<and>
        (no_at_chain original \<longrightarrow> free_of (w_unicode L) email_re None masked) \<and>
        masked = mask_sensitive_info (w_regex L) original)"

definition clean_reply :: "waf_lib \<Rightarrow> reply \<Rightarrow> bool" where
  "clean_reply L r \<longleftrightarrow>
     (\<forall>k \<in> set stripped_headers. hdr_get_all (rs_headers (fst r)) k = []) \<and>
     (\<forall>(k, v) \<in> set security_headers. hdr_get_all (rs_headers (fst r)) k = [v]) \<and>
     (\<forall>ct. header_text (w_http L) (rs_headers (fst r)) (lit ''content-type'') = Some ct \<and>
        is_text_type (w_unicode L) ct \<longrightarrow> masked_body L (snd r))"

lemma sanitized_clean:
  assumes "rs_headers (fst r) = sanitize_response_headers hs"
    and "\<And>ct. header_text (w_http L) (sanitize_response_headers hs) (lit ''content-type'') = Some ct \<Longrightarrow>
       is_text_type (w_unicode L) ct \<Longrightarrow> masked_body L (snd r)"
  shows "clean_reply L r"
proof -
  have "hdr_get_all (sanitize_response_headers hs) k = [v]" if kv: "(k, v) \<in> set security_headers" for k v
  proof -
    have "map_of security_headers k = Some v" using kv security_names_distinct by (rule map_of_is_SomeI [rotated])
    moreover have "k \<in> fst ` set security_headers" using kv by force
    moreover from this have "k \<notin> set stripped_headers" using security_not_stripped by blast
    ultimately show ?thesis by (simp add: sanitized_fields)
  qed
  then show ?thesis using assms by (auto simp: clean_reply_def sanitized_fields)
qed

lemma error_clean: "clean_reply L (error_response status)"
  by (rule sanitized_clean [where hs = "[]"]) (simp_all add: error_response_def masked_body_def)

lemma dlp_masks:
  assumes "waf_contracts L" and "header_text (w_http L) hs (lit ''content-type'') = Some ct"
    and "is_text_type (w_unicode L) ct" and "apply_dlp L rrs lm hs b = (Some body, lm')"
  shows "masked_body L body"
proof -
  have "free_of (w_unicode L) card_re None (mask_sensitive_info (w_regex L) t)" for t
    unfolding mask_sensitive_info_def Let_def
    by (rule regex_engine.card_pass [OF waf_contractsD(1) [OF assms(1)]])
  moreover have "no_at_chain t \<longrightarrow> free_of (w_unicode L) email_re None (mask_sensitive_info (w_regex L) t)" for t
    using emails_pass_both [OF waf_contractsD(1) [OF assms(1)]] by blast
  ultimately show ?thesis
    using assms(2-4) by (auto simp: apply_dlp_def masked_body_def Let_def split: drive_end.splits prod.splits)
qed

lemma handle_http_clean:
  assumes "waf_contracts L" and "handle_http L env req addr ip bw lm = (h, lm')" and "result h = Some (Reply r)"
  shows "clean_reply L r"
proof (cases "client_request env (upstream_request (w_http L) addr req)")
  case None
  with assms show ?thesis by (auto simp: handle_http_def)
next
  case (Some a)
  show ?thesis
  proof (cases a)
    case NoAnswer
    with Some assms show ?thesis by (auto simp: handle_http_def error_clean)
  next
    case (Answered parts body)
    with Some assms obtain final lm2 where
      d: "apply_dlp L (dlp_readings env) lm (sanitize_response_headers (rs_headers parts)) (throttled_new body ip bw)
        = (Some final, lm2)"
      and r: "rs_headers (fst r) = sanitize_response_headers (rs_headers parts)" "snd r = final"
      by (auto simp: handle_http_def Let_def split: option.splits prod.splits)
    show ?thesis using dlp_masks [OF assms(1) _ _ d] r by (intro sanitized_clean) simp_all
  qed
qed

lemma dispatch_clean:
  assumes "waf_contracts L" and "\<not> is_websocket (w_http L) (rq_headers req)"
    and "dispatch L env req ip bw st = (Finished (Reply r), sent, st')"
  shows "clean_reply L r"
  using assms(2,3) handle_http_clean [OF assms(1)]
  by (auto simp: dispatch_def of_handled_def Let_def split: option.splits prod.splits)

text \<open>
  What a sent request has gone through: the protocol checks and the limits, the firewall's first phase
  and, if its body is buffered, its second; and where it goes.
\<close>

lemma forwarded_verified:
  assumes "waf_contracts L" and "proxy_inv cfg st" and "\<forall>c \<in> set (target_of (rq_uri req)). is_scalar c"
    and "https_proxy L cfg env now late req peer st = Some (out, sent, st')" and "r \<in> set sent"
  shows "protocol_checks req = Inr () \<and> allowed_method (rq_method req) \<and>
     \<not> has_traversal (normalize_url (target_of (rq_uri req))) \<and>
     \<not> has_injection (normalize_url (target_of (rq_uri req))) \<and>
     (\<exists>vh p ups addr final. inspected L cfg env req final \<and> r = sent_to (w_http L) addr final \<and>
        map_of (st_vhosts st) (get_host (w_http L) (rq_uri req) (rq_headers req)) = Some vh \<and>
        longest_route (routers vh) (uri_path (rq_uri req)) (p, ups) \<and>
        is_healthy (st_health st) addr \<and> (length ups < 2 ^ 64 \<longrightarrow> addr \<in> set ups))"
  using assms(4)
proof (cases rule: https_proxy_stages)
  case (routed st1 final d st3)
  note v = verified_state [OF routed(1)] and c = verified_conditions [OF routed(1)]
  have ins: "inspected L cfg env req final"
    using inspect_body_passed [OF routed(2)] by (simp add: inspected_def)
  note same = inspected_same [OF ins]
  obtain vh p ups c addr where
    vh: "map_of (st_vhosts st) (get_host (w_http L) (rq_uri req) (rq_headers req)) = Some vh"
    and route: "find_route (routers_state vh) (uri_path (rq_uri req)) (routers vh) = Some (p, ups, c)"
    and a: "fst (select_upstream ups c (st_health st)) = Some addr" and r: "r = sent_to (w_http L) addr final"
    using dispatch_sent [OF routed(3) assms(5)] same v by metis
  have "vhost_wf vh" using assms(2) map_of_SomeD [OF vh] by (auto simp: proxy_inv_def)
  then have "longest_route (routers vh) (uri_path (rq_uri req)) (p, ups)"
    using route find_route_iff by blast
  moreover have "is_healthy (st_health st) addr \<and> (length ups < 2 ^ 64 \<longrightarrow> addr \<in> set ups)"
    using a select_upstream_Some by (metis prod.collapse)
  moreover have "\<not> has_traversal (normalize_url (target_of (rq_uri req)))"
    "\<not> has_injection (normalize_url (target_of (rq_uri req)))"
    using c(5) header_phase_iff [OF assms(1,3)] by blast+
  ultimately show ?thesis using c(1,2) ins r vh by blast
qed (use assms(5) in simp_all)

text \<open>Of the configuration the handler reads the limits and the ban times only.\<close>

lemma https_proxy_config:
  assumes "limits cfg' = limits cfg" and "bans cfg' = bans cfg"
  shows "https_proxy L cfg' env now late req peer st = https_proxy L cfg env now late req peer st"
  by (simp only: https_proxy_def verify_request_def inspect_body_def refuse_def assms)

lemma upstream_body: "rq_body (upstream_request H addr req) = rq_body req"
  by (simp add: upstream_request_def Let_def split: option.splits)

text \<open>The body with which a request goes upstream.\<close>

lemma sent_body:
  assumes "inspected L cfg env req final" and "r = sent_to (w_http L) addr final"
  shows "if is_websocket (w_http L) (rq_headers req) then rq_body r = []
     else if buffers_body (rq_method req)
     then \<exists>bs. collect_limited env (max_body_size (limits cfg)) (rq_body req) = Collected bs \<and>
            waf_body L (rq_headers req) bs = Inr () \<and> rq_body r = full_stream bs
     else rq_body r = rq_body req"
  using assms
  by (auto simp: inspected_def sent_to_def upstream_body ws_upstream_request_def split: if_splits)

text \<open>While the ban times are in the range of the clock nothing panics.\<close>

lemma handlers_do_not_panic:
  assumes "\<forall>v. (snd now + from_secs (unat (violation_secs (bans cfg) v))) div nanos_per_sec < 2 ^ 63"
    and "\<forall>v. (late + from_secs (unat (violation_secs (bans cfg) v))) div nanos_per_sec < 2 ^ 63"
  shows "http_proxy L cfg now req peer st \<noteq> None \<and> https_proxy L cfg env now late req peer st \<noteq> None"
proof -
  have p: "punish ip v (bans cfg) (snd now) m = None \<longleftrightarrow> False" "punish ip v (bans cfg) late m = None \<longleftrightarrow> False" for ip v m
    using assms by (simp_all add: punish_def ban_def instant_add_def Let_def)
  have v: "verify_request L cfg now req peer st = None \<longleftrightarrow> False"
    by (simp add: verify_request_table refuse_def Let_def p split: prod.splits option.splits)
  have b: "inspect_body L cfg env late req ip st1 = None \<longleftrightarrow> False" for ip st1
    by (simp add: inspect_body_def p split: option.splits sum.splits collected.splits)
  show ?thesis
    by (simp add: http_proxy_def https_proxy_def Let_def v b p
        split: option.splits sum.splits prod.splits dispatched.splits inspection.splits)
qed

text \<open>Which results the dispatch can have.\<close>

lemma dispatch_outcome:
  assumes "dispatch L env req ip bw st = (Finished out, sent, st')"
  shows "case out of Reply r \<Rightarrow> True | Unfinished \<Rightarrow> False
     | HyperError \<Rightarrow> is_websocket (w_http L) (rq_headers req) \<and> (\<exists>addr. ws_handshake env addr = Some False)"
proof -
  have h: "result h = Some out \<Longrightarrow> \<exists>r. out = Reply r" if "handle_http L env q addr i b lm = (h, lm')" for q addr i b lm h lm'
    using that by (auto simp: handle_http_def Let_def split: option.splits upstream_outcome.splits prod.splits)
  have w: "result (handle_websocket env q addr i b) = Some out \<Longrightarrow>
      (\<exists>r. out = Reply r) \<or> out = HyperError \<and> ws_handshake env addr = Some False" for q addr i b
    by (auto simp: handle_websocket_def Let_def split: option.splits bool.splits upstream_outcome.splits if_splits)
  show ?thesis
    using assms by (auto simp: dispatch_def of_handled_def Let_def split: option.splits prod.splits connect_outcome.splits if_splits
      dest!: h w)
qed

section \<open>Properties\<close>

text \<open>
  C2: every answer of the HTTPS handler to a request that is no upgrade is sanitised and masked. It has
  none of the stripped headers and all security headers with their values, and if it declares text
  its body is empty or the masked text, without card numbers and (chained addresses aside) without
  addresses. The plain handler's redirect is not covered: it is bare (\<open>Pipeline.redirect_bare\<close>).
\<close>

theorem answers_sanitised:
  assumes "waf_contracts L" and "\<not> is_websocket (w_http L) (rq_headers req)"
    and "https_proxy L cfg env now late req peer st = Some (Reply r, sent, st')"
  shows "clean_reply L r"
  using assms(3)
proof (cases rule: https_proxy_stages)
  case (refused r')
  then show ?thesis using error_clean by (auto elim: verify_refuses)
next
  case (blocked st1 r')
  then show ?thesis
    using error_clean by (auto simp: inspect_body_def split: if_splits option.splits sum.splits collected.splits)
next
  case stalled
  then show ?thesis by simp
next
  case (routed st1 final d st3)
  have "rq_headers final = rq_headers req"
    using inspect_body_passed [OF routed(2)] by (auto split: if_splits)
  with assms(2) have "\<not> is_websocket (w_http L) (rq_headers final)" by simp
  from dispatch_clean [OF assms(1) this, of env _ _ st1 r] routed(3,4) show ?thesis
    using error_clean [of L] by (cases d) simp_all
qed

text \<open>
  C35: an \<open>Upgrade\<close> header switches sanitation and masking off. If a request that names \<open>websocket\<close>
  in it is answered by the upstream with any status but 101, the answer's headers and its body go to
  the client as they came, throttled but neither sanitised nor masked.
\<close>

theorem upgrade_bypasses_masking:
  assumes "is_websocket (w_http L) (rq_headers req)"
    and "ws_request env (ws_upstream_request req) = Some (Answered parts s)"
    and "rs_status parts \<noteq> SWITCHING_PROTOCOLS"
    and "https_proxy L cfg env now late req peer st = Some (out, sent, st')" and "sent \<noteq> []"
  shows "out = Reply (parts, Throttled (throttled_new s (client_of L req peer) (max_bandwidth (limits cfg))))"
  using assms(4)
proof (cases rule: https_proxy_stages)
  case (routed st1 final d st3)
  let ?h = "\<lambda>addr. handle_websocket env final addr (client_of L req peer) (max_bandwidth (limits cfg))"
  have ins: "inspected L cfg env req final"
    using inspect_body_passed [OF routed(2)] by (simp add: inspected_def)
  then have "ws_upstream_request final = ws_upstream_request req"
    by (auto simp: inspected_def sent_ignores_body split: if_splits)
  then have h: "forwarded (?h addr) \<noteq> [] \<Longrightarrow> of_handled (?h addr) =
      Finished (Reply (parts, Throttled (throttled_new s (client_of L req peer) (max_bandwidth (limits cfg)))))" for addr
    using assms(2,3) by (auto simp: handle_websocket_def of_handled_def Let_def split: option.splits bool.splits)
  have "is_websocket (w_http L) (rq_headers final)" using assms(1) inspected_same [OF ins] by simp
  then obtain addr where "d = of_handled (?h addr)" "sent = forwarded (?h addr)"
    using routed(3) assms(5)
    by (auto simp: dispatch_def Let_def split: option.splits prod.splits connect_outcome.splits)
  with h assms(5) routed(4) show ?thesis by simp
qed (use assms(5) in simp_all)

text \<open>
  C12: the handlers keep the shared tables in order. Whatever a request does and however it is
  answered, no window then counts more than the limit, every bucket is within its bounds and every
  virtual host is as the loader built it; the routes and the health table are untouched.
\<close>

theorem handlers_keep_invariant:
  assumes "proxy_inv cfg st"
  shows "(\<forall>r st'. http_proxy L cfg now req peer st = Some (r, st') \<longrightarrow>
       proxy_inv cfg st' \<and> route_tables st' = route_tables st \<and> st_health st' = st_health st) \<and>
     (\<forall>out sent st'. https_proxy L cfg env now late req peer st = Some (out, sent, st') \<longrightarrow>
       proxy_inv cfg st' \<and> route_tables st' = route_tables st \<and> st_health st' = st_health st)"
  using http_proxy_keeps [of L cfg now req peer st] https_proxy_keeps [of L cfg env now late req peer st] assms
  by (simp add: keeps_def)

text \<open>
  C13: when the handlers return. While every configured ban time, counted from the readings, stays in
  the range of an instant, no request ends the process. The plain handler then answers every request.
  The HTTPS handler answers as well, with two exceptions: a request whose body it buffers and whose
  client stops sending holds it forever, with nothing sent and nobody punished; and an upgrade whose
  handshake with the upstream fails gives an error of the connection.
\<close>

theorem handlers_return:
  assumes "\<forall>v. (snd now + from_secs (unat (violation_secs (bans cfg) v))) div nanos_per_sec < 2 ^ 63"
    and "\<forall>v. (late + from_secs (unat (violation_secs (bans cfg) v))) div nanos_per_sec < 2 ^ 63"
  shows "(\<exists>r st'. http_proxy L cfg now req peer st = Some (r, st')) \<and>
     (\<exists>out sent st'. https_proxy L cfg env now late req peer st = Some (out, sent, st') \<and>
        (case out of
           Reply r \<Rightarrow> True
         | Unfinished \<Rightarrow> buffers_body (rq_method req) \<and> sent = [] \<and> st_bans st' = st_bans st \<and>
             collect_limited env (max_body_size (limits cfg)) (rq_body req) = CollectPending
         | HyperError \<Rightarrow> is_websocket (w_http L) (rq_headers req) \<and> (\<exists>addr. ws_handshake env addr = Some False)))"
proof -
  from handlers_do_not_panic [OF assms] obtain r st1 where http: "http_proxy L cfg now req peer st = Some (r, st1)" by fast
  from handlers_do_not_panic [OF assms] obtain out sent st' where
    h: "https_proxy L cfg env now late req peer st = Some (out, sent, st')" by (metis option.exhaust prod_cases3)
  have "(case out of
           Reply r \<Rightarrow> True
         | Unfinished \<Rightarrow> buffers_body (rq_method req) \<and> sent = [] \<and> st_bans st' = st_bans st \<and>
             collect_limited env (max_body_size (limits cfg)) (rq_body req) = CollectPending
         | HyperError \<Rightarrow> is_websocket (w_http L) (rq_headers req) \<and> (\<exists>addr. ws_handshake env addr = Some False))"
    using h
  proof (cases rule: https_proxy_stages)
    case (routed st1 final d st3)
    have "rq_headers final = rq_headers req"
      using inspected_same inspect_body_passed [OF routed(2)] by (auto simp: inspected_def split: if_splits)
    with routed(3,4) dispatch_outcome [of L env final "client_of L req peer" "max_bandwidth (limits cfg)" st1 out sent st3] show ?thesis
      by (cases d) (auto split: outcome.splits)
  qed (simp_all add: verified_state(4))
  with http h show ?thesis by blast
qed

text \<open>
  C14: the body stage. Let a verified request be one whose body is buffered, that is, a POST, PUT or
  PATCH. While the body has not been collected, the handler has no result, sends nothing and punishes
  nobody. If the collection completes, a body that fails or exceeds the limit is answered with 413
  and its client punished for a protocol violation; one that the firewall refuses is answered with
  403 and its client punished for it. In both cases nothing is sent upstream.
\<close>

theorem body_stage_exact:
  assumes "body_collector (collect_limited env)" and "verify_request L cfg now req peer st = Some (Inr (), st1)"
    and "buffers_body (rq_method req)"
  shows "if collect_limited env (max_body_size (limits cfg)) (rq_body req) = CollectPending
     then https_proxy L cfg env now late req peer st = Some (Unfinished, [], st1)
     else (stream_fails (rq_body req) \<or> unat (max_body_size (limits cfg)) < length (stream_data (rq_body req)) \<longrightarrow>
       https_proxy L cfg env now late req peer st =
         map_option (\<lambda>m. (Reply (error_response PAYLOAD_TOO_LARGE), [], st1\<lparr>st_bans := m\<rparr>))
           (punish (client_of L req peer) Protocol (bans cfg) late (st_bans st))) \<and>
     (\<not> stream_fails (rq_body req) \<and> length (stream_data (rq_body req)) \<le> unat (max_body_size (limits cfg)) \<and>
      waf_body L (rq_headers req) (stream_data (rq_body req)) \<noteq> Inr () \<longrightarrow>
       https_proxy L cfg env now late req peer st =
         map_option (\<lambda>m. (Reply (error_response FORBIDDEN), [], st1\<lparr>st_bans := m\<rparr>))
           (punish (client_of L req peer) Waf (bans cfg) late (st_bans st)))"
proof (cases "collect_limited env (max_body_size (limits cfg)) (rq_body req) = CollectPending")
  case True
  with assms(2,3) show ?thesis by (simp add: https_proxy_def inspect_body_def Let_def)
next
  case False
  note c = body_collector.collect_spec [OF assms(1) False]
  note b = verified_state(4) [OF assms(2)]
  have e: "https_proxy L cfg env now late req peer st =
      map_option (\<lambda>m. (Reply r, [], st1\<lparr>st_bans := m\<rparr>)) (punish (client_of L req peer) v (bans cfg) late (st_bans st))"
    if "inspect_body L cfg env late req (client_of L req peer) st1 =
      map_option (\<lambda>m. (Refused r, st1\<lparr>st_bans := m\<rparr>)) (punish (client_of L req peer) v (bans cfg) late (st_bans st))" for r v
    using that assms(2) by (simp add: https_proxy_def client_of_def Let_def split: option.splits)
  have s: "(case (if t then CollectFailed else Collected d) of CollectPending \<Rightarrow> x | CollectFailed \<Rightarrow> y | Collected bs \<Rightarrow> z bs)
      = (if t then y else z d)" for t d and x y :: 'x and z by simp
  show ?thesis
    unfolding if_not_P [OF False]
    using assms(3) b by (intro conjI impI e) (auto simp: inspect_body_def c s sum_unit_cases split: option.splits)
qed

text \<open>
  Only those three methods have their body inspected or measured. The body of any other request is
  forwarded as the client sends it, also when it is longer than the configured limit.
\<close>

theorem unbuffered_body_forwarded:
  assumes "\<not> buffers_body (rq_method req)" and "\<not> is_websocket (w_http L) (rq_headers req)"
    and "https_proxy L cfg env now late req peer st = Some (out, sent, st')" and "r \<in> set sent"
  shows "rq_body r = rq_body req"
  using assms(3)
proof (cases rule: https_proxy_stages)
  case (routed st1 final d st3)
  have f: "final = req" using inspect_body_passed [OF routed(2)] assms(1) by simp
  obtain addr where "r = sent_to (w_http L) addr final" using dispatch_sent [OF routed(3) assms(4)] by blast
  with assms(2) show ?thesis unfolding f by (simp add: sent_to_def upstream_body)
qed (use assms(4) in simp_all)

text \<open>
  C36: a large text answer gets its client banned. When bandwidth is limited and the upstream answers
  with a text whose first frame is longer than two seconds of the rate, the frame is never granted,
  the answer is never complete, the deadline passes, and the client, which did nothing but ask,
  is answered 504 and banned for a timeout.
\<close>

theorem large_answer_bans_client:
  assumes "proxy_inv cfg st" and "verify_request L cfg now req peer st = Some (Inr (), st1)"
    and "\<not> buffers_body (rq_method req)" and "\<not> is_websocket (w_http L) (rq_headers req)"
    and "\<forall>q. client_request env q = Some (Answered parts (Ready (Data d) # rest))"
    and "header_text (w_http L) (sanitize_response_headers (rs_headers parts)) (lit ''content-type'') = Some ct"
    and "is_text_type (w_unicode L) ct"
    and "max_bandwidth (limits cfg) \<noteq> 0" and "2 * f64_of_u64 (max_bandwidth (limits cfg)) < f64_of_u64 (of_nat (length d))"
    and "https_proxy L cfg env now late req peer st = Some (out, sent, st')" and "sent \<noteq> []"
    and "violation_secs (bans cfg) Timeout \<noteq> 0"
  shows "out = Reply (error_response GATEWAY_TIMEOUT) \<and>
     fst (ban_check (late + from_secs (unat (violation_secs (bans cfg) Timeout))) (client_of L req peer) (st_bans st'))"
  using assms(10)
proof (cases rule: https_proxy_stages)
  case (routed st1' final d' st3)
  let ?ip = "client_of L req peer" and ?bw = "max_bandwidth (limits cfg)"
  have st1': "st1' = st1" using routed(1) assms(2) by simp
  have final: "final = req" using inspect_body_passed [OF routed(2)] assms(3) by simp
  have inv: "limiter_inv ?bw (st_buckets st1')"
    using assms(1) verified_state(3) [OF routed(1)] by (simp add: proxy_inv_def)
  have dlp: "fst (apply_dlp L (dlp_readings env) lm (sanitize_response_headers (rs_headers parts))
      (throttled_new (Ready (Data d) # rest) ?ip ?bw)) = None" if "limiter_inv ?bw lm" for lm
    using drive_oversized [of "throttled_new (Ready (Data d) # rest) ?ip ?bw" lm d rest "dlp_readings env"] that assms(6-9)
    by (auto simp: apply_dlp_def throttled_new_def Let_def)
  have "d' = Deadline"
    using routed(3) assms(4,5,11) inv dlp [of "st_buckets st1'"] unfolding final
    by (auto simp: dispatch_def handle_http_def of_handled_def Let_def split: option.splits prod.splits)
  then obtain m where "punish ?ip Timeout (bans cfg) late (st_bans st3) = Some m" "st_bans st' = m"
    "out = Reply (error_response GATEWAY_TIMEOUT)" using routed(4) by auto
  with assms(12) show ?thesis
    using bans.punished_is_banned [OF \<open>punish ?ip Timeout (bans cfg) late (st_bans st3) = Some m\<close>, of "[]"]
    by (simp add: unat_gt_0)
qed (use assms(11) in simp_all)

section \<open>Witnesses\<close>

definition page_request :: request where
  "page_request = plain_request\<lparr>rq_uri := (rq_uri plain_request)\<lparr>uri_host := Some (lit ''Ex.org'')\<rparr>\<rparr>"

definition upgrade_request :: request where
  "upgrade_request = page_request\<lparr>rq_headers := [(lit ''upgrade'', blit ''websocket'')]\<rparr>"

definition posting_request :: request where
  "posting_request = page_request\<lparr>rq_method := POST, rq_body := [Ready (Data (blit ''MZ'')), Failed]\<rparr>"

definition page_parts :: response where
  "page_parts = \<lparr>rs_status = OtherStatus 200, rs_version = HTTP_11,
     rs_headers = [(lit ''server'', blit ''nginx''), (lit ''content-type'', blit ''text/html'')]\<rparr>"

definition demo_net :: upstream_env where
  "demo_net = \<lparr>collect_limited = (\<lambda>n. collect_frames (unat n)), tcp_connect = (\<lambda>_. Some Connected),
     client_request = (\<lambda>_. Some (Answered page_parts [Ready (Data big_chunk)])), ws_handshake = (\<lambda>_. Some True),
     ws_request = (\<lambda>_. Some (Answered page_parts [Ready (Data big_chunk)])), dlp_readings = demo_readings\<rparr>"

definition slow_config :: "(ustr \<rightharpoonup> certified_key) config" where
  "slow_config = demo_config\<lparr>limits := (limits demo_config)\<lparr>max_bandwidth := 10\<rparr>\<rparr>"

lemma page_answered:
  obtains r q st' where
    "https_proxy waf_ref demo_config demo_net demo_now 0 page_request demo_peer demo_state = Some (Reply r, [q], st')"
proof -
  have "case https_proxy waf_ref demo_config demo_net demo_now 0 page_request demo_peer demo_state of
      Some (Reply r, [q], st') \<Rightarrow> True | _ \<Rightarrow> False" by code_simp
  then show ?thesis using that by (auto split: option.splits prod.splits outcome.splits list.splits)
qed

lemma demo_inv:
  assumes "cfg_vhosts cfg = cfg_vhosts demo_config"
  shows "proxy_inv cfg demo_state"
  by (simp add: proxy_inv_def demo_state_def demo_vhosts)
    (rule vhost_of_raw_wf, simp add: demo_raw_def)

lemma page_scalar: "\<forall>c \<in> set (target_of (rq_uri page_request)). is_scalar c"
  by (simp add: page_request_def plain_request_def target_of_def is_scalar_def)

theorem answers_sanitised_witness:
  "\<exists>r sent st'. https_proxy waf_ref demo_config demo_net demo_now 0 page_request demo_peer demo_state = Some (Reply r, sent, st')
     \<and> clean_reply waf_ref r"
proof -
  obtain r q st' where
    r: "https_proxy waf_ref demo_config demo_net demo_now 0 page_request demo_peer demo_state = Some (Reply r, [q], st')"
    by (rule page_answered)
  have "\<not> is_websocket (w_http waf_ref) (rq_headers page_request)" by code_simp
  from answers_sanitised [OF waf_ref_contracts this r] r show ?thesis by blast
qed

theorem unbuffered_body_forwarded_witness:
  "\<exists>r q st'. https_proxy waf_ref demo_config demo_net demo_now 0 page_request demo_peer demo_state = Some (Reply r, [q], st')
     \<and> rq_body q = rq_body page_request"
proof -
  obtain r q st' where
    r: "https_proxy waf_ref demo_config demo_net demo_now 0 page_request demo_peer demo_state = Some (Reply r, [q], st')"
    by (rule page_answered)
  have "\<not> buffers_body (rq_method page_request)" "\<not> is_websocket (w_http waf_ref) (rq_headers page_request)"
    by code_simp+
  from unbuffered_body_forwarded [OF this r, of q] r show ?thesis by simp
qed

theorem upgrade_bypasses_masking_witness:
  "\<exists>sent st'. https_proxy waf_ref demo_config demo_net demo_now 0 upgrade_request demo_peer demo_state =
     Some (Reply (page_parts, Throttled (throttled_new [Ready (Data big_chunk)] (V4 203 0 113 9) 0)), sent, st')"
proof -
  have "case https_proxy waf_ref demo_config demo_net demo_now 0 upgrade_request demo_peer demo_state of
      Some (out, [q], st') \<Rightarrow> True | _ \<Rightarrow> False" by code_simp
  then obtain out q st' where
    h: "https_proxy waf_ref demo_config demo_net demo_now 0 upgrade_request demo_peer demo_state = Some (out, [q], st')"
    by (auto split: option.splits prod.splits list.splits)
  have w: "is_websocket (w_http waf_ref) (rq_headers upgrade_request)" by code_simp
  have c: "client_of waf_ref upgrade_request demo_peer = V4 203 0 113 9" by code_simp
  have bw: "max_bandwidth (raw_limit demo_raw) = 0" by (simp add: demo_raw_def)
  have a: "ws_request demo_net (ws_upstream_request upgrade_request) = Some (Answered page_parts [Ready (Data big_chunk)])"
    "rs_status page_parts \<noteq> SWITCHING_PROTOCOLS" by (simp_all add: demo_net_def page_parts_def)
  from upgrade_bypasses_masking [OF w a h] h
  show ?thesis by (simp add: c bw)
qed

theorem handlers_keep_invariant_witness:
  "\<exists>out sent st'. https_proxy waf_ref demo_config demo_net demo_now 0 page_request demo_peer demo_state = Some (out, sent, st')
     \<and> proxy_inv demo_config st'"
proof -
  obtain r q st' where
    r: "https_proxy waf_ref demo_config demo_net demo_now 0 page_request demo_peer demo_state = Some (Reply r, [q], st')"
    by (rule page_answered)
  with handlers_keep_invariant [OF demo_inv [OF refl], of waf_ref demo_now page_request demo_peer demo_net 0]
  show ?thesis by blast
qed

theorem handlers_return_witness:
  "\<exists>out sent st'. https_proxy waf_ref demo_config demo_net demo_now 5 posting_request demo_peer demo_state = Some (out, sent, st')
     \<and> out \<noteq> Unfinished"
proof -
  have "(\<exists>r st'. http_proxy waf_ref demo_config demo_now posting_request demo_peer demo_state = Some (r, st')) \<and>
     (\<exists>out sent st'. https_proxy waf_ref demo_config demo_net demo_now 5 posting_request demo_peer demo_state = Some (out, sent, st') \<and>
        (case out of
           Reply r \<Rightarrow> True
         | Unfinished \<Rightarrow> buffers_body (rq_method posting_request) \<and> sent = [] \<and> st_bans st' = st_bans demo_state \<and>
             collect_limited demo_net (max_body_size (limits demo_config)) (rq_body posting_request) = CollectPending
         | HyperError \<Rightarrow> is_websocket (w_http waf_ref) (rq_headers posting_request) \<and> (\<exists>addr. ws_handshake demo_net addr = Some False)))"
    by (rule handlers_return)
      (simp_all only: demo_secs_60 [rule_format], simp_all add: demo_now_def from_secs_def nanos_per_sec_def)
  then obtain out sent st' where
    h: "https_proxy waf_ref demo_config demo_net demo_now 5 posting_request demo_peer demo_state = Some (out, sent, st')"
    and c: "out = Unfinished \<Longrightarrow> collect_limited demo_net (max_body_size (limits demo_config)) (rq_body posting_request) = CollectPending"
    by (elim conjE exE) (rule that, assumption, simp only: outcome.case)
  have "collect_limited demo_net n s \<noteq> CollectPending" for n s
    by (simp add: demo_net_def collect_frames_spec)
  with h c show ?thesis by blast
qed

theorem body_stage_exact_witness:
  "\<exists>st'. https_proxy waf_ref demo_config demo_net demo_now 5 posting_request demo_peer demo_state =
     Some (Reply (error_response PAYLOAD_TOO_LARGE), [], st')"
proof -
  have "case verify_request waf_ref demo_config demo_now posting_request demo_peer demo_state of
      Some (Inr u, st1) \<Rightarrow> True | _ \<Rightarrow> False" by code_simp
  then obtain st1 where v: "verify_request waf_ref demo_config demo_now posting_request demo_peer demo_state = Some (Inr (), st1)"
    by (auto split: option.splits prod.splits sum.splits)
  have c: "body_collector (collect_limited demo_net)"
    by (simp add: demo_net_def ref_collect.body_collector_axioms)
  have "buffers_body (rq_method posting_request)" "stream_fails (rq_body posting_request)"
    by (simp_all add: posting_request_def buffers_body_def)
  moreover have "collect_limited demo_net (max_body_size (limits demo_config)) (rq_body posting_request) \<noteq> CollectPending"
    by (simp add: demo_net_def collect_frames_spec)
  ultimately have "https_proxy waf_ref demo_config demo_net demo_now 5 posting_request demo_peer demo_state =
      map_option (\<lambda>m. (Reply (error_response PAYLOAD_TOO_LARGE), [], st1\<lparr>st_bans := m\<rparr>))
        (punish (client_of waf_ref posting_request demo_peer) Protocol (bans demo_config) 5 (st_bans demo_state))"
    using body_stage_exact [OF c v, of 5] by simp
  moreover have "punish (client_of waf_ref posting_request demo_peer) Protocol (bans demo_config) 5 (st_bans demo_state) \<noteq> None"
    by (simp add: punish_def ban_def instant_add_def violation_secs_def demo_raw_def from_secs_def nanos_per_sec_def)
  ultimately show ?thesis by auto
qed

lemma slow_limits [simp]: "max_bandwidth (limits slow_config) = 10" "bans slow_config = bans demo_config"
  by (simp_all add: slow_config_def)

theorem large_answer_bans_client_witness:
  "\<exists>sent st'. https_proxy waf_ref slow_config demo_net demo_now 5 page_request demo_peer demo_state =
       Some (Reply (error_response GATEWAY_TIMEOUT), sent, st') \<and>
     fst (ban_check 60000000005 (V4 203 0 113 9) (st_bans st'))"
proof -
  have "case verify_request waf_ref slow_config demo_now page_request demo_peer demo_state of
      Some (Inr u, st1) \<Rightarrow> True | _ \<Rightarrow> False" by code_simp
  then obtain st1 where v: "verify_request waf_ref slow_config demo_now page_request demo_peer demo_state = Some (Inr (), st1)"
    by (auto split: option.splits prod.splits sum.splits)
  have nb: "\<not> buffers_body (rq_method page_request)" and nw: "\<not> is_websocket (w_http waf_ref) (rq_headers page_request)"
    by code_simp+
  have ct: "header_text (w_http waf_ref) (sanitize_response_headers (rs_headers page_parts)) (lit ''content-type'') = Some (lit ''text/html'')"
    "is_text_type (w_unicode waf_ref) (lit ''text/html'')" by code_simp+
  have route: "case map_of (st_vhosts demo_state) (get_host (w_http waf_ref) (rq_uri page_request) (rq_headers page_request)) of
      None \<Rightarrow> False | Some vh \<Rightarrow> (case find_route (routers_state vh) (uri_path (rq_uri page_request)) (routers vh) of
        None \<Rightarrow> False | Some (p, ups, c) \<Rightarrow> fst (select_upstream ups c (st_health demo_state)) \<noteq> None)"
    by code_simp
  obtain d sent st3 where d: "dispatch waf_ref demo_net page_request (client_of waf_ref page_request demo_peer) 10 st1 = (d, sent, st3)"
    by (cases "dispatch waf_ref demo_net page_request (client_of waf_ref page_request demo_peer) 10 st1") auto
  have s: "sent \<noteq> []"
    using d route nw unfolding dispatch_def verified_state(1,2) [OF v, symmetric]
    by (auto simp: Let_def dest!: handle_http_sent split: option.splits prod.splits)
  have p: "punish ip Timeout (bans demo_config) 5 m \<noteq> None" for ip m
    by (simp add: punish_def ban_def instant_add_def violation_secs_def demo_raw_def from_secs_def nanos_per_sec_def)
  let ?ip = "client_of waf_ref page_request demo_peer"
  obtain m where m: "punish ?ip Timeout (bans slow_config) 5 (st_bans st3) = Some m"
    using p [of ?ip "st_bans st3"] by (auto simp: slow_limits)
  have "\<exists>out st'. https_proxy waf_ref slow_config demo_net demo_now 5 page_request demo_peer demo_state = Some (out, sent, st')"
    unfolding https_proxy_def v inspect_body_def client_of_def [symmetric] Let_def slow_limits(1)
    using nb d m by (cases d) simp_all
  then obtain out st' where h: "https_proxy waf_ref slow_config demo_net demo_now 5 page_request demo_peer demo_state = Some (out, sent, st')"
    by blast
  have "2 * f64_of_u64 (max_bandwidth (limits slow_config)) < f64_of_u64 (of_nat (length big_chunk))"
    by (simp add: big_chunk_def)
  note big = this
  have c: "?ip = V4 203 0 113 9" by code_simp
  have secs: "violation_secs (bans slow_config) Timeout = 60" using demo_secs_60 by simp
  have a: "\<forall>q. client_request demo_net q = Some (Answered page_parts (Ready (Data big_chunk) # []))"
    by (simp add: demo_net_def)
  have inv: "proxy_inv slow_config demo_state" by (rule demo_inv) (simp add: slow_config_def)
  from large_answer_bans_client [OF inv v nb nw a ct _ big h s] h show ?thesis
    by (simp add: c secs from_secs_def nanos_per_sec_def del: slow_limits(2))
qed

end
