(* ===== verification/Server.thy ===== *)
theory Server
  imports Serving "HOL-Library.Multiset"
begin

text \<open>
  The listeners (\<open>http_server\<close>, \<open>https_server\<close> and \<open>configure_builder\<close> in \<open>src/server.rs\<close>). A
  listener accepts connections, turns away banned addresses, waits for a permit of the semaphore that
  all listeners share, and spawns a task per connection; on cancellation it stops accepting and waits
  for its tasks. The two loops differ in the TLS handshake only, so they are one definition with a
  flag. The whole server is a step relation: one step is one branch of a loop, one change of a
  connection task, one request, one sweep, or one probe of an upstream, in any order. What the network
  does to a request and the clock readings of its handler are part of the label of its step, so two
  requests of a run may meet different answers. The semaphore is never closed, so its error branch is
  dead. A request whose handler ends the process has no step; one whose body never completes has a
  step that counts it and sends nothing.
  Steps are enabled, not forced: that a connection which shuts down gracefully comes to its end is a
  step it can take, and how soon it takes it is up to its peer.
\<close>

section \<open>State\<close>

datatype conn_phase = Handshaking | Serving_conn | Shutting_down | Finished_conn

record conn =
  cn_peer :: socket_addr
  cn_phase :: conn_phase

datatype listener_phase = Accepting | Awaiting_permit socket_addr | Draining | Stopped

record listener =
  ln_addr :: socket_addr
  ln_secure :: bool
  ln_phase :: listener_phase
  ln_conns :: "conn list"

record server_state =
  sv_proxy :: proxy_state
  sv_permits :: nat
  sv_cancelled :: bool
  sv_listeners :: "listener list"
  sv_probes :: "ustr list"    \<comment> \<open>what the health checker has left of its round\<close>

section \<open>The connection builder\<close>

record builder_settings =
  h1_header_read_timeout :: duration
  h1_max_headers :: usize
  h2_keep_alive_interval :: duration
  h2_keep_alive_timeout :: duration
  h2_max_concurrent_streams :: u32
  h2_max_header_list_size :: u32

definition configure_builder :: "'r config \<Rightarrow> builder_settings" where
  "configure_builder cfg =
     \<lparr>h1_header_read_timeout = from_secs (unat (c_header_read (timeouts cfg))),
      h1_max_headers = max_header_count (limits cfg),
      h2_keep_alive_interval = from_secs (unat (c_keep_alive_idle (timeouts cfg))),
      h2_keep_alive_timeout = from_secs (unat (c_keep_alive_timeout (timeouts cfg))),
      h2_max_concurrent_streams = c_h2_max_streams (limits cfg),
      h2_max_header_list_size = ucast (max_header_size (limits cfg))\<rparr>"

section \<open>Operations\<close>

text \<open>A listener as it starts.\<close>

definition listen :: "bool \<Rightarrow> socket_addr \<Rightarrow> listener" where
  "listen secure addr = \<lparr>ln_addr = addr, ln_secure = secure, ln_phase = Accepting, ln_conns = []\<rparr>"

text \<open>The accept branch up to the permit; \<^term>\<open>None\<close> is an error of \<open>accept\<close>.\<close>

definition accept_conn ::
  "instant \<Rightarrow> socket_addr option \<Rightarrow> listener \<Rightarrow> ban_list \<Rightarrow> listener \<times> ban_list" where
  "accept_conn now res lis m =
     (case res of
        None \<Rightarrow> (lis, m)
      | Some remote_addr \<Rightarrow>
          (case ban_check now (sock_ip remote_addr) m of (banned, m') \<Rightarrow>
             if banned then (lis, m') else (lis\<lparr>ln_phase := Awaiting_permit remote_addr\<rparr>, m')))"

text \<open>The rest of the branch, once the permit is there.\<close>

definition spawn_conn :: "socket_addr \<Rightarrow> listener \<Rightarrow> listener" where
  "spawn_conn remote_addr lis =
     lis\<lparr>ln_phase := Accepting,
        ln_conns := ln_conns lis @ [\<lparr>cn_peer = remote_addr,
          cn_phase = (if ln_secure lis then Handshaking else Serving_conn)\<rparr>]\<rparr>"

datatype handshake = Handshake_ok | Handshake_error | Handshake_timeout

datatype conn_event = Handshake_ends handshake | Connection_ends | Cancel_seen

text \<open>The task of one connection. Its permit is returned when it finishes.\<close>

fun conn_next :: "bool \<Rightarrow> conn_event \<Rightarrow> conn_phase \<Rightarrow> conn_phase option" where
  "conn_next cancelled (Handshake_ends h) Handshaking =
     Some (if h = Handshake_ok then Serving_conn else Finished_conn)"
| "conn_next cancelled Connection_ends Serving_conn = Some Finished_conn"
| "conn_next cancelled Cancel_seen Serving_conn = (if cancelled then Some Shutting_down else None)"
| "conn_next cancelled Connection_ends Shutting_down = Some Finished_conn"
| "conn_next _ _ _ = None"

text \<open>A request on a connection goes to the handler of its listener.\<close>

definition serve_request ::
  "waf_lib \<Rightarrow> 'r config \<Rightarrow> upstream_env \<Rightarrow> bool \<Rightarrow> clock \<Rightarrow> instant \<Rightarrow> request \<Rightarrow> socket_addr \<Rightarrow> proxy_state
     \<Rightarrow> (outcome \<times> proxy_state) option" where
  "serve_request L cfg env secure now late req peer st =
     (if secure then map_option (\<lambda>(out, _, st'). (out, st')) (https_proxy L cfg env now late req peer st)
      else map_option (\<lambda>(r, st'). (Reply r, st')) (http_proxy L cfg now req peer st))"

section \<open>Steps\<close>

datatype server_label =
    Accepted nat instant "socket_addr option"
  | Granted nat
  | Saw_cancel nat
  | Conn_step nat nat conn_event
  | Served nat nat upstream_env request clock instant
  | Joined nat nat
  | Stop nat
  | Cancel
  | Ban_sweep instant
  | Rate_sweep instant
  | Tick
  | Probed connect_outcome

abbreviation put_listener :: "nat \<Rightarrow> listener \<Rightarrow> server_state \<Rightarrow> server_state" where
  "put_listener i lis s \<equiv> s\<lparr>sv_listeners := (sv_listeners s)[i := lis]\<rparr>"

inductive server_step ::
  "waf_lib \<Rightarrow> 'r config \<Rightarrow> server_state \<Rightarrow> server_label \<Rightarrow> server_state \<Rightarrow> bool"
  for L cfg where
  accept: "i < length (sv_listeners s) \<Longrightarrow> lis = sv_listeners s ! i \<Longrightarrow> ln_phase lis = Accepting \<Longrightarrow>
     accept_conn now res lis (st_bans (sv_proxy s)) = (lis', m) \<Longrightarrow>
     server_step L cfg s (Accepted i now res)
       (put_listener i lis' (s\<lparr>sv_proxy := (sv_proxy s)\<lparr>st_bans := m\<rparr>\<rparr>))"
| grant: "i < length (sv_listeners s) \<Longrightarrow> lis = sv_listeners s ! i \<Longrightarrow> ln_phase lis = Awaiting_permit peer \<Longrightarrow>
     0 < sv_permits s \<Longrightarrow>
     server_step L cfg s (Granted i) (put_listener i (spawn_conn peer lis) (s\<lparr>sv_permits := sv_permits s - 1\<rparr>))"
| see_cancel: "i < length (sv_listeners s) \<Longrightarrow> lis = sv_listeners s ! i \<Longrightarrow> ln_phase lis = Accepting \<Longrightarrow>
     sv_cancelled s \<Longrightarrow>
     server_step L cfg s (Saw_cancel i) (put_listener i (lis\<lparr>ln_phase := Draining\<rparr>) s)"
| conn: "i < length (sv_listeners s) \<Longrightarrow> lis = sv_listeners s ! i \<Longrightarrow> j < length (ln_conns lis) \<Longrightarrow>
     conn_next (sv_cancelled s) ev (cn_phase (ln_conns lis ! j)) = Some ph \<Longrightarrow>
     server_step L cfg s (Conn_step i j ev)
       (put_listener i (lis\<lparr>ln_conns := (ln_conns lis)[j := (ln_conns lis ! j)\<lparr>cn_phase := ph\<rparr>]\<rparr>)
         (s\<lparr>sv_permits := sv_permits s + (if ph = Finished_conn then 1 else 0)\<rparr>))"
| serve: "i < length (sv_listeners s) \<Longrightarrow> lis = sv_listeners s ! i \<Longrightarrow> j < length (ln_conns lis) \<Longrightarrow>
     c = ln_conns lis ! j \<Longrightarrow> cn_phase c \<in> {Serving_conn, Shutting_down} \<Longrightarrow>
     serve_request L cfg env (ln_secure lis) now late req (cn_peer c) (sv_proxy s) = Some (out, st') \<Longrightarrow>
     server_step L cfg s (Served i j env req now late) (s\<lparr>sv_proxy := st'\<rparr>)"
| join: "i < length (sv_listeners s) \<Longrightarrow> lis = sv_listeners s ! i \<Longrightarrow> ln_phase lis \<in> {Accepting, Draining} \<Longrightarrow>
     j < length (ln_conns lis) \<Longrightarrow> cn_phase (ln_conns lis ! j) = Finished_conn \<Longrightarrow>
     server_step L cfg s (Joined i j)
       (put_listener i (lis\<lparr>ln_conns := take j (ln_conns lis) @ drop (Suc j) (ln_conns lis)\<rparr>) s)"
| stop: "i < length (sv_listeners s) \<Longrightarrow> lis = sv_listeners s ! i \<Longrightarrow> ln_phase lis = Draining \<Longrightarrow> ln_conns lis = [] \<Longrightarrow>
     server_step L cfg s (Stop i) (put_listener i (lis\<lparr>ln_phase := Stopped\<rparr>) s)"
| cancel: "server_step L cfg s Cancel (s\<lparr>sv_cancelled := True\<rparr>)"
| ban_sweep: "server_step L cfg s (Ban_sweep now)
     (s\<lparr>sv_proxy := (sv_proxy s)\<lparr>st_bans := ban_cleanup now (st_bans (sv_proxy s))\<rparr>\<rparr>)"
| rate_sweep: "server_step L cfg s (Rate_sweep now)
     (s\<lparr>sv_proxy := (sv_proxy s)\<lparr>st_rates := rate_cleanup now (st_rates (sv_proxy s))\<rparr>\<rparr>)"
| tick: "sv_probes s = [] \<Longrightarrow>
     server_step L cfg s Tick (s\<lparr>sv_probes := collect_upstreams (st_vhosts (sv_proxy s))\<rparr>)"
| probe: "sv_probes s = addr # rest \<Longrightarrow>
     server_step L cfg s (Probed res)
       (s\<lparr>sv_probes := rest, sv_proxy := (sv_proxy s)\<lparr>st_health :=
          snd (probe_one (\<lambda>_. res) addr (st_health (sv_proxy s)))\<rparr>\<rparr>)"

inductive server_run ::
  "waf_lib \<Rightarrow> 'r config \<Rightarrow> server_state \<Rightarrow> server_label list \<Rightarrow> server_state \<Rightarrow> bool"
  for L cfg where
  run_nil: "server_run L cfg s [] s"
| run_cons: "server_step L cfg s l s' \<Longrightarrow> server_run L cfg s' ls s'' \<Longrightarrow>
     server_run L cfg s (l # ls) s''"

inductive_simps server_run_Nil [simp]: "server_run L cfg s [] s'"
inductive_simps server_run_Cons: "server_run L cfg s (l # ls) s'"
inductive_cases server_stepE: "server_step L cfg s l s'"

section \<open>Counting\<close>

lemma sum_list_put:
  fixes f :: "'x \<Rightarrow> 'm::comm_monoid_add"
  shows "i < length xs \<Longrightarrow> sum_list (map f (xs[i := y])) + f (xs ! i) = sum_list (map f xs) + f y"
  by (induction xs arbitrary: i) (auto simp: ac_simps split: nat.splits)

lemma sum_list_drop:
  fixes f :: "'x \<Rightarrow> 'm::comm_monoid_add"
  shows "j < length xs \<Longrightarrow> sum_list (map f (take j xs @ drop (Suc j) xs)) + f (xs ! j) = sum_list (map f xs)"
  by (induction xs arbitrary: j) (auto simp: nth_Cons ac_simps split: nat.splits)

definition busy :: "conn \<Rightarrow> nat" where
  "busy c = (if cn_phase c = Finished_conn then 0 else 1)"

definition active_conns :: "listener \<Rightarrow> nat" where
  "active_conns lis = sum_list (map busy (ln_conns lis))"

definition active :: "server_state \<Rightarrow> nat" where
  "active s = sum_list (map active_conns (sv_listeners s))"

text \<open>A listener's own invariant, and that of the server with \<open>permits\<close> permits.\<close>

definition listener_wf :: "listener \<Rightarrow> bool" where
  "listener_wf lis \<longleftrightarrow> (ln_phase lis = Stopped \<longrightarrow> ln_conns lis = []) \<and>
     (\<forall>c \<in> set (ln_conns lis). cn_phase c = Handshaking \<longrightarrow> ln_secure lis)"

definition server_inv :: "'r config \<Rightarrow> nat \<Rightarrow> server_state \<Rightarrow> bool" where
  "server_inv cfg permits s \<longleftrightarrow>
     sv_permits s + active s = permits \<and> proxy_inv cfg (sv_proxy s) \<and>
     (\<forall>lis \<in> set (sv_listeners s). listener_wf lis)"

lemma put_active:
  assumes "i < length (sv_listeners s)"
  shows "active (put_listener i lis s) + active_conns (sv_listeners s ! i) = active s + active_conns lis"
  unfolding active_def using sum_list_put [OF assms] by simp

lemma active_proxy [simp]:
  "active (s\<lparr>sv_proxy := p\<rparr>) = active s" "active (s\<lparr>sv_permits := n\<rparr>) = active s"
  "active (s\<lparr>sv_cancelled := b\<rparr>) = active s" "active (s\<lparr>sv_probes := us\<rparr>) = active s"
  by (simp_all add: active_def)

lemma put_inv:
  assumes "server_inv cfg permits s" and "i < length (sv_listeners s)" and "listener_wf lis"
    and "sv_permits s' + active_conns lis = sv_permits s + active_conns (sv_listeners s ! i)"
    and "sv_listeners s' = sv_listeners s" and "proxy_inv cfg (sv_proxy s')"
  shows "server_inv cfg permits (put_listener i lis s')"
proof -
  have "active s' = active s" using assms(5) by (simp add: active_def)
  moreover have "active (put_listener i lis s') + active_conns (sv_listeners s ! i) = active s' + active_conns lis"
    using put_active [of i s' lis] assms(2,5) by simp
  ultimately have "sv_permits s' + active (put_listener i lis s') = permits"
    using assms(1,4) by (simp add: server_inv_def)
  moreover have "\<forall>x \<in> set ((sv_listeners s)[i := lis]). listener_wf x"
    using assms(1,3) set_update_subset_insert [of "sv_listeners s" i lis] by (auto simp: server_inv_def)
  ultimately show ?thesis using assms(5,6) by (simp add: server_inv_def)
qed

lemma conn_next_facts:
  assumes "conn_next b ev ph = Some ph'"
  shows "ph \<noteq> Finished_conn" "ph' \<noteq> Handshaking"
  using assms by (cases "(b, ev, ph)" rule: conn_next.cases; simp split: if_splits)+

lemma proxy_inv_bans [simp]: "proxy_inv cfg (p\<lparr>st_bans := m\<rparr>) = proxy_inv cfg p"
  by (simp add: proxy_inv_def)

lemma serve_request_inv:
  assumes "serve_request L cfg env secure now late req peer st = Some (out, st')" and "proxy_inv cfg st"
  shows "proxy_inv cfg st'"
proof (cases secure)
  case True
  with assms(1) obtain sent where "https_proxy L cfg env now late req peer st = Some (out, sent, st')"
    by (auto simp: serve_request_def)
  from https_proxy_keeps [OF this] assms(2) show ?thesis by (simp add: keeps_def)
next
  case False
  with assms(1) obtain r where "http_proxy L cfg now req peer st = Some (r, st')"
    by (auto simp: serve_request_def)
  from http_proxy_keeps [OF this] assms(2) show ?thesis by (simp add: keeps_def)
qed

text \<open>What each operation does to one listener.\<close>

lemma phase_listener:
  fixes lis :: listener
  shows
  "active_conns (lis\<lparr>ln_phase := p\<rparr>) = active_conns lis"
  "listener_wf lis \<Longrightarrow> ln_conns lis = [] \<or> p \<noteq> Stopped \<Longrightarrow> listener_wf (lis\<lparr>ln_phase := p\<rparr>)"
  by (auto simp: active_conns_def listener_wf_def)

lemma accept_conn_cases:
  assumes "accept_conn now res lis m = (lis', m')"
  shows "lis' = lis \<or> (\<exists>peer. res = Some peer \<and> \<not> fst (ban_check now (sock_ip peer) m) \<and>
     lis' = lis\<lparr>ln_phase := Awaiting_permit peer\<rparr>)"
proof (cases res)
  case None
  with assms show ?thesis by (simp add: accept_conn_def)
next
  case (Some peer)
  obtain b m2 where "ban_check now (sock_ip peer) m = (b, m2)" by fastforce
  with Some assms show ?thesis by (cases b) (simp_all add: accept_conn_def)
qed

lemma accept_conn_listener:
  assumes "accept_conn now res lis m = (lis', m')" and "listener_wf lis" and "ln_phase lis = Accepting"
  shows "listener_wf lis' \<and> active_conns lis' = active_conns lis"
  using accept_conn_cases [OF assms(1)] phase_listener [where lis = lis] assms(2) by auto

lemma spawn_conn_listener:
  "listener_wf lis \<Longrightarrow> listener_wf (spawn_conn peer lis) \<and> active_conns (spawn_conn peer lis) = Suc (active_conns lis)"
  by (simp add: spawn_conn_def listener_wf_def active_conns_def busy_def)

lemma conn_listener:
  assumes "listener_wf lis" and "j < length (ln_conns lis)" and "conn_next b ev (cn_phase (ln_conns lis ! j)) = Some ph"
  shows "listener_wf (lis\<lparr>ln_conns := (ln_conns lis)[j := (ln_conns lis ! j)\<lparr>cn_phase := ph\<rparr>]\<rparr>) \<and>
     active_conns lis = (if ph = Finished_conn then 1 else 0) +
       active_conns (lis\<lparr>ln_conns := (ln_conns lis)[j := (ln_conns lis ! j)\<lparr>cn_phase := ph\<rparr>]\<rparr>)"
proof -
  let ?c = "ln_conns lis ! j" and ?cs = "(ln_conns lis)[j := (ln_conns lis ! j)\<lparr>cn_phase := ph\<rparr>]"
  have "sum_list (map busy ?cs) + busy ?c = sum_list (map busy (ln_conns lis)) + busy (?c\<lparr>cn_phase := ph\<rparr>)"
    by (rule sum_list_put [OF assms(2)])
  moreover have "busy ?c = 1" using conn_next_facts(1) [OF assms(3)] by (simp add: busy_def)
  ultimately have "active_conns lis = (if ph = Finished_conn then 1 else 0) + active_conns (lis\<lparr>ln_conns := ?cs\<rparr>)"
    by (simp add: active_conns_def busy_def split: if_splits)
  moreover have "cn_phase c = Handshaking \<Longrightarrow> ln_secure lis" if "c \<in> set ?cs" for c
  proof -
    have "c \<in> insert (?c\<lparr>cn_phase := ph\<rparr>) (set (ln_conns lis))"
      by (rule subsetD [OF set_update_subset_insert that])
    then show "cn_phase c = Handshaking \<Longrightarrow> ln_secure lis"
      using assms(1) conn_next_facts(2) [OF assms(3)] by (auto simp: listener_wf_def)
  qed
  ultimately show ?thesis using assms(1,2) by (auto simp: listener_wf_def)
qed

lemma join_listener:
  assumes "listener_wf lis" and "j < length (ln_conns lis)" and "cn_phase (ln_conns lis ! j) = Finished_conn"
  shows "listener_wf (lis\<lparr>ln_conns := take j (ln_conns lis) @ drop (Suc j) (ln_conns lis)\<rparr>) \<and>
     active_conns (lis\<lparr>ln_conns := take j (ln_conns lis) @ drop (Suc j) (ln_conns lis)\<rparr>) = active_conns lis"
  using sum_list_drop [OF assms(2), of busy] assms
  by (auto simp: listener_wf_def active_conns_def busy_def dest: in_set_takeD in_set_dropD)

lemma server_invD:
  "server_inv cfg permits s \<Longrightarrow> i < length (sv_listeners s) \<Longrightarrow> listener_wf (sv_listeners s ! i)"
  "server_inv cfg permits s \<Longrightarrow> proxy_inv cfg (sv_proxy s)"
  by (simp_all add: server_inv_def)

lemma tables_inv:
  "server_inv cfg permits s \<Longrightarrow> proxy_inv cfg p \<Longrightarrow> server_inv cfg permits (s\<lparr>sv_proxy := p\<rparr>)"
  by (simp add: server_inv_def active_def)

lemma server_step_inv:
  assumes "server_step L cfg s l s'" and "server_inv cfg permits s"
  shows "server_inv cfg permits s'"
  using assms
proof (induction rule: server_step.induct)
  case (accept i s lis now res lis' m)
  then show ?case
    using accept_conn_listener [OF accept(4)] server_invD [OF accept(5)]
    by (intro put_inv [OF accept(5,1)]) simp_all
next
  case (grant i s lis peer)
  then show ?case
    using spawn_conn_listener [of lis peer] server_invD [OF grant(5)]
    by (intro put_inv [OF grant(5,1)]) simp_all
next
  case (see_cancel i s lis)
  then show ?case
    using phase_listener [where lis = lis and p = Draining] server_invD [OF see_cancel(5)]
    by (intro put_inv [OF see_cancel(5,1)]) simp_all
next
  case (conn i s lis j ev ph)
  then show ?case
    using conn_listener [OF _ conn(3,4)] server_invD [OF conn(5)]
    by (intro put_inv [OF conn(5,1)]) simp_all
next
  case (serve i s lis j c env now late req out st')
  then show ?case by (blast intro: tables_inv serve_request_inv dest: server_invD)
next
  case (join i s lis j)
  then show ?case
    using join_listener [OF _ join(4,5)] server_invD [OF join(6)]
    by (intro put_inv [OF join(6,1)]) simp_all
next
  case (stop i s lis)
  then show ?case
    using phase_listener [where lis = lis and p = Stopped] server_invD [OF stop(5)]
    by (intro put_inv [OF stop(5,1)]) simp_all
next
  case (cancel s)
  then show ?case by (simp add: server_inv_def)
next
  case (ban_sweep s now)
  then show ?case by (intro tables_inv) (simp_all add: server_invD)
next
  case (rate_sweep s now)
  then show ?case by (intro tables_inv) (auto simp: proxy_inv_def dest!: server_invD(2))
next
  case (tick s)
  then show ?case by (simp add: server_inv_def)
next
  case (probe s addr rest res)
  then show ?case by (simp add: server_inv_def proxy_inv_def)
qed

interpretation server_lts: labelled_system "server_step L cfg" "server_run L cfg" for L cfg
  by unfold_locales (auto simp: server_run_Cons)

lemma server_run_inv:
  "server_run L cfg s ls s' \<Longrightarrow> server_inv cfg permits s \<Longrightarrow> server_inv cfg permits s'"
  by (rule server_lts.run_keeps [where P = "\<lambda>_. True"]) (auto intro: server_step_inv simp: list_all_iff)

section \<open>Draining\<close>

text \<open>The steps of a shutdown: nothing is accepted or served, the tasks end and are joined.\<close>

fun drain_label :: "server_label \<Rightarrow> bool" where
  "drain_label (Granted i) = True"
| "drain_label (Saw_cancel i) = True"
| "drain_label (Conn_step i j ev) = True"
| "drain_label (Joined i j) = True"
| "drain_label (Stop i) = True"
| "drain_label _ = False"

fun conn_work :: "conn_phase \<Rightarrow> nat" where
  "conn_work Handshaking = 4"
| "conn_work Serving_conn = 3"
| "conn_work Shutting_down = 2"
| "conn_work Finished_conn = 1"

fun phase_work :: "listener_phase \<Rightarrow> nat" where
  "phase_work (Awaiting_permit peer) = 7"
| "phase_work Accepting = 2"
| "phase_work Draining = 1"
| "phase_work Stopped = 0"

definition listener_work :: "listener \<Rightarrow> nat" where
  "listener_work lis = phase_work (ln_phase lis) + sum_list (map (\<lambda>c. conn_work (cn_phase c)) (ln_conns lis))"

definition drain_work :: "server_state \<Rightarrow> nat" where
  "drain_work s = sum_list (map listener_work (sv_listeners s))"

definition all_stopped :: "server_state \<Rightarrow> bool" where
  "all_stopped s \<longleftrightarrow> (\<forall>lis \<in> set (sv_listeners s). ln_phase lis = Stopped)"

lemma put_work:
  assumes "i < length (sv_listeners s)" and "listener_work lis < listener_work (sv_listeners s ! i)"
    and "sv_listeners s' = sv_listeners s"
  shows "drain_work (put_listener i lis s') < drain_work s"
  using sum_list_put [OF assms(1), of listener_work lis] assms(2,3) by (simp add: drain_work_def)

lemma conn_work_decreases: "conn_next b ev ph = Some ph' \<Longrightarrow> conn_work ph' < conn_work ph"
  by (cases "(b, ev, ph)" rule: conn_next.cases) (auto split: if_splits)

lemma drain_step_decreases:
  assumes "server_step L cfg s l s'" and "drain_label l"
  shows "drain_work s' < drain_work s \<and> sv_cancelled s' = sv_cancelled s"
  using assms
proof (induction rule: server_step.induct)
  case (grant i s lis peer)
  then show ?case by (intro conjI put_work) (auto simp: listener_work_def spawn_conn_def)
next
  case (see_cancel i s lis)
  then show ?case by (intro conjI put_work) (auto simp: listener_work_def)
next
  case (conn i s lis j ev ph)
  let ?w = "\<lambda>c. conn_work (cn_phase c)" and ?c = "ln_conns lis ! j"
  have "sum_list (map ?w ((ln_conns lis)[j := ?c\<lparr>cn_phase := ph\<rparr>])) + ?w ?c
      = sum_list (map ?w (ln_conns lis)) + ?w (?c\<lparr>cn_phase := ph\<rparr>)" by (rule sum_list_put [OF conn(3)])
  moreover have "conn_work ph < ?w ?c" by (rule conn_work_decreases [OF conn(4)])
  ultimately have "sum_list (map ?w ((ln_conns lis)[j := ?c\<lparr>cn_phase := ph\<rparr>])) < sum_list (map ?w (ln_conns lis))"
    by simp
  with conn(1,2) show ?case by (intro conjI put_work) (simp_all add: listener_work_def)
next
  case (join i s lis j)
  let ?w = "\<lambda>c. conn_work (cn_phase c)"
  have "sum_list (map ?w (take j (ln_conns lis) @ drop (Suc j) (ln_conns lis))) + ?w (ln_conns lis ! j)
      = sum_list (map ?w (ln_conns lis))" by (rule sum_list_drop [OF join(4)])
  with join show ?case
    by (intro conjI put_work) (simp_all add: listener_work_def del: sum_list_append map_append)
next
  case (stop i s lis)
  then show ?case by (intro conjI put_work) (auto simp: listener_work_def)
qed simp_all

lemma conn_event_enabled: "ph \<noteq> Finished_conn \<Longrightarrow> \<exists>ev ph'. conn_next b ev ph = Some ph'"
proof (cases ph)
  case Handshaking
  then show ?thesis by (intro exI [of _ "Handshake_ends Handshake_error"]) simp
qed (metis conn_next.simps)+

lemma conn_can_finish: "ph \<noteq> Finished_conn \<Longrightarrow> \<exists>ev. conn_next b ev ph = Some Finished_conn"
proof (cases ph)
  case Handshaking
  then show ?thesis by (intro exI [of _ "Handshake_ends Handshake_error"]) simp
qed (metis conn_next.simps)+

lemma busy_conn:
  assumes "0 < active s"
  obtains i j where "i < length (sv_listeners s)" "j < length (ln_conns (sv_listeners s ! i))"
    "cn_phase (ln_conns (sv_listeners s ! i) ! j) \<noteq> Finished_conn"
proof -
  have pos: "\<exists>x \<in> set xs. 0 < f x" if "0 < sum_list (map f xs)" for xs and f :: "'x \<Rightarrow> nat"
    using that by (induction xs) auto
  from pos [OF assms [unfolded active_def]] obtain lis where lis: "lis \<in> set (sv_listeners s)" "0 < active_conns lis"
    by blast
  from pos [OF lis(2) [unfolded active_conns_def]] obtain c where "c \<in> set (ln_conns lis)" "0 < busy c" by blast
  with lis that show ?thesis by (auto simp: in_set_conv_nth busy_def split: if_splits)
qed

lemma drain_progress:
  assumes "server_inv cfg permits s" and "0 < permits" and "sv_cancelled s" and "\<not> all_stopped s"
  shows "\<exists>l s'. drain_label l \<and> server_step L cfg s l s'"
proof -
  have conn_step: ?thesis if "i < length (sv_listeners s)" "j < length (ln_conns (sv_listeners s ! i))"
    "cn_phase (ln_conns (sv_listeners s ! i) ! j) \<noteq> Finished_conn" for i j
  proof -
    from conn_event_enabled [OF that(3)] obtain ev ph where
      "conn_next (sv_cancelled s) ev (cn_phase (ln_conns (sv_listeners s ! i) ! j)) = Some ph" by blast
    from conn [OF that(1) refl that(2) this] show ?thesis by (intro exI conjI) (rule drain_label.simps(3) [THEN iffD2, OF TrueI])
  qed
  from assms(4) obtain i where i: "i < length (sv_listeners s)" "ln_phase (sv_listeners s ! i) \<noteq> Stopped"
    by (auto simp: all_stopped_def in_set_conv_nth)
  show ?thesis
  proof (cases "ln_phase (sv_listeners s ! i)")
    case Accepting
    from see_cancel [OF i(1) refl this assms(3)] show ?thesis by (metis drain_label.simps(2))
  next
    case (Awaiting_permit peer)
    show ?thesis
    proof (cases "sv_permits s = 0")
      case True
      with assms(1,2) have "0 < active s" by (simp add: server_inv_def)
      then show ?thesis using conn_step by (blast elim: busy_conn)
    next
      case False
      with grant [OF i(1) refl Awaiting_permit] show ?thesis by (metis drain_label.simps(1) neq0_conv)
    qed
  next
    case Draining
    show ?thesis
    proof (cases "ln_conns (sv_listeners s ! i)")
      case Nil
      from stop [OF i(1) refl Draining Nil] show ?thesis by (metis drain_label.simps(5))
    next
      case (Cons c cs)
      then have j: "0 < length (ln_conns (sv_listeners s ! i))" by simp
      show ?thesis
      proof (cases "cn_phase (ln_conns (sv_listeners s ! i) ! 0) = Finished_conn")
        case True
        from join [OF i(1) refl _ j True] Draining show ?thesis by (metis drain_label.simps(4) insertI1 insertI2)
      next
        case False
        from conn_step [OF i(1) j this] show ?thesis .
      qed
    qed
  next
    case Stopped
    with i(2) show ?thesis by simp
  qed
qed

section \<open>The gate\<close>

text \<open>
  The specification of admission: a number of free places, the clients that wait for one and the
  clients inside. A client arrives, enters when a place is free, and frees it when it leaves.
\<close>

record gate =
  free :: nat
  waiting :: "socket_addr multiset"
  inside :: "socket_addr multiset"

datatype gate_event = Arrive socket_addr | Enter socket_addr | Leave socket_addr

fun gate_step :: "gate \<Rightarrow> gate_event \<Rightarrow> gate \<Rightarrow> bool" where
  "gate_step g (Arrive p) g' \<longleftrightarrow>
     free g' = free g \<and> waiting g' = add_mset p (waiting g) \<and> inside g' = inside g"
| "gate_step g (Enter p) g' \<longleftrightarrow>
     free g = Suc (free g') \<and> waiting g = add_mset p (waiting g') \<and> inside g' = add_mset p (inside g)"
| "gate_step g (Leave p) g' \<longleftrightarrow>
     free g' = Suc (free g) \<and> waiting g' = waiting g \<and> inside g = add_mset p (inside g')"

text \<open>The state of the gate and its event that a state of the server and a step from it stand for.\<close>

definition waits_at :: "listener \<Rightarrow> socket_addr multiset" where
  "waits_at lis = (case ln_phase lis of Awaiting_permit peer \<Rightarrow> {#peer#} | _ \<Rightarrow> {#})"

definition present :: "conn \<Rightarrow> socket_addr multiset" where
  "present c = (if cn_phase c = Finished_conn then {#} else {#cn_peer c#})"

definition inside_at :: "listener \<Rightarrow> socket_addr multiset" where
  "inside_at lis = sum_list (map present (ln_conns lis))"

definition gate_of :: "server_state \<Rightarrow> gate" where
  "gate_of s = \<lparr>free = sv_permits s, waiting = sum_list (map waits_at (sv_listeners s)),
     inside = sum_list (map inside_at (sv_listeners s))\<rparr>"

fun gate_event_of :: "server_state \<Rightarrow> server_label \<Rightarrow> gate_event option" where
  "gate_event_of s (Accepted i now (Some peer)) =
     (if fst (ban_check now (sock_ip peer) (st_bans (sv_proxy s))) then None else Some (Arrive peer))"
| "gate_event_of s (Granted i) =
     (case ln_phase (sv_listeners s ! i) of Awaiting_permit peer \<Rightarrow> Some (Enter peer) | _ \<Rightarrow> None)"
| "gate_event_of s (Conn_step i j ev) =
     (let c = ln_conns (sv_listeners s ! i) ! j
      in if conn_next (sv_cancelled s) ev (cn_phase c) = Some Finished_conn then Some (Leave (cn_peer c)) else None)"
| "gate_event_of s _ = None"

lemma gate_of_simps [simp]:
  "free (gate_of s) = sv_permits s"
  "waiting (gate_of s) = sum_list (map waits_at (sv_listeners s))"
  "inside (gate_of s) = sum_list (map inside_at (sv_listeners s))"
  by (simp_all add: gate_of_def)

lemma gate_eqI: "free g = free h \<Longrightarrow> waiting g = waiting h \<Longrightarrow> inside g = inside h \<Longrightarrow> g = (h :: gate)"
  by simp

lemma put_gate:
  assumes "i < length (sv_listeners s)"
  shows "sum_list (map waits_at ((sv_listeners s)[i := lis])) + waits_at (sv_listeners s ! i)
      = sum_list (map waits_at (sv_listeners s)) + waits_at lis"
    "sum_list (map inside_at ((sv_listeners s)[i := lis])) + inside_at (sv_listeners s ! i)
      = sum_list (map inside_at (sv_listeners s)) + inside_at lis"
  by (rule sum_list_put [OF assms])+

text \<open>A change of one listener that moves nobody.\<close>

lemma gate_same:
  assumes "i < length (sv_listeners s)" and "waits_at lis = waits_at (sv_listeners s ! i)"
    and "inside_at lis = inside_at (sv_listeners s ! i)"
    and "sv_listeners s' = sv_listeners s" and "sv_permits s' = sv_permits s"
  shows "gate_of (put_listener i lis s') = gate_of s"
  using put_gate [OF assms(1), of lis] assms(2-5) by (intro gate_eqI) simp_all

lemma conn_gate:
  assumes "j < length (ln_conns lis)" and "conn_next b ev (cn_phase (ln_conns lis ! j)) = Some ph"
  shows "inside_at lis = (if ph = Finished_conn then {#cn_peer (ln_conns lis ! j)#} else {#}) +
     inside_at (lis\<lparr>ln_conns := (ln_conns lis)[j := (ln_conns lis ! j)\<lparr>cn_phase := ph\<rparr>]\<rparr>)"
  using sum_list_put [OF assms(1), of present "(ln_conns lis ! j)\<lparr>cn_phase := ph\<rparr>"] conn_next_facts(1) [OF assms(2)]
  by (simp add: inside_at_def present_def split: if_splits)

lemma server_step_gate:
  assumes "server_step L cfg s l s'"
  shows "case gate_event_of s l of None \<Rightarrow> gate_of s' = gate_of s | Some e \<Rightarrow> gate_step (gate_of s) e (gate_of s')"
  using assms
proof (induction rule: server_step.induct)
  case (accept i s lis now res lis' m)
  show ?case
  proof (cases "\<exists>peer. res = Some peer \<and> \<not> fst (ban_check now (sock_ip peer) (st_bans (sv_proxy s)))")
    case True
    then obtain peer where p: "res = Some peer" "\<not> fst (ban_check now (sock_ip peer) (st_bans (sv_proxy s)))" by blast
    with accept(4) have "lis' = lis\<lparr>ln_phase := Awaiting_permit peer\<rparr>"
      by (auto simp: accept_conn_def split: prod.splits if_splits)
    then have "waits_at lis = {#}" "waits_at lis' = {#peer#}" "inside_at lis' = inside_at lis"
      using accept(3) by (simp_all add: waits_at_def inside_at_def)
    with put_gate [OF accept(1), of lis'] accept(2) p show ?thesis by simp
  next
    case False
    then have "lis' = lis" using accept_conn_cases [OF accept(4)] by blast
    moreover have "gate_event_of s (Accepted i now res) = None"
      using False by (cases res) (simp, metis gate_event_of.simps(1))
    ultimately have "lis' = lis" "gate_event_of s (Accepted i now res) = None" by simp_all
    with accept gate_same [of i s lis' "s\<lparr>sv_proxy := (sv_proxy s)\<lparr>st_bans := m\<rparr>\<rparr>"] show ?thesis by simp
  qed
next
  case (grant i s lis peer)
  have "waits_at lis = {#peer#}" "waits_at (spawn_conn peer lis) = {#}"
    "inside_at (spawn_conn peer lis) = add_mset peer (inside_at lis)"
    using grant(3) by (simp_all add: waits_at_def inside_at_def spawn_conn_def present_def)
  with put_gate [OF grant(1), of "spawn_conn peer lis"] grant(2-4) show ?case by simp
next
  case (see_cancel i s lis)
  then show ?case using gate_same [of i s] by (simp add: waits_at_def inside_at_def)
next
  case (conn i s lis j ev ph)
  let ?lis = "lis\<lparr>ln_conns := (ln_conns lis)[j := (ln_conns lis ! j)\<lparr>cn_phase := ph\<rparr>]\<rparr>"
  have "waits_at ?lis = waits_at lis" by (simp add: waits_at_def)
  with put_gate [OF conn(1), of ?lis] conn(2,4) conn_gate [OF conn(3,4)] show ?case
    by (auto simp: Let_def intro!: gate_eqI)
next
  case (join i s lis j)
  have "inside_at (lis\<lparr>ln_conns := take j (ln_conns lis) @ drop (Suc j) (ln_conns lis)\<rparr>) = inside_at lis"
    using sum_list_drop [OF join(4), of present] join(5) by (simp add: inside_at_def present_def)
  with join show ?case using gate_same [of i s] by (simp add: waits_at_def)
next
  case (stop i s lis)
  then show ?case using gate_same [of i s] by (simp add: waits_at_def inside_at_def)
qed (simp_all add: gate_of_def)

text \<open>Where somebody waits or is inside, there is a listener or a connection to show for it.\<close>

lemma in_sum_list: "p \<in># sum_list (map f xs) \<longleftrightarrow> (\<exists>i < length xs. p \<in># f (xs ! i))"
  by (induction xs) (auto simp: less_Suc_eq_0_disj)

lemma waits_at_iff: "p \<in># waits_at lis \<longleftrightarrow> ln_phase lis = Awaiting_permit p"
  by (cases "ln_phase lis") (auto simp: waits_at_def)

lemma present_iff: "p \<in># present c \<longleftrightarrow> cn_phase c \<noteq> Finished_conn \<and> cn_peer c = p"
  by (auto simp: present_def)

lemma server_offers_gate:
  assumes "gate_step (gate_of s) e g" and "\<forall>p. e \<noteq> Arrive p"
  shows "\<exists>l s'. server_step L cfg s l s' \<and> gate_event_of s l = Some e \<and> gate_of s' = g"
proof -
  have "\<exists>l s'. server_step L cfg s l s' \<and> gate_event_of s l = Some e"
  proof (cases e)
    case (Enter p)
    with assms(1) have "p \<in># sum_list (map waits_at (sv_listeners s))" "0 < sv_permits s" by simp_all
    then obtain i where i: "i < length (sv_listeners s)" "ln_phase (sv_listeners s ! i) = Awaiting_permit p"
      unfolding in_sum_list waits_at_iff by blast
    from grant [OF i(1) refl i(2) \<open>0 < sv_permits s\<close>] Enter i(2) show ?thesis by fastforce
  next
    case (Leave p)
    with assms(1) have "p \<in># sum_list (map inside_at (sv_listeners s))" by simp
    then obtain i where l: "i < length (sv_listeners s)" "p \<in># inside_at (sv_listeners s ! i)"
      unfolding in_sum_list by blast
    then obtain j where i: "i < length (sv_listeners s)" "j < length (ln_conns (sv_listeners s ! i))"
      and c: "cn_phase (ln_conns (sv_listeners s ! i) ! j) \<noteq> Finished_conn" "cn_peer (ln_conns (sv_listeners s ! i) ! j) = p"
      unfolding inside_at_def in_sum_list present_iff by blast
    obtain ev where ev: "conn_next (sv_cancelled s) ev (cn_phase (ln_conns (sv_listeners s ! i) ! j)) = Some Finished_conn"
      using conn_can_finish [OF c(1)] by blast
    from conn [OF i(1) refl i(2) ev] Leave ev c(2) show ?thesis
      by (intro exI [of _ "Conn_step i j ev"]) (auto simp: Let_def)
  qed (use assms(2) in simp)
  then obtain l s' where s: "server_step L cfg s l s'" "gate_event_of s l = Some e" by blast
  with server_step_gate [OF s(1)] have "gate_step (gate_of s) e (gate_of s')" by simp
  with assms have "gate_of s' = g" by (cases e) (auto intro!: gate_eqI)
  with s show ?thesis by blast
qed

section \<open>Bans\<close>

text \<open>No connection from an address, and no listener that is about to open one.\<close>

definition turns_away :: "ip_addr \<Rightarrow> listener \<Rightarrow> bool" where
  "turns_away ip lis \<longleftrightarrow> (\<forall>c \<in> set (ln_conns lis). sock_ip (cn_peer c) \<noteq> ip) \<and>
     (case ln_phase lis of Awaiting_permit peer \<Rightarrow> sock_ip peer \<noteq> ip | _ \<Rightarrow> True)"

definition no_conn :: "ip_addr \<Rightarrow> server_state \<Rightarrow> bool" where
  "no_conn ip s \<longleftrightarrow> (\<forall>lis \<in> set (sv_listeners s). turns_away ip lis)"

text \<open>The steps that neither outlive a ban nor punish its address again.\<close>

fun leaves_ban :: "waf_lib \<Rightarrow> ip_addr \<Rightarrow> instant \<Rightarrow> server_label \<Rightarrow> bool" where
  "leaves_ban L ip e (Accepted i now res) = (now \<le> e)"
| "leaves_ban L ip e (Ban_sweep now) = (now < e)"
| "leaves_ban L ip e (Served i j env req now late) = (\<forall>peer. sock_ip peer \<noteq> ip \<longrightarrow> client_of L req peer \<noteq> ip)"
| "leaves_ban L ip e _ = True"

definition barred :: "ip_addr \<Rightarrow> instant \<Rightarrow> server_state \<Rightarrow> bool" where
  "barred ip e s \<longleftrightarrow> no_conn ip s \<and> banned_until (st_bans (sv_proxy s)) ip = Some e"

lemma verify_bans_other:
  assumes "verify_request L cfg now req peer st = Some (v, st')" and "client_of L req peer \<noteq> ip"
  shows "banned_until (st_bans st') ip = banned_until (st_bans st) ip"
proof (cases v)
  case (Inl r)
  then show ?thesis using assms punish_Some by (auto elim!: verify_refuses)
next
  case (Inr u)
  then show ?thesis using assms(1) verified_state(4) [of L cfg now req peer st st'] by simp
qed

lemma inspect_bans_other:
  assumes "inspect_body L cfg env late req cl st = Some (v, st')" and "cl \<noteq> ip"
  shows "banned_until (st_bans st') ip = banned_until (st_bans st) ip"
  using assms by (auto simp: inspect_body_def dest!: punish_Some split: if_splits option.splits sum.splits collected.splits)

lemma dispatch_bans: "dispatch L env req ip bw st = (d, sent, st') \<Longrightarrow> st_bans st' = st_bans st"
  by (auto simp: dispatch_def Let_def split: option.splits prod.splits if_splits connect_outcome.splits)

lemma serve_bans_other:
  assumes "serve_request L cfg env secure now late req peer st = Some (out, st')" and "client_of L req peer \<noteq> ip"
  shows "banned_until (st_bans st') ip = banned_until (st_bans st) ip"
proof (cases secure)
  case True
  with assms(1) obtain sent where h: "https_proxy L cfg env now late req peer st = Some (out, sent, st')"
    by (auto simp: serve_request_def)
  then show ?thesis
  proof (cases rule: https_proxy_stages)
    case (refused r)
    then show ?thesis using verify_bans_other assms(2) by blast
  next
    case (blocked st1 r)
    then show ?thesis using verify_bans_other inspect_bans_other assms(2) by metis
  next
    case stalled
    then show ?thesis using verify_bans_other assms(2) by blast
  next
    case (routed st1 final d st3)
    have "banned_until (st_bans st3) ip = banned_until (st_bans st) ip"
      using verify_bans_other [OF routed(1) assms(2)] dispatch_bans [OF routed(3)] by simp
    with routed(4) assms(2) show ?thesis by (auto dest!: punish_Some split: dispatched.splits)
  qed
next
  case False
  with assms show ?thesis
    by (auto simp: serve_request_def http_proxy_def dest!: verify_bans_other [OF _ assms(2)] split: option.splits sum.splits)
qed

lemma put_no_conn:
  assumes "no_conn ip s" and "sv_listeners s' = sv_listeners s" and "turns_away ip lis"
  shows "no_conn ip (put_listener i lis s')"
proof -
  have "turns_away ip x" if "x \<in> set ((sv_listeners s)[i := lis])" for x
    using subsetD [OF set_update_subset_insert that] assms(1,3) by (auto simp: no_conn_def)
  with assms(2) show ?thesis by (simp add: no_conn_def)
qed

lemma no_connD: "no_conn ip s \<Longrightarrow> i < length (sv_listeners s) \<Longrightarrow> turns_away ip (sv_listeners s ! i)"
  by (simp add: no_conn_def)

lemma barred_step:
  assumes "server_step L cfg s l s'" and "barred ip e s" and "leaves_ban L ip e l"
  shows "barred ip e s'"
  using assms
proof (induction rule: server_step.induct)
  case (accept i s lis now res lis' m)
  then have n: "no_conn ip s" and b: "banned_until (st_bans (sv_proxy s)) ip = Some e" and t: "now \<le> e"
    by (simp_all add: barred_def)
  have "banned_until m ip = Some e"
  proof (cases res)
    case None
    with accept(4) b show ?thesis by (simp add: accept_conn_def)
  next
    case (Some peer)
    with accept(4) have "m = snd (ban_check now (sock_ip peer) (st_bans (sv_proxy s)))"
      by (auto simp: accept_conn_def split: prod.splits if_splits)
    with bans.check_keeps [OF b t] show ?thesis by simp
  qed
  moreover have "turns_away ip lis'"
    using accept_conn_cases [OF accept(4)]
  proof
    assume "\<exists>peer. res = Some peer \<and> \<not> fst (ban_check now (sock_ip peer) (st_bans (sv_proxy s))) \<and>
      lis' = lis\<lparr>ln_phase := Awaiting_permit peer\<rparr>"
    then obtain peer where p: "\<not> fst (ban_check now (sock_ip peer) (st_bans (sv_proxy s)))"
      "lis' = lis\<lparr>ln_phase := Awaiting_permit peer\<rparr>" by blast
    from p(1) b t have "sock_ip peer \<noteq> ip" by (auto simp: bans.check_iff)
    with p(2) no_connD [OF n accept(1)] accept(2) show ?thesis by (simp add: turns_away_def)
  qed (use no_connD [OF n accept(1)] accept(2) in simp)
  then have "no_conn ip (put_listener i lis' (s\<lparr>sv_proxy := (sv_proxy s)\<lparr>st_bans := m\<rparr>\<rparr>))"
    by (intro put_no_conn [OF n]) simp_all
  ultimately show ?case by (simp add: barred_def)
next
  case (grant i s lis peer)
  then have n: "no_conn ip s" by (simp add: barred_def)
  have "turns_away ip (spawn_conn peer lis)"
    using no_connD [OF n grant(1)] grant(2,3) by (simp add: turns_away_def spawn_conn_def)
  with grant put_no_conn [OF n] show ?case by (simp add: barred_def)
next
  case (see_cancel i s lis)
  then have n: "no_conn ip s" by (simp add: barred_def)
  have "turns_away ip (lis\<lparr>ln_phase := Draining\<rparr>)"
    using no_connD [OF n see_cancel(1)] see_cancel(2) by (simp add: turns_away_def)
  with see_cancel put_no_conn [OF n] show ?case by (simp add: barred_def)
next
  case (conn i s lis j ev ph)
  then have n: "no_conn ip s" by (simp add: barred_def)
  let ?c = "ln_conns lis ! j"
  let ?cs = "(ln_conns lis)[j := ?c\<lparr>cn_phase := ph\<rparr>]"
  have t: "turns_away ip lis" using no_connD [OF n conn(1)] conn(2) by simp
  moreover have "?c \<in> set (ln_conns lis)" using conn(3) by simp
  ultimately have "\<forall>c \<in> insert (?c\<lparr>cn_phase := ph\<rparr>) (set (ln_conns lis)). sock_ip (cn_peer c) \<noteq> ip"
    by (simp add: turns_away_def)
  then have "\<forall>c \<in> set ?cs. sock_ip (cn_peer c) \<noteq> ip" using set_update_subset_insert [of "ln_conns lis" j] by blast
  with t have "turns_away ip (lis\<lparr>ln_conns := ?cs\<rparr>)" by (simp add: turns_away_def)
  with conn put_no_conn [OF n] show ?case by (simp add: barred_def)
next
  case (serve i s lis j c env now late req out st')
  then have n: "no_conn ip s" by (simp add: barred_def)
  have "turns_away ip lis" "c \<in> set (ln_conns lis)" using no_connD [OF n serve(1)] serve(2-4) by auto
  then have "sock_ip (cn_peer c) \<noteq> ip" by (simp add: turns_away_def)
  with serve(8) have "client_of L req (cn_peer c) \<noteq> ip" by (cases "cn_peer c") simp
  from serve_bans_other [OF serve(6) this] serve(7) show ?case by (simp add: barred_def no_conn_def)
next
  case (join i s lis j)
  then have n: "no_conn ip s" by (simp add: barred_def)
  let ?cs = "take j (ln_conns lis) @ drop (Suc j) (ln_conns lis)"
  have "set ?cs \<subseteq> set (ln_conns lis)" by (auto dest: in_set_takeD in_set_dropD)
  then have "turns_away ip (lis\<lparr>ln_conns := ?cs\<rparr>)"
    using no_connD [OF n join(1)] join(2) by (auto simp: turns_away_def simp del: set_append)
  with join put_no_conn [OF n] show ?case by (simp add: barred_def)
next
  case (stop i s lis)
  then have n: "no_conn ip s" by (simp add: barred_def)
  have "turns_away ip (lis\<lparr>ln_phase := Stopped\<rparr>)"
    using no_connD [OF n stop(1)] stop(2) by (simp add: turns_away_def)
  with stop put_no_conn [OF n] show ?case by (simp add: barred_def)
next
  case (ban_sweep s now)
  then show ?case
    by (auto simp: barred_def no_conn_def banned_until_def ban_cleanup_def)
qed (simp_all add: barred_def no_conn_def)

lemma shutdown_reaches:
  assumes "server_inv cfg permits s" and "0 < permits" and "sv_cancelled s"
  shows "\<exists>ls s'. server_run L cfg s ls s' \<and> list_all drain_label ls \<and> all_stopped s' \<and> sv_cancelled s'"
proof -
  let ?I = "\<lambda>s. server_inv cfg permits s \<and> sv_cancelled s" and ?G = "\<lambda>s. all_stopped s \<and> sv_cancelled s"
  have dec: "?I s' \<and> drain_work s' < drain_work s" if "server_step L cfg s l s'" "?I s" "drain_label l" for s l s'
    using that server_step_inv drain_step_decreases by metis
  have prog: "\<exists>l s'. drain_label l \<and> server_step L cfg s l s'" if "?I s" "\<not> ?G s" for s
    using that drain_progress assms(2) by blast
  show ?thesis
    by (rule server_lts.run_reaches [of L cfg ?I drain_label drain_work ?G]) (use dec prog assms in blast)+
qed

lemma drain_bounded:
  assumes "server_inv cfg permits s" and "sv_cancelled s" and "server_run L cfg s ls s'" and "list_all drain_label ls"
  shows "length ls + drain_work s' \<le> drain_work s \<and> server_inv cfg permits s' \<and> sv_cancelled s'"
proof -
  let ?I = "\<lambda>s. server_inv cfg permits s \<and> sv_cancelled s"
  have dec: "?I s' \<and> drain_work s' < drain_work s" if "server_step L cfg s l s'" "?I s" "drain_label l" for s l s'
    using that server_step_inv drain_step_decreases by metis
  have "?I s" using assms by simp
  then show ?thesis
    using server_lts.run_bounded [of L cfg ?I drain_label drain_work, OF dec assms(3) _ assms(4)]
      server_lts.run_keeps [of L cfg ?I drain_label, OF _ assms(3) _ assms(4)] dec by simp
qed

section \<open>Properties\<close>

text \<open>
  The number of connections is bounded. In every reachable state, whatever the order of the
  steps of all listeners, tasks and requests, the free permits and the connections that have not
  finished add up to the permits there were, a stopped listener has no connection left, and the
  shared tables are in order.
\<close>

theorem connections_bounded:
  assumes "server_inv cfg permits s" and "server_run L cfg s ls s'"
  shows "sv_permits s' + active s' = permits \<and>
     (\<forall>lis \<in> set (sv_listeners s'). ln_phase lis = Stopped \<longrightarrow> ln_conns lis = []) \<and> proxy_inv cfg (sv_proxy s')"
  using server_run_inv [OF assms(2,1)] by (auto simp: server_inv_def listener_wf_def)

text \<open>
  C10: the listeners implement the gate, step by step. Read as a number of free places, the clients
  that wait and the clients inside, every step of the server is one event of the gate or leaves it
  alone: an accepted address that is not banned arrives, a granted permit lets in the client that
  waited on that listener, the end of a connection lets out its client, and nothing else moves
  anybody. Conversely, whenever the gate lets a client in or out, the server has a step that does so.
\<close>

theorem server_refines_gate:
  "(\<forall>l s'. server_step L cfg s l s' \<longrightarrow>
      (case gate_event_of s l of None \<Rightarrow> gate_of s' = gate_of s | Some e \<Rightarrow> gate_step (gate_of s) e (gate_of s'))) \<and>
   (\<forall>e g. gate_step (gate_of s) e g \<and> (\<forall>p. e \<noteq> Arrive p) \<longrightarrow>
      (\<exists>l s'. server_step L cfg s l s' \<and> gate_event_of s l = Some e \<and> gate_of s' = g))"
  using server_step_gate server_offers_gate by blast

text \<open>
  C9: shutdown ends. Once the token is cancelled, with at least one permit in the server, the steps
  that only finish what is there are bounded in number by the work left, as long as a listener has
  not stopped one of them is enabled, and so they lead to a state in which all listeners have
  stopped.
\<close>

theorem shutdown_terminates:
  assumes "server_inv cfg permits s" and "0 < permits" and "sv_cancelled s"
  shows "(\<exists>ls s'. server_run L cfg s ls s' \<and> list_all drain_label ls \<and> all_stopped s') \<and>
     (\<forall>ls s'. server_run L cfg s ls s' \<and> list_all drain_label ls \<longrightarrow>
        length ls + drain_work s' \<le> drain_work s \<and>
        (all_stopped s' \<or> (\<exists>l s''. drain_label l \<and> server_step L cfg s' l s'')))"
  using shutdown_reaches [OF assms] drain_bounded [OF assms(1,3)] drain_progress [OF _ assms(2)] by meson

text \<open>
  C38: with no permits the server neither serves nor stops. If the configured number of connections is
  zero, a listener that has accepted a connection waits for a permit forever: no step, and no
  cancellation, ever takes it out of the wait.
\<close>

theorem zero_permits_block:
  assumes "server_inv cfg 0 s" and "i < length (sv_listeners s)" and "ln_phase (sv_listeners s ! i) = Awaiting_permit peer"
    and "server_run L cfg s ls s'"
  shows "ln_phase (sv_listeners s' ! i) = Awaiting_permit peer \<and> \<not> all_stopped s'"
proof -
  let ?I = "\<lambda>s. server_inv cfg 0 s \<and> i < length (sv_listeners s) \<and> ln_phase (sv_listeners s ! i) = Awaiting_permit peer"
  have "?I s'" if "server_step L cfg s l s'" "?I s" for s l s'
    using that server_step_inv [OF that(1), of 0]
    by (elim server_stepE) (auto simp: nth_list_update server_inv_def)
  then have "?I s'"
    using server_lts.run_keeps [of L cfg ?I "\<lambda>_. True", OF _ assms(4)] assms(1-3) by (simp add: list_all_iff)
  moreover from this have "sv_listeners s' ! i \<in> set (sv_listeners s')" by simp
  ultimately show ?thesis unfolding all_stopped_def by (metis listener_phase.distinct)
qed

text \<open>
  C11: a banned address gets no new connection, under these conditions. When an address is banned and
  has neither an open connection nor one that waits for a permit, then through any run of the server
  in which connections are accepted no later than the end of the ban, the sweep runs before it and no
  request on another connection names the address in its header, no connection from it is accepted or
  opened on any listener and the ban stands.
\<close>

theorem banned_never_connected:
  assumes "server_run L cfg s ls s'" and "list_all (leaves_ban L ip e) ls"
    and "no_conn ip s" and "banned_until (st_bans (sv_proxy s)) ip = Some e"
  shows "no_conn ip s' \<and> banned_until (st_bans (sv_proxy s')) ip = Some e"
proof -
  have "barred ip e s'"
    by (rule server_lts.run_keeps [OF _ assms(1) _ assms(2)])
      (use barred_step assms(3,4) in \<open>simp_all add: barred_def\<close>)
  then show ?thesis by (simp add: barred_def)
qed

text \<open>
  The ban check is made once, before the wait for a permit. A client whose address is banned while it
  waits is connected all the same, ban and all.
\<close>

theorem waiting_client_connected:
  assumes "i < length (sv_listeners s)" and "ln_phase (sv_listeners s ! i) = Awaiting_permit peer"
    and "0 < sv_permits s" and "fst (ban_check now (sock_ip peer) (st_bans (sv_proxy s)))"
  shows "\<exists>s'. server_step L cfg s (Granted i) s' \<and> fst (ban_check now (sock_ip peer) (st_bans (sv_proxy s'))) \<and>
     (\<exists>c \<in> set (ln_conns (sv_listeners s' ! i)). cn_peer c = peer)"
  using grant [OF assms(1) refl assms(2,3)] assms(1,4)
  by (intro exI conjI) (assumption, simp, simp add: spawn_conn_def)

text \<open>
  A tick of the health checker and the probes that follow it make up a round, if nothing else changes
  the table in between.
\<close>

theorem probe_round_run:
  assumes "sv_probes s = []" and "ups = collect_upstreams (st_vhosts (sv_proxy s))"
  shows "server_run L cfg s (Tick # map (\<lambda>a. Probed (connect a)) ups)
     (s\<lparr>sv_proxy := (sv_proxy s)\<lparr>st_health := snd (health_round connect ups (st_health (sv_proxy s)))\<rparr>\<rparr>)"
proof -
  have "server_run L cfg x (map (\<lambda>a. Probed (connect a)) as)
     (x\<lparr>sv_probes := [], sv_proxy := (sv_proxy x)\<lparr>st_health := snd (health_round connect as (st_health (sv_proxy x)))\<rparr>\<rparr>)"
    if "sv_probes x = as" for x as
    using that
  proof (induction as arbitrary: x)
    case (Cons a as)
    let ?y = "x\<lparr>sv_probes := as, sv_proxy := (sv_proxy x)\<lparr>st_health := snd (probe_one (\<lambda>_. connect a) a (st_health (sv_proxy x)))\<rparr>\<rparr>"
    have "server_step L cfg x (Probed (connect a)) ?y" by (rule probe [OF Cons.prems])
    moreover have "probe_one (\<lambda>_. connect a) a st = probe_one connect a st" for st
      by (simp add: probe_one_def probe_upstream_def)
    ultimately show ?case using Cons.IH [of ?y] by (auto simp: server_run_Cons split_beta)
  qed simp
  from this [of "s\<lparr>sv_probes := ups\<rparr>" ups]
  have "server_run L cfg (s\<lparr>sv_probes := ups\<rparr>) (map (\<lambda>a. Probed (connect a)) ups)
     (s\<lparr>sv_probes := [], sv_proxy := (sv_proxy s)\<lparr>st_health := snd (health_round connect ups (st_health (sv_proxy s)))\<rparr>\<rparr>)"
    by simp
  moreover have "s\<lparr>sv_probes := [], sv_proxy := x\<rparr> = s\<lparr>sv_proxy := x\<rparr>" for x using assms(1) by (cases s) simp
  ultimately show ?thesis
    unfolding server_run_Cons using tick [OF assms(1), of L cfg, folded assms(2)] by (intro exI conjI) (assumption, simp)
qed

text \<open>
  The limit on the size of HTTP/2 headers is the configured one modulo two to the 32. It is the
  configured one below four gibibytes, and a configured four gibibytes allow no header at all.
\<close>

theorem header_limit_truncated:
  "unat (h2_max_header_list_size (configure_builder cfg)) = unat (max_header_size (limits cfg)) mod 2 ^ 32 \<and>
   h2_max_header_list_size (configure_builder (cfg\<lparr>limits := (limits cfg)\<lparr>max_header_size := 2 ^ 32\<rparr>\<rparr>)) = 0"
proof -
  have u: "unat (ucast x :: u32) = unat x mod 2 ^ 32" for x :: u64
    by (simp add: unsigned_ucast_eq take_bit_eq_mod unsigned_take_bit_eq)
  then show ?thesis by (simp add: configure_builder_def)
qed

section \<open>Witnesses\<close>

text \<open>
  A server of one listener with one permit: a client connects, is served a redirect, and while it is
  connected the token is cancelled.
\<close>

definition demo_listener :: listener where
  "demo_listener = listen False (V4 0 0 0 0, 80)"

definition demo_server :: server_state where
  "demo_server = \<lparr>sv_proxy = demo_state, sv_permits = 1, sv_cancelled = False, sv_listeners = [demo_listener], sv_probes = []\<rparr>"

definition connected_server :: server_state where
  "connected_server = demo_server\<lparr>sv_permits := 0, sv_cancelled := True,
     sv_listeners := [demo_listener\<lparr>ln_conns := [\<lparr>cn_peer = demo_peer, cn_phase = Serving_conn\<rparr>]\<rparr>]\<rparr>"

lemma demo_server_inv: "server_inv demo_config 1 demo_server"
  by (simp add: server_inv_def demo_server_def active_def active_conns_def demo_listener_def listen_def
      listener_wf_def demo_inv [OF refl])

lemma connected_server_inv: "server_inv demo_config 1 connected_server"
  by (simp add: server_inv_def connected_server_def demo_server_def active_def active_conns_def busy_def
      demo_listener_def listen_def listener_wf_def demo_inv [OF refl])

lemma demo_not_banned: "ban_check t ip (st_bans demo_state) = (False, st_bans demo_state)"
  by (simp add: demo_state_def ban_new_def ban_check_def ban_check_read_def ban_check_write_def)

lemma demo_accept:
  "server_step waf_ref demo_config demo_server (Accepted 0 5 (Some demo_peer))
     (demo_server\<lparr>sv_listeners := [demo_listener\<lparr>ln_phase := Awaiting_permit demo_peer\<rparr>]\<rparr>)"
  using accept [of 0 demo_server demo_listener 5 "Some demo_peer" "demo_listener\<lparr>ln_phase := Awaiting_permit demo_peer\<rparr>" "st_bans demo_state"]
  by (simp add: demo_server_def demo_listener_def listen_def accept_conn_def demo_not_banned)

lemma demo_run:
  "server_run waf_ref demo_config demo_server [Accepted 0 5 (Some demo_peer), Granted 0, Cancel] connected_server"
proof -
  let ?wait = "demo_server\<lparr>sv_listeners := [demo_listener\<lparr>ln_phase := Awaiting_permit demo_peer\<rparr>]\<rparr>"
  have g: "server_step waf_ref demo_config ?wait (Granted 0) (connected_server\<lparr>sv_cancelled := False\<rparr>)"
    using grant [of 0 ?wait "demo_listener\<lparr>ln_phase := Awaiting_permit demo_peer\<rparr>" demo_peer]
    by (simp add: demo_server_def connected_server_def demo_listener_def listen_def spawn_conn_def)
  have c: "server_step waf_ref demo_config (connected_server\<lparr>sv_cancelled := False\<rparr>) Cancel connected_server"
    using cancel [of waf_ref demo_config "connected_server\<lparr>sv_cancelled := False\<rparr>"]
    by (simp add: connected_server_def demo_server_def)
  from demo_accept g c show ?thesis by (auto simp: server_run_Cons)
qed

theorem connections_bounded_witness: "sv_permits connected_server + active connected_server = 1"
  using connections_bounded [OF demo_server_inv demo_run] by simp

theorem server_refines_gate_witness:
  "gate_step (gate_of demo_server) (Arrive demo_peer) (gate_of (demo_server\<lparr>sv_listeners := [demo_listener\<lparr>ln_phase := Awaiting_permit demo_peer\<rparr>]\<rparr>))"
proof -
  have e: "gate_event_of demo_server (Accepted 0 5 (Some demo_peer)) = Some (Arrive demo_peer)"
    by (simp add: demo_server_def demo_not_banned)
  from conjunct1 [OF server_refines_gate, rule_format, OF demo_accept] show ?thesis unfolding e by simp
qed

theorem shutdown_terminates_witness:
  "\<exists>ls s'. server_run waf_ref demo_config connected_server ls s' \<and> list_all drain_label ls \<and> all_stopped s'"
proof -
  have "sv_cancelled connected_server" by (simp add: connected_server_def)
  with shutdown_terminates [OF connected_server_inv] show ?thesis by simp
qed

text \<open>The same listener with no permit, after the first step.\<close>

definition blocked_server :: server_state where
  "blocked_server = demo_server\<lparr>sv_permits := 0,
     sv_listeners := [demo_listener\<lparr>ln_phase := Awaiting_permit demo_peer\<rparr>]\<rparr>"

theorem zero_permits_block_witness: "\<not> all_stopped (blocked_server\<lparr>sv_cancelled := True\<rparr>)"
proof -
  have "server_inv demo_config 0 blocked_server"
    by (simp add: server_inv_def blocked_server_def demo_server_def active_def active_conns_def
        demo_listener_def listen_def listener_wf_def demo_inv [OF refl])
  moreover have "0 < length (sv_listeners blocked_server)"
    "ln_phase (sv_listeners blocked_server ! 0) = Awaiting_permit demo_peer" by (simp_all add: blocked_server_def)
  moreover have "server_run waf_ref demo_config blocked_server [Cancel] (blocked_server\<lparr>sv_cancelled := True\<rparr>)"
    by (simp add: server_run_Cons cancel)
  ultimately show ?thesis using zero_permits_block by blast
qed

definition waiting_server :: server_state where
  "waiting_server = demo_server\<lparr>sv_proxy := demo_state\<lparr>st_bans := [V4 1 2 3 4 \<mapsto> \<lparr>expire_at = 90\<rparr>]\<rparr>,
     sv_listeners := [demo_listener\<lparr>ln_phase := Awaiting_permit (V4 1 2 3 4, 99)\<rparr>]\<rparr>"

theorem waiting_client_connected_witness:
  "\<exists>s'. server_step waf_ref demo_config waiting_server (Granted 0) s' \<and>
     fst (ban_check 5 (V4 1 2 3 4) (st_bans (sv_proxy s')))"
proof -
  have w: "sock_ip (V4 1 2 3 4, 99) = V4 1 2 3 4" by simp
  have "fst (ban_check 5 (V4 1 2 3 4) (st_bans (sv_proxy waiting_server)))"
    by (simp add: waiting_server_def demo_server_def ban_check_def ban_check_read_def)
  from waiting_client_connected [of 0 waiting_server "(V4 1 2 3 4, 99)" 5, unfolded w, OF _ _ _ this]
  show ?thesis by (auto simp: waiting_server_def demo_server_def)
qed

theorem probe_round_run_witness:
  "\<exists>s'. server_run waf_ref demo_config demo_server
     (Tick # map (\<lambda>a. Probed Elapsed) (collect_upstreams (st_vhosts (sv_proxy demo_server)))) s'"
  using probe_round_run [of demo_server, OF _ refl, of waf_ref demo_config "\<lambda>_. Elapsed"]
  by (intro exI) (simp add: demo_server_def)

definition banning_server :: server_state where
  "banning_server = demo_server\<lparr>sv_proxy := demo_state\<lparr>st_bans := [V4 1 2 3 4 \<mapsto> \<lparr>expire_at = 90\<rparr>]\<rparr>\<rparr>"

theorem banned_never_connected_witness:
  "server_run waf_ref demo_config banning_server [Accepted 0 5 (Some (V4 1 2 3 4, 99))] banning_server
   \<and> no_conn (V4 1 2 3 4) banning_server"
proof -
  have "accept_conn 5 (Some (V4 1 2 3 4, 99)) demo_listener (st_bans (sv_proxy banning_server))
      = (demo_listener, st_bans (sv_proxy banning_server))"
    by (simp add: accept_conn_def banning_server_def ban_check_def ban_check_read_def)
  from accept [OF _ _ _ this, of 0]
  have r: "server_run waf_ref demo_config banning_server [Accepted 0 5 (Some (V4 1 2 3 4, 99))] banning_server"
    by (simp add: server_run_Cons banning_server_def demo_server_def demo_listener_def listen_def)
  have "no_conn (V4 1 2 3 4) banning_server" "banned_until (st_bans (sv_proxy banning_server)) (V4 1 2 3 4) = Some 90"
    by (simp_all add: no_conn_def turns_away_def banning_server_def demo_server_def demo_listener_def listen_def banned_until_def)
  with banned_never_connected [OF r, of "V4 1 2 3 4" 90] r show ?thesis by simp
qed

end
