(* ===== verification/Startup.thy ===== *)
theory Startup
  imports Server
begin

text \<open>
  The process (\<open>src/main.rs\<close>): what it sets up before it serves and in which order that can fail, the
  watcher that reloads the certificates, and the shutdown. The outcomes of the calls into the runtime
  and the watcher crate are the parameter record \<open>start_env\<close>. A failure is either the error that
  \<open>main\<close> returns or a panic, which ends the process as well.
\<close>

section \<open>Start\<close>

record 'r start_env =
  se_tls :: "'r tls_env"
  crypto_installed :: bool
  watcher_made :: bool
  certs_exist :: bool
  watch_started :: bool
  max_permits :: nat          \<comment> \<open>\<open>Semaphore::MAX_PERMITS\<close>\<close>
  can_bind :: "socket_addr \<Rightarrow> bool"

datatype start_failure =
    Crypto_panic
  | Load_error load_error
  | Watcher_error
  | Watch_error
  | Permits_panic
  | Address_panic ustr
  | Bind_panic socket_addr

text \<open>The loops that parse the addresses and start a server for each.\<close>

fun spawn_servers :: "bool \<Rightarrow> ustr list \<Rightarrow> start_failure + listener list" where
  "spawn_servers secure [] = Inr []"
| "spawn_servers secure (addr_str # rest) =
     (case parse_socket_addr addr_str of
        None \<Rightarrow> Inl (Address_panic addr_str)
      | Some addr \<Rightarrow>
          (case spawn_servers secure rest of
             Inl e \<Rightarrow> Inl e
           | Inr ls \<Rightarrow> Inr (listen secure addr # ls)))"

text \<open>
  A server that cannot bind its address panics when its task first runs, which ends the process. The
  tasks bind in any order and a listener does nothing before it is bound, so the start takes all
  bindings at once: a run in which one of them fails is one that ends, and what the other listeners
  may have accepted before that is not modelled.
\<close>

definition bind_all :: "(socket_addr \<Rightarrow> bool) \<Rightarrow> listener list \<Rightarrow> start_failure + listener list" where
  "bind_all ok ls = (case find (\<lambda>lis. \<not> ok (ln_addr lis)) ls of Some lis \<Rightarrow> Inl (Bind_panic (ln_addr lis)) | None \<Rightarrow> Inr ls)"

definition initial_tables :: "'r config \<Rightarrow> proxy_state" where
  "initial_tables cfg = \<lparr>st_bans = ban_new, st_rates = rate_new, st_buckets = limiter_new,
     st_vhosts = cfg_vhosts cfg, st_health = health_new\<rparr>"

record 'r process =
  pc_config :: "'r config"
  pc_server :: server_state

definition start :: "'r start_env \<Rightarrow> start_failure + 'r process" where
  "start env =
     (if \<not> crypto_installed env then Inl Crypto_panic
      else case load (se_tls env) (lit ''config.toml'') of
        Inl e \<Rightarrow> Inl (Load_error e)
      | Inr cfg \<Rightarrow>
        if \<not> watcher_made env then Inl Watcher_error
        else if certs_exist env \<and> \<not> watch_started env then Inl Watch_error
        else if max_permits env < unat (max_connections (network cfg)) then Inl Permits_panic
        else case spawn_servers False (http_addrs (network cfg)) of
          Inl e \<Rightarrow> Inl e
        | Inr http \<Rightarrow>
          (case spawn_servers True (https_addrs (network cfg)) of
             Inl e \<Rightarrow> Inl e
           | Inr https \<Rightarrow>
             (case bind_all (can_bind env) (http @ https) of
                Inl e \<Rightarrow> Inl e
              | Inr ls \<Rightarrow> Inr \<lparr>pc_config = cfg,
                  pc_server = \<lparr>sv_proxy = initial_tables cfg, sv_permits = unat (max_connections (network cfg)),
                    sv_cancelled = False, sv_listeners = ls, sv_probes = []\<rparr>\<rparr>)))"

section \<open>The watcher\<close>

text \<open>The kinds of event of the \<open>notify\<close> crate, and an error in place of an event.\<close>

datatype event_kind = Any_event | Access_event | Create_event | Modify_event | Remove_event | Other_event | Event_error

definition on_watch_event :: "'r tls_env \<Rightarrow> event_kind \<Rightarrow> 'r config \<Rightarrow> 'r config" where
  "on_watch_event env kind cfg =
     (if kind \<in> {Modify_event, Create_event, Remove_event} then snd (reload_certs env cfg) else cfg)"

section \<open>The running process\<close>

text \<open>
  A step is one of the server or an event of the watcher, with the files as they are at that time.
  Ctrl-C is the label \<^term>\<open>Cancel\<close> of the server; \<open>main\<close> returns once all servers have stopped.
\<close>

datatype 'r process_label = Server_event server_label | Watched "'r tls_env" event_kind

inductive process_step ::
  "waf_lib \<Rightarrow> 'r process \<Rightarrow> 'r process_label \<Rightarrow> 'r process \<Rightarrow> bool"
  for L where
  server: "server_step L (pc_config p) (pc_server p) l s \<Longrightarrow>
     process_step L p (Server_event l) (p\<lparr>pc_server := s\<rparr>)"
| watched: "process_step L p (Watched tls kind) (p\<lparr>pc_config := on_watch_event tls kind (pc_config p)\<rparr>)"

inductive process_run ::
  "waf_lib \<Rightarrow> 'r process \<Rightarrow> 'r process_label list \<Rightarrow> 'r process \<Rightarrow> bool"
  for L where
  run_nil: "process_run L p [] p"
| run_cons: "process_step L p l p' \<Longrightarrow> process_run L p' ls p'' \<Longrightarrow> process_run L p (l # ls) p''"

inductive_simps process_run_Nil [simp]: "process_run L p [] p'"
inductive_simps process_run_Cons: "process_run L p (l # ls) p'"

interpretation process_lts: labelled_system "process_step L" "process_run L" for L
  by unfold_locales (auto simp: process_run_Cons)

definition main_returns :: "'r process \<Rightarrow> bool" where
  "main_returns p \<longleftrightarrow> sv_cancelled (pc_server p) \<and> all_stopped (pc_server p)"

section \<open>Facts\<close>

lemma spawn_servers_exact:
  "spawn_servers secure addrs = Inr ls \<longleftrightarrow>
     (\<exists>as. map parse_socket_addr addrs = map Some as \<and> ls = map (listen secure) as)"
proof (induction addrs arbitrary: ls)
  case (Cons a addrs)
  show ?case
  proof (cases "parse_socket_addr a")
    case (Some addr)
    have m: "map parse_socket_addr (a # addrs) = map Some as \<longleftrightarrow>
        (\<exists>as'. as = addr # as' \<and> map parse_socket_addr addrs = map Some as')" for as
      using Some by (cases as) auto
    have "(\<exists>as. map parse_socket_addr (a # addrs) = map Some as \<and> ls = map (listen secure) as) \<longleftrightarrow>
        (\<exists>as ls'. map parse_socket_addr addrs = map Some as \<and> ls' = map (listen secure) as \<and> ls = listen secure addr # ls')"
      unfolding m by (metis list.simps(9))
    also have "\<dots> \<longleftrightarrow> (\<exists>ls'. spawn_servers secure addrs = Inr ls' \<and> ls = listen secure addr # ls')"
      using Cons by blast
    also have "\<dots> \<longleftrightarrow> spawn_servers secure (a # addrs) = Inr ls"
      using Some by (auto split: sum.splits)
    finally show ?thesis by simp
  qed (auto simp: map_eq_Cons_conv)
qed auto

lemma bind_all_exact:
  "bind_all ok (map (listen False) as @ map (listen True) bs) = Inr ls \<longleftrightarrow>
     ls = map (listen False) as @ map (listen True) bs \<and> list_all ok (as @ bs)"
proof -
  let ?ls = "map (listen False) as @ map (listen True) bs"
  have "find (\<lambda>lis. \<not> ok (ln_addr lis)) ?ls = None \<longleftrightarrow> list_all ok (as @ bs)"
    by (auto simp: find_None_iff list_all_iff listen_def)
  then show ?thesis
    by (cases "find (\<lambda>lis. \<not> ok (ln_addr lis)) ?ls") (auto simp: bind_all_def)
qed

lemma load_inv:
  assumes "load env path = Inr cfg"
    and "\<forall>raw. toml_parse env (the (fs_read_to_string env path)) = Some raw \<longrightarrow>
           (\<forall>rv \<in> set (raw_vhosts raw). distinct (map fst (raw_routers rv)))"
  shows "proxy_inv cfg (initial_tables cfg)"
proof -
  obtain content raw where p: "fs_read_to_string env path = Some content" "toml_parse env content = Some raw"
    and l: "load_vhosts env (raw_vhosts raw) [] (sni_new env) = Inr (cfg_vhosts cfg, cert_resolver cfg)"
    using load_parts [OF assms(1)] by blast
  show ?thesis
    using load_vhosts_distinct [OF l] load_vhosts_wf [OF l] assms(2) p by (simp add: proxy_inv_def initial_tables_def)
qed

lemma start_parts:
  "start env = Inr p \<longleftrightarrow>
     crypto_installed env \<and> watcher_made env \<and> (\<not> certs_exist env \<or> watch_started env) \<and>
     load (se_tls env) (lit ''config.toml'') = Inr (pc_config p) \<and>
     unat (max_connections (network (pc_config p))) \<le> max_permits env \<and>
     (\<exists>http https ls. spawn_servers False (http_addrs (network (pc_config p))) = Inr http \<and>
        spawn_servers True (https_addrs (network (pc_config p))) = Inr https \<and>
        bind_all (can_bind env) (http @ https) = Inr ls \<and>
        pc_server p = \<lparr>sv_proxy = initial_tables (pc_config p),
          sv_permits = unat (max_connections (network (pc_config p))), sv_cancelled = False, sv_listeners = ls, sv_probes = []\<rparr>)"
proof -
  have e: "\<lparr>pc_config = cfg, pc_server = s\<rparr> = p \<longleftrightarrow> pc_config p = cfg \<and> pc_server p = s" for cfg s
    by (cases p) auto
  show ?thesis
    by (auto simp: start_def e not_less split: sum.splits if_splits)
qed

lemma start_iff:
  "start env = Inr p \<longleftrightarrow>
     crypto_installed env \<and> load (se_tls env) (lit ''config.toml'') = Inr (pc_config p) \<and> watcher_made env \<and>
     (\<not> certs_exist env \<or> watch_started env) \<and>
     unat (max_connections (network (pc_config p))) \<le> max_permits env \<and>
     (\<exists>http https. map parse_socket_addr (http_addrs (network (pc_config p))) = map Some http \<and>
        map parse_socket_addr (https_addrs (network (pc_config p))) = map Some https \<and>
        list_all (can_bind env) (http @ https) \<and>
        pc_server p = \<lparr>sv_proxy = initial_tables (pc_config p),
          sv_permits = unat (max_connections (network (pc_config p))), sv_cancelled = False,
          sv_listeners = map (listen False) http @ map (listen True) https, sv_probes = []\<rparr>)"
  unfolding start_parts spawn_servers_exact by (auto simp: bind_all_exact)

text \<open>The invariant of the process, and what no event changes.\<close>

definition process_inv :: "'r config \<Rightarrow> 'r process \<Rightarrow> bool" where
  "process_inv cfg p \<longleftrightarrow>
     server_inv (pc_config p) (unat (max_connections (network cfg))) (pc_server p) \<and>
     limits (pc_config p) = limits cfg \<and> bans (pc_config p) = bans cfg \<and> timeouts (pc_config p) = timeouts cfg \<and>
     network (pc_config p) = network cfg \<and> cfg_vhosts (pc_config p) = cfg_vhosts cfg"

lemma server_inv_limits: "limits cfg' = limits cfg \<Longrightarrow> server_inv cfg' n s = server_inv cfg n s"
  by (simp add: server_inv_def proxy_inv_def)

lemma on_watch_event_keeps:
  "limits (on_watch_event env kind cfg) = limits cfg" "bans (on_watch_event env kind cfg) = bans cfg"
  "timeouts (on_watch_event env kind cfg) = timeouts cfg" "network (on_watch_event env kind cfg) = network cfg"
  "cfg_vhosts (on_watch_event env kind cfg) = cfg_vhosts cfg"
  using reload_certs_keeps [OF surjective_pairing, of env cfg] by (simp_all add: on_watch_event_def)

lemma process_step_inv: "process_step L p l p' \<Longrightarrow> process_inv cfg p \<Longrightarrow> process_inv cfg p'"
proof (induction rule: process_step.induct)
  case (server p l s)
  then show ?case by (auto simp: process_inv_def intro: server_step_inv)
next
  case (watched p tls kind)
  have "server_inv (on_watch_event tls kind (pc_config p)) n (pc_server p) = server_inv (pc_config p) n (pc_server p)" for n
    by (rule server_inv_limits) (rule on_watch_event_keeps)
  with watched show ?case by (simp add: process_inv_def on_watch_event_keeps)
qed

lemma process_run_inv: "process_run L p ls p' \<Longrightarrow> process_inv cfg p \<Longrightarrow> process_inv cfg p'"
  by (rule process_lts.run_keeps [where P = "\<lambda>_. True"]) (auto intro: process_step_inv simp: list_all_iff)

lemma server_run_process:
  "server_run L cfg s ls s' \<Longrightarrow> cfg = pc_config p \<Longrightarrow> s = pc_server p \<Longrightarrow>
     process_run L p (map Server_event ls) (p\<lparr>pc_server := s'\<rparr>)"
proof (induction arbitrary: p rule: server_run.induct)
  case (run_cons s l s' ls s'')
  have "process_run L (p\<lparr>pc_server := s'\<rparr>) (map Server_event ls) (p\<lparr>pc_server := s''\<rparr>)"
    using run_cons.IH [of "p\<lparr>pc_server := s'\<rparr>"] run_cons.prems by simp
  moreover have "process_step L p (Server_event l) (p\<lparr>pc_server := s'\<rparr>)"
    using run_cons.hyps(1) run_cons.prems by (intro process_step.server) simp
  ultimately show ?case unfolding list.map process_run_Cons by blast
qed simp

lemma start_inv:
  assumes "start env = Inr p"
    and "\<forall>raw. toml_parse (se_tls env) (the (fs_read_to_string (se_tls env) (lit ''config.toml''))) = Some raw \<longrightarrow>
           (\<forall>rv \<in> set (raw_vhosts raw). distinct (map fst (raw_routers rv)))"
  shows "process_inv (pc_config p) p"
proof -
  from assms(1) obtain http https where l: "load (se_tls env) (lit ''config.toml'') = Inr (pc_config p)"
    and s: "pc_server p = \<lparr>sv_proxy = initial_tables (pc_config p),
          sv_permits = unat (max_connections (network (pc_config p))), sv_cancelled = False,
          sv_listeners = map (listen False) http @ map (listen True) https, sv_probes = []\<rparr>"
    unfolding start_iff by blast
  have "active_conns (listen b a) = 0" "listener_wf (listen b a)" for b a
    by (simp_all add: active_conns_def listen_def listener_wf_def)
  then have "active (pc_server p) = 0" "\<forall>lis \<in> set (sv_listeners (pc_server p)). listener_wf lis"
    by (auto simp: active_def s)
  with load_inv [OF l assms(2)] show ?thesis by (simp add: process_inv_def server_inv_def s)
qed

text \<open>The routes in the tables are those of the loaded configuration, in every reachable state.\<close>

lemma server_step_routes:
  "server_step L cfg s l s' \<Longrightarrow> route_tables (sv_proxy s') = route_tables (sv_proxy s)"
proof (induction rule: server_step.induct)
  case (serve i s lis j c env now late req out st')
  show ?case
  proof (cases "ln_secure lis")
    case True
    with serve(6) obtain sent where "https_proxy L cfg env now late req (cn_peer c) (sv_proxy s) = Some (out, sent, st')"
      by (auto simp: serve_request_def)
    from https_proxy_keeps [OF this] show ?thesis by (simp add: keeps_def)
  next
    case False
    with serve(6) obtain r where "http_proxy L cfg now req (cn_peer c) (sv_proxy s) = Some (r, st')"
      by (auto simp: serve_request_def)
    from http_proxy_keeps [OF this] show ?thesis by (simp add: keeps_def)
  qed
qed (simp_all add: route_tables_def)

lemma process_routes:
  assumes "start env = Inr p" and "process_run L p ls p'"
  shows "route_tables (sv_proxy (pc_server p')) = map (\<lambda>(d, vh). (d, routers vh)) (cfg_vhosts (pc_config p))"
proof -
  let ?I = "\<lambda>q. route_tables (sv_proxy (pc_server q)) = route_tables (sv_proxy (pc_server p))"
  have "?I p'"
  proof (rule process_lts.run_keeps [where I = ?I and P = "\<lambda>_. True", OF _ assms(2)])
    fix q l q' assume "process_step L q l q'" and "?I q"
    then show "?I q'" by (cases rule: process_step.cases) (simp_all add: server_step_routes)
  qed (simp_all add: list_all_iff)
  moreover have "sv_proxy (pc_server p) = initial_tables (pc_config p)" using assms(1) unfolding start_iff by auto
  ultimately show ?thesis by (simp add: route_tables_def initial_tables_def)
qed

lemma process_host:
  assumes "start env = Inr p" and "process_run L p ls p'"
    and "map_of (st_vhosts (sv_proxy (pc_server p'))) dmn = Some vh"
  shows "\<exists>vh0. map_of (cfg_vhosts (pc_config p)) dmn = Some vh0 \<and> routers vh0 = routers vh"
proof -
  have m: "map_of (map (\<lambda>(d, vh). (d, routers vh)) vs) dmn = map_option routers (map_of vs dmn)" for vs :: vhosts
    by (simp add: map_of_map)
  have "map_option routers (map_of (cfg_vhosts (pc_config p)) dmn) = Some (routers vh)"
    using process_routes [OF assms(1,2)] m [of "cfg_vhosts (pc_config p)"]
      m [of "st_vhosts (sv_proxy (pc_server p'))"] assms(3) by (simp add: route_tables_def)
  then show ?thesis by auto
qed

section \<open>Properties\<close>

text \<open>
  C33: when the process starts and with what. It starts exactly if the crypto provider installs, the
  configuration loads, the watcher is made and (if the directory of certificates exists) started, the
  number of connections is in the range of the semaphore, and every configured address is a socket
  address that can be bound; then one listener per address accepts, the plain ones first, with all
  permits free, nobody banned and nothing counted.
\<close>

theorem start_exact:
  "start env = Inr p \<longleftrightarrow>
     crypto_installed env \<and> load (se_tls env) (lit ''config.toml'') = Inr (pc_config p) \<and> watcher_made env \<and>
     (\<not> certs_exist env \<or> watch_started env) \<and>
     unat (max_connections (network (pc_config p))) \<le> max_permits env \<and>
     (\<exists>http https. map parse_socket_addr (http_addrs (network (pc_config p))) = map Some http \<and>
        map parse_socket_addr (https_addrs (network (pc_config p))) = map Some https \<and>
        list_all (can_bind env) (http @ https) \<and>
        pc_server p = \<lparr>sv_proxy = initial_tables (pc_config p),
          sv_permits = unat (max_connections (network (pc_config p))), sv_cancelled = False,
          sv_listeners = map (listen False) http @ map (listen True) https, sv_probes = []\<rparr>)"
  by (rule start_iff)

text \<open>
  C8: the process from its start. Through any run of the started process, certificate reloads among
  the steps, permits and connections add up to the configured number, the shared tables are in order
  for the loaded limits, and no reload changes anything of the configuration but the certificates.
\<close>

theorem process_stays_safe:
  assumes "start env = Inr p" and "process_run L p ls p'"
    and "\<forall>raw. toml_parse (se_tls env) (the (fs_read_to_string (se_tls env) (lit ''config.toml''))) = Some raw \<longrightarrow>
           (\<forall>rv \<in> set (raw_vhosts raw). distinct (map fst (raw_routers rv)))"
  shows "sv_permits (pc_server p') + active (pc_server p') = unat (max_connections (network (pc_config p))) \<and>
     proxy_inv (pc_config p) (sv_proxy (pc_server p')) \<and>
     limits (pc_config p') = limits (pc_config p) \<and> bans (pc_config p') = bans (pc_config p) \<and>
     timeouts (pc_config p') = timeouts (pc_config p) \<and> cfg_vhosts (pc_config p') = cfg_vhosts (pc_config p)"
proof -
  have i: "process_inv (pc_config p) p'" by (rule process_run_inv [OF assms(2) start_inv [OF assms(1,3)]])
  then have "limits (pc_config p') = limits (pc_config p)" by (simp add: process_inv_def)
  from server_inv_limits [OF this] i show ?thesis by (simp add: process_inv_def server_inv_def)
qed

text \<open>
  C34: Ctrl-C can always end the process. From every state that a process started with at least one
  connection can reach, an interrupt can be followed by steps that only finish what is there until
  all servers have stopped and \<open>main\<close> returns.
\<close>

theorem interrupt_ends_process:
  assumes "start env = Inr p" and "process_run L p ls p'" and "max_connections (network (pc_config p)) \<noteq> 0"
    and "\<forall>raw. toml_parse (se_tls env) (the (fs_read_to_string (se_tls env) (lit ''config.toml''))) = Some raw \<longrightarrow>
           (\<forall>rv \<in> set (raw_vhosts raw). distinct (map fst (raw_routers rv)))"
  shows "\<exists>ls' p''. process_run L p' (Server_event Cancel # map Server_event ls') p'' \<and>
     list_all drain_label ls' \<and> main_returns p''"
proof -
  let ?n = "unat (max_connections (network (pc_config p)))" and ?s = "(pc_server p')\<lparr>sv_cancelled := True\<rparr>"
  have step: "server_step L (pc_config p') (pc_server p') Cancel ?s" by (rule cancel)
  have "process_inv (pc_config p) p'" by (rule process_run_inv [OF assms(2) start_inv [OF assms(1,4)]])
  then have "server_inv (pc_config p') ?n ?s" using step server_step_inv by (auto simp: process_inv_def)
  moreover have "0 < ?n" using assms(3) by (simp add: unat_gt_0)
  ultimately obtain ls' s' where r: "server_run L (pc_config p') ?s ls' s'" "list_all drain_label ls'"
    "all_stopped s'" "sv_cancelled s'" using shutdown_reaches [of "pc_config p'" ?n ?s L] by auto
  have "process_run L (p'\<lparr>pc_server := ?s\<rparr>) (map Server_event ls') (p'\<lparr>pc_server := s'\<rparr>)"
    using server_run_process [OF r(1), of "p'\<lparr>pc_server := ?s\<rparr>"] by simp
  moreover have "process_step L p' (Server_event Cancel) (p'\<lparr>pc_server := ?s\<rparr>)" by (rule process_step.server [OF step])
  ultimately have "process_run L p' (Server_event Cancel # map Server_event ls') (p'\<lparr>pc_server := s'\<rparr>)"
    unfolding process_run_Cons by blast
  moreover have "main_returns (p'\<lparr>pc_server := s'\<rparr>)" using r(3,4) by (simp add: main_returns_def)
  ultimately show ?thesis using r(2) by blast
qed

section \<open>Witnesses\<close>

definition demo_start :: "(ustr \<rightharpoonup> certified_key) start_env" where
  "demo_start = \<lparr>se_tls = ref_env demo_files (\<lambda>_. Some (demo_raw\<lparr>raw_network :=
       \<lparr>http_addrs = [lit ''0.0.0.0:80''], https_addrs = [lit ''[::]:443''], max_connections = 2\<rparr>\<rparr>)),
     crypto_installed = True, watcher_made = True, certs_exist = True, watch_started = True,
     max_permits = 2 ^ 61 - 1, can_bind = (\<lambda>_. True)\<rparr>"

lemma demo_started:
  obtains p where "start demo_start = Inr p" "max_connections (network (pc_config p)) = 2"
proof -
  obtain cfg where l: "load (se_tls demo_start) (lit ''config.toml'') = Inr cfg"
    and n: "network cfg = \<lparr>http_addrs = [lit ''0.0.0.0:80''], https_addrs = [lit ''[::]:443''], max_connections = 2\<rparr>"
    by (simp add: demo_start_def load_eval)
  have a: "parse_socket_addr (lit ''0.0.0.0:80'') = Some (V4 0 0 0 0, 80)"
    "parse_socket_addr (lit ''[::]:443'') = Some (V6 [0, 0, 0, 0, 0, 0, 0, 0], 443)" by code_simp+
  let ?ls = "[listen False (V4 0 0 0 0, 80), listen True (V6 [0, 0, 0, 0, 0, 0, 0, 0], 443)]"
  let ?p = "\<lparr>pc_config = cfg, pc_server = \<lparr>sv_proxy = initial_tables cfg, sv_permits = 2, sv_cancelled = False, sv_listeners = ?ls, sv_probes = []\<rparr>\<rparr>"
  have "bind_all (can_bind demo_start) ?ls = Inr ?ls" by (simp add: bind_all_def demo_start_def)
  then have "start demo_start = Inr ?p"
    unfolding start_parts using l n a by (simp add: demo_start_def del: lit_simps)
  moreover have "max_connections (network cfg) = 2" by (simp add: n)
  ultimately show ?thesis by (intro that [of ?p]) simp_all
qed

theorem start_exact_witness:
  "\<exists>p http https. start demo_start = Inr p \<and>
     map parse_socket_addr (http_addrs (network (pc_config p))) = map Some http \<and>
     sv_listeners (pc_server p) = map (listen False) http @ map (listen True) https"
proof -
  obtain p where p: "start demo_start = Inr p" "max_connections (network (pc_config p)) = 2" by (rule demo_started)
  then obtain http https where "map parse_socket_addr (http_addrs (network (pc_config p))) = map Some http"
    "pc_server p = \<lparr>sv_proxy = initial_tables (pc_config p),
          sv_permits = unat (max_connections (network (pc_config p))), sv_cancelled = False,
          sv_listeners = map (listen False) http @ map (listen True) https, sv_probes = []\<rparr>"
    using start_exact [of demo_start p] by blast
  with p(1) show ?thesis by (intro exI [of _ p] exI [of _ http] exI [of _ https]) simp
qed

lemma demo_start_distinct:
  "\<forall>raw. toml_parse (se_tls demo_start) (the (fs_read_to_string (se_tls demo_start) (lit ''config.toml''))) = Some raw \<longrightarrow>
     (\<forall>rv \<in> set (raw_vhosts raw). distinct (map fst (raw_routers rv)))"
  by (simp add: demo_start_def load_eval)

lemma demo_watch: "process_run L p [Watched tls Modify_event] (p\<lparr>pc_config := on_watch_event tls Modify_event (pc_config p)\<rparr>)"
  unfolding process_run_Cons process_run_Nil by (intro exI conjI) (rule watched, simp)

theorem process_stays_safe_witness:
  "\<exists>p p'. start demo_start = Inr p \<and> process_run waf_ref p [Watched demo_env Modify_event] p' \<and>
     sv_permits (pc_server p') + active (pc_server p') = 2"
proof -
  obtain p where p: "start demo_start = Inr p" "max_connections (network (pc_config p)) = 2" by (rule demo_started)
  let ?p = "p\<lparr>pc_config := on_watch_event demo_env Modify_event (pc_config p)\<rparr>"
  have r: "process_run waf_ref p [Watched demo_env Modify_event] ?p" by (rule demo_watch)
  have "sv_permits (pc_server ?p) + active (pc_server ?p) = 2"
    using process_stays_safe [OF p(1) r demo_start_distinct] p(2) by simp
  with p(1) r show ?thesis by blast
qed

theorem interrupt_ends_process_witness:
  "\<exists>p ls' p''. start demo_start = Inr p \<and>
     process_run waf_ref p (Server_event Cancel # map Server_event ls') p'' \<and> main_returns p''"
proof -
  obtain p where p: "start demo_start = Inr p" "max_connections (network (pc_config p)) = 2" by (rule demo_started)
  then have "max_connections (network (pc_config p)) \<noteq> 0" by simp
  from interrupt_ends_process [OF p(1) process_run_Nil [THEN iffD2, OF refl] this demo_start_distinct] p(1)
  show ?thesis by blast
qed

end
