(* ===== verification/Spec2Isabelle.thy ===== *)
theory Spec2Isabelle
  imports Startup Relay
begin

text \<open>
  A verification development for Oxidized Wall, a reverse proxy with a web application firewall
  (Rust, \<open>src/\<close>). The program listens for plain and TLS connections, turns away banned addresses,
  checks every request in a pipeline (rate limit, protocol integrity, size limits, firewall), routes
  it to a healthy upstream of the virtual host it names, and throttles, sanitises and masks the answer.

  \<^bold>\<open>Theories and the code they model.\<close>

  \<^item> \<open>Prelude\<close>: machine integers, the clock, maps, and \<open>labelled_system\<close>, the interface of a step
    relation and its runs. \<open>Rust_Text\<close>: strings as lists of code points, UTF-8, and the functions of
    \<open>str\<close> that the program calls. \<open>Rust_Net\<close>: the standard library's parsers of addresses.
    \<open>Ieee\<close>: rounding to a binary floating point format, as rationals.
  \<^item> \<open>Config\<close> (\<open>src/config.rs\<close>): the configuration records, \<open>load\<close>, the certificate resolver and
    \<open>reload_certs\<close>.
  \<^item> \<open>Ban\<close> (\<open>src/ban.rs\<close>): the ban list with its lazy removal and its sweep, and the step relation of
    the tasks that share it. \<open>Ratelimit\<close> (\<open>src/ratelimit.rs\<close>): the fixed window. \<open>Health\<close>
    (\<open>src/health.rs\<close>): the probe rounds.
  \<^item> \<open>Http\<close>: methods, statuses, header maps, URIs, bodies. \<open>Bandwidth\<close> (\<open>src/bandwidth.rs\<close>): the token
    bucket in double precision, the table of buckets, the throttled body and the task that drives it.
  \<^item> \<open>Protocol\<close> (\<open>src/protocol.rs\<close>): the three checks of a request and their error texts.
  \<^item> \<open>Regex\<close>, \<open>Languages\<close>: the patterns as expressions with a matching relation, the leftmost-first
    engine as an interface with a reference engine, and the languages of patterns.
  \<^item> \<open>Waf_Core\<close>, \<open>Waf_Path\<close>, \<open>Waf_Structure\<close>, \<open>Waf_File\<close>, \<open>Waf_Dlp\<close>, \<open>Waf\<close> (\<open>src/waf/\<close>): injection
    signatures, decoding and traversal, nesting, density and repeated keys, file signatures, masking,
    and the three phases that call them.
  \<^item> \<open>Routing\<close>, \<open>Headers\<close>, \<open>Pipeline\<close>, \<open>Relay\<close>, \<open>Proxy\<close> (\<open>src/proxy.rs\<close>): routes and load balancing;
    the header functions; \<open>verify_request\<close> and \<open>http_proxy\<close>; one direction of the WebSocket relay;
    \<open>handle_http\<close>, \<open>handle_websocket\<close> and \<open>https_proxy\<close>. \<open>Serving\<close>: what the HTTPS handler promises.
  \<^item> \<open>Server\<close> (\<open>src/server.rs\<close>): the accept loops of all listeners with their connection tasks as one
    step relation, and the settings of the connection builder. \<open>Startup\<close> (\<open>src/main.rs\<close>): the start
    and its failures, the certificate watcher, the interrupt and the end.

  \<^bold>\<open>How state and operations correspond.\<close> The tables that the handlers share behind \<open>Arc\<close> are the
  record \<^typ>\<open>proxy_state\<close> (ban list, rate windows, buckets, virtual hosts with their counters, health
  statuses); an operation takes the state and returns the new one. Readings of the clock are
  arguments, one per reading. A panic ends the process (\<open>panic = "abort"\<close>), so an operation that
  can panic returns an option and \<^term>\<open>None\<close> is the end of the process. Integers keep their width,
  and arithmetic on them wraps as in the release build. Within one request the handler is one step;
  the interleaving of requests, sweeps, probes, accepts and connection tasks is the interleaving of
  steps of \<^const>\<open>server_step\<close> and \<^const>\<open>process_step\<close>. The label of a request's step carries what the
  network did to it and its clock readings, so they differ from request to request; the health checker
  takes one step per probe. The ban list, whose check has two critical
  sections, has a finer step relation of its own (\<^const>\<open>ban_step\<close>).

  \<^bold>\<open>What is outside.\<close> Crates and the network are parameters: the regex engine
  (\<open>regex_engine\<close>), Aho-Corasick (\<open>aho_corasick\<close>), Unicode tables (\<open>unicode_tables\<close>), the text
  conversions of header values (\<open>http_values\<close>), the SNI table of rustls (\<open>sni_resolver\<close>), the limited
  collection of a body (\<open>body_collector\<close>) with their documented laws as locales, each instantiated by
  a reference; files, TOML and PEM parsing (\<^typ>\<open>'r tls_env\<close>), the outcome of every awaited network
  operation (\<^typ>\<open>upstream_env\<close>), and the calls of \<open>main\<close> that can fail (\<^typ>\<open>'r start_env\<close>) without
  laws. The program's own components meet through \<open>ban_service\<close>, \<open>window_limiter\<close>, \<open>header_store\<close> and
  \<open>labelled_system\<close>, which are interpreted on the model's definitions.

  \<^bold>\<open>What the lemmas show.\<close> The firewall: the phases decide exactly the stated conditions on the decoded
  target and on the body, no percent encoding hides an attack that is written in ASCII, masking leaves
  no card number and gives well-formed text. The tables: bans hold until they expire in every
  interleaving, windows and buckets bound what is admitted, in clock order the sweep of the windows is
  unobservable. The handler: what is sent upstream has passed the checks of its method and goes to the
  longest matching route, what the HTTPS handler answers is sanitised and masked unless the request is
  an upgrade, invariants are kept, it returns unless it waits for a body that never ends. The server:
  its steps are those of a simple gate at which clients arrive, enter and leave, an address that is
  banned and absent is not connected, shutdown ends if there is a permit. The process: it starts exactly under
  the stated conditions, stays safe, and an interrupt can always end it. Some theorems state how the
  code falls short (frames that are lost, answers that bypass masking, stalls, truncations); the
  manifest lists them as findings.

  \<^bold>\<open>Bounds and fuel.\<close> Loops that may wait forever take one pair of clock readings per attempt
  (\<^const>\<open>drive\<close>, \<^const>\<open>await_quota\<close>); running out of readings means still waiting, and
  \<open>quota_wait_ends\<close> gives the readings that are enough. The body phase is stated for bodies of valid
  text up to four mebibytes, where single precision decides the density exactly; beyond it does not
  (\<open>density_check_misjudges\<close>). All other recursion is total.

  \<^bold>\<open>Not modelled.\<close> Logging; the runtime and its scheduling (the order of steps is arbitrary); HTTP
  parsing and the connection state machines of hyper; TLS itself (a handshake is an outcome); the
  detached task of an upgraded connection is modelled by its two directions separately, which share a
  bucket, and is no part of the server's steps since it holds no permit and is not joined; the scope of
  an IPv6 socket address; the order in which the listeners bind (the start binds all of them at once,
  since a binding that fails ends the process).
\<close>

section \<open>From the socket to the upstream\<close>



end
